(* ===== verification/Prelude.thy ===== *)
theory Prelude
  imports Main "HOL-Library.Word" "HOL-Library.Monad_Syntax" "HOL-Library.Product_Lexorder"
begin

text \<open>
  The vocabulary shared by every component: the machine-integer types, the identifier types of
  \<^verbatim>\<open>crates/core/src/types.rs\<close>, Rust's checked and saturating arithmetic, the little-endian byte
  encodings behind \<^verbatim>\<open>to_le_bytes\<close> and \<^verbatim>\<open>from_le_bytes\<close>, and the third-party code the program
  calls (checksum, compression) as an explicit parameter record.

  Conventions.  A \<^verbatim>\<open>Vec<u8>\<close> or \<^verbatim>\<open>&[u8]\<close> is a list of 8-bit words.  A \<^verbatim>\<open>usize\<close> that
  counts bytes of such a list is a natural number; where the code narrows it (\<^verbatim>\<open>u32::try_from\<close>)
  or adds with a check, the bound is written out.  \<^verbatim>\<open>Result<T, DecodeError>\<close> is an option, since
  the error carries no information.  A function that may panic returns an option (\<open>None\<close> is the
  panic); a function that may both fail and panic returns the three-valued \<open>outcome\<close>.
\<close>

unbundle bit_operations_syntax

section \<open>Machine integers and identifiers\<close>

type_synonym u8 = "8 word"
type_synonym u16 = "16 word"
type_synonym u32 = "32 word"
type_synonym u64 = "64 word"
type_synonym bytes = "u8 list"

text \<open>The identifier newtypes are transparent wrappers around their integer.\<close>

type_synonym host_id = u32
type_synonym volume_id = u64
type_synonym page_no = u32
type_synonym epoch_id = u64
type_synonym gen_no = u64
type_synonym journal_seq = u64
type_synonym object_id = u64

text \<open>A page within a volume: the pair (volume, page), ordered by volume first.\<close>

type_synonym page_id = "volume_id \<times> page_no"

named_theorems codec_simps "decoder equations of the wire primitives and composite codecs"

section \<open>Outcomes\<close>

text \<open>A call that may return a value, return an error value, or panic.\<close>

datatype ('e, 'a) outcome = Returned 'a | Failed 'e | Panicked

fun outcome_bind :: "('e, 'a) outcome \<Rightarrow> ('a \<Rightarrow> ('e, 'b) outcome) \<Rightarrow> ('e, 'b) outcome" where
  "outcome_bind (Returned x) f = f x"
| "outcome_bind (Failed e) f = Failed e"
| "outcome_bind Panicked f = Panicked"

lemma outcome_bind_Returned: "outcome_bind x f = Returned y \<longleftrightarrow> (\<exists>v. x = Returned v \<and> f v = Returned y)"
  by (cases x) simp_all

lemma outcome_bind_Panicked: "outcome_bind x f = Panicked \<longleftrightarrow> x = Panicked \<or> (\<exists>v. x = Returned v \<and> f v = Panicked)"
  by (cases x) simp_all

text \<open>\<^verbatim>\<open>ok_or(e)?\<close> and \<^verbatim>\<open>expect(..)\<close>.\<close>

definition or_fail :: "'e \<Rightarrow> 'a option \<Rightarrow> ('e, 'a) outcome" where
  "or_fail e x = (case x of None \<Rightarrow> Failed e | Some v \<Rightarrow> Returned v)"

definition or_panic :: "'a option \<Rightarrow> ('e, 'a) outcome" where
  "or_panic x = (case x of None \<Rightarrow> Panicked | Some v \<Rightarrow> Returned v)"

lemma or_fail_results [simp]:
  "or_fail e x = Returned v \<longleftrightarrow> x = Some v" "or_fail e x \<noteq> Panicked"
  "or_panic x = Returned v \<longleftrightarrow> x = Some v" "or_panic x = Panicked \<longleftrightarrow> x = None"
  by (auto simp: or_fail_def or_panic_def split: option.splits)

definition guard_opt :: "bool \<Rightarrow> unit option" where
  "guard_opt b = (if b then Some () else None)"

lemma guard_opt_Some [simp]: "guard_opt b = Some u \<longleftrightarrow> b"
  by (simp add: guard_opt_def)

lemma guard_opt_None [simp]: "guard_opt b = None \<longleftrightarrow> \<not> b"
  by (simp add: guard_opt_def)

lemma guard_opt_True [simp]: "guard_opt True = Some ()"
  by (simp add: guard_opt_def)

lemma guard_opt_False [simp]: "guard_opt False = None"
  by (simp add: guard_opt_def)

text \<open>A successful option computation succeeds step by step.\<close>

lemmas bind_SomeD = bind_eq_Some_conv [THEN iffD1]

lemma bind_SomeE:
  "Option.bind x f = Some y \<Longrightarrow> (\<And>v. x = Some v \<Longrightarrow> f v = Some y \<Longrightarrow> P) \<Longrightarrow> P"
  by (cases x) auto

section \<open>Checked and saturating arithmetic\<close>

definition checked_add :: "'a::len word \<Rightarrow> 'a word \<Rightarrow> 'a word option" where
  "checked_add a b = (if unat a + unat b < 2 ^ LENGTH('a) then Some (a + b) else None)"

definition checked_sub :: "'a::len word \<Rightarrow> 'a word \<Rightarrow> 'a word option" where
  "checked_sub a b = (if b \<le> a then Some (a - b) else None)"

definition checked_mul :: "'a::len word \<Rightarrow> 'a word \<Rightarrow> 'a word option" where
  "checked_mul a b = (if unat a * unat b < 2 ^ LENGTH('a) then Some (a * b) else None)"

definition saturating_sub :: "'a::len word \<Rightarrow> 'a word \<Rightarrow> 'a word" where
  "saturating_sub a b = (if b \<le> a then a - b else 0)"

definition saturating_add :: "'a::len word \<Rightarrow> 'a word \<Rightarrow> 'a word" where
  "saturating_add a b = (if unat a + unat b < 2 ^ LENGTH('a) then a + b else - 1)"

lemma checked_add_SomeD:
  "checked_add a b = Some c \<Longrightarrow> unat c = unat a + unat b"
  by (auto simp: checked_add_def unat_word_ariths split: if_splits)

lemma checked_sub_SomeD:
  "checked_sub a b = Some c \<Longrightarrow> unat c = unat a - unat b \<and> unat b \<le> unat a"
  by (auto simp: checked_sub_def unat_sub word_le_nat_alt split: if_splits)

lemma checked_mul_SomeD:
  "checked_mul a b = Some c \<Longrightarrow> unat c = unat a * unat b"
  by (auto simp: checked_mul_def unat_word_ariths split: if_splits)

text \<open>\<^verbatim>\<open>u32::try_from(len).expect(..)\<close> on a length: the narrowed value, or a panic.\<close>

definition fits_u32 :: "nat \<Rightarrow> bool" where
  "fits_u32 n \<longleftrightarrow> n < 2 ^ 32"

definition usize_max :: nat where
  "usize_max = 2 ^ 64 - 1"

text \<open>\<^verbatim>\<open>usize::checked_add\<close> on a 64-bit target.\<close>

definition usize_checked_add :: "nat \<Rightarrow> nat \<Rightarrow> nat option" where
  "usize_checked_add a b = (if a + b \<le> usize_max then Some (a + b) else None)"

definition usize_checked_mul :: "nat \<Rightarrow> nat \<Rightarrow> nat option" where
  "usize_checked_mul a b = (if a * b \<le> usize_max then Some (a * b) else None)"

lemma unat_of_nat_u32: "fits_u32 n \<Longrightarrow> unat (of_nat n :: u32) = n"
  by (simp add: fits_u32_def unat_of_nat)

lemma fits_u32_unat [simp]: "fits_u32 (unat (w :: u32))"
  using unsigned_less [of w, where ?'a = nat] by (simp add: fits_u32_def)

section \<open>Little-endian bytes\<close>

fun le_bytes :: "nat \<Rightarrow> nat \<Rightarrow> bytes" where
  "le_bytes 0 v = []"
| "le_bytes (Suc n) v = of_nat (v mod 256) # le_bytes n (v div 256)"

fun le_value :: "bytes \<Rightarrow> nat" where
  "le_value [] = 0"
| "le_value (b # bs) = unat b + 256 * le_value bs"

lemma unat_u8_less: "unat (b :: u8) < 256"
  using unsigned_less [of b, where ?'a = nat] by simp

lemma length_le_bytes [simp]: "length (le_bytes n v) = n"
  by (induction n arbitrary: v) auto

lemma le_value_bytes: "v < 256 ^ n \<Longrightarrow> le_value (le_bytes n v) = v"
proof (induction n arbitrary: v)
  case 0
  then show ?case by simp
next
  case (Suc n)
  then have "v div 256 < 256 ^ n" by (simp add: less_mult_imp_div_less mult.commute)
  with Suc.IH show ?case by (simp add: unat_of_nat)
qed

lemma le_bytes_value: "le_bytes (length bs) (le_value bs) = bs"
  by (induction bs) (auto simp: unat_u8_less)

lemma le_value_bound: "le_value bs < 256 ^ length bs"
proof (induction bs)
  case Nil
  then show ?case by simp
next
  case (Cons b bs)
  have "unat b < 256" by (rule unat_u8_less)
  with Cons.IH show ?case by simp
qed

section \<open>Third-party code\<close>

text \<open>
  The program links \<^verbatim>\<open>crc_fast\<close> (CRC-32C) and \<^verbatim>\<open>lz4_flex\<close> (block compression), and asks the
  operating system for its page size.  None of these is under \<^verbatim>\<open>src/\<close>; they are the parameter
  \<open>env\<close> of every definition that reaches them.
\<close>

record env =
  env_crc32c :: "bytes \<Rightarrow> u32"
  env_compress :: "bytes \<Rightarrow> bytes"
  env_decompress :: "bytes \<Rightarrow> nat \<Rightarrow> bytes option"
  env_max_output :: "nat \<Rightarrow> nat"
  env_page_size :: nat

text \<open>What \<^verbatim>\<open>validate_page_size\<close> in \<^verbatim>\<open>crates/platform\<close> asserts of the system's page size.\<close>

definition validate_page_size :: "nat \<Rightarrow> bool" where
  "validate_page_size n \<longleftrightarrow> (\<exists>k < 32. n = 2 ^ k) \<and> 4096 \<le> n \<and> fits_u32 n"

lemma validate_page_size_pos: "validate_page_size n \<Longrightarrow> 0 < n"
  by (simp add: validate_page_size_def)

text \<open>
  The documented contract of the compressor: decompressing a compressed block with its own
  length as the size hint gives the block back, and the compressed form is never longer than
  \<^verbatim>\<open>get_maximum_output_size\<close> promises.
\<close>

definition lz4_roundtrips :: "env \<Rightarrow> bool" where
  "lz4_roundtrips E \<longleftrightarrow> (\<forall>bs. env_decompress E (env_compress E bs) (length bs) = Some bs)"

definition lz4_bounded :: "env \<Rightarrow> bool" where
  "lz4_bounded E \<longleftrightarrow> (\<forall>bs. length (env_compress E bs) \<le> env_max_output E (length bs))"

text \<open>
  A concrete environment for closed examples: the bytewise exclusive-or checksum, the identity
  compressor and 4 KiB pages.
\<close>

definition demo_env :: env where
  "demo_env = \<lparr> env_crc32c = (\<lambda>bs. foldr (\<lambda>b s. ucast b XOR s) bs 0),
     env_compress = (\<lambda>bs. bs), env_decompress = (\<lambda>bs n. if length bs \<le> n then Some bs else None),
     env_max_output = (\<lambda>n. n), env_page_size = 4096 \<rparr>"

lemma demo_env_lz4: "lz4_roundtrips demo_env" "lz4_bounded demo_env"
  by (simp_all add: demo_env_def lz4_roundtrips_def lz4_bounded_def)

lemma demo_env_page_size: "validate_page_size (env_page_size demo_env)"
  by (auto simp: demo_env_def validate_page_size_def fits_u32_def intro!: exI [of _ 12])

section \<open>Lists\<close>

lemma append_eq_same_length:
  "length xs = length us \<Longrightarrow> xs @ ys = us @ vs \<longleftrightarrow> xs = us \<and> ys = vs"
  by auto

lemma take_drop_append_eq:
  "length bs \<ge> n \<Longrightarrow> bs = xs @ r \<longleftrightarrow> take n bs @ drop n bs = xs @ r"
  by simp

lemma foldr_append_concat: "concat (map f xs) @ r = foldr (\<lambda>x a. f x @ a) xs r"
  by (induction xs) auto

lemma sorted_wrt_appendI:
  "sorted_wrt P xs \<Longrightarrow> sorted_wrt P ys \<Longrightarrow> (\<And>x y. x \<in> set xs \<Longrightarrow> y \<in> set ys \<Longrightarrow> P x y) \<Longrightarrow>
   sorted_wrt P (xs @ ys)"
  by (simp add: sorted_wrt_append)

end
