(* ===== verification/Ord_Map.thy ===== *)
theory Ord_Map
  imports Prelude
begin

text \<open>
  Rust's \<^verbatim>\<open>BTreeMap\<close> and \<^verbatim>\<open>BTreeSet\<close>.  A map is the list of its key/value pairs in ascending
  key order, which is what iteration yields; a set is the ascending list of its elements.  The
  key type's \<^verbatim>\<open>Ord\<close> implementation is an explicit strict comparison, because one key type of
  the program (\<^verbatim>\<open>BlockKey\<close>) orders itself by a runtime parameter.  The contract that such a
  comparison owes the container is the locale \<open>key_order\<close>; the container's lemmas are proved
  once inside it.
\<close>

type_synonym ('k, 'v) btree_map = "('k \<times> 'v) list"
type_synonym 'k btree_set = "'k list"

fun bm_insert :: "('k \<Rightarrow> 'k \<Rightarrow> bool) \<Rightarrow> 'k \<Rightarrow> 'v \<Rightarrow> ('k, 'v) btree_map \<Rightarrow> ('k, 'v) btree_map" where
  "bm_insert lt k v [] = [(k, v)]"
| "bm_insert lt k v ((k', v') # m) =
     (if lt k k' then (k, v) # (k', v') # m
      else if lt k' k then (k', v') # bm_insert lt k v m
      else (k, v) # m)"

definition bm_remove :: "'k \<Rightarrow> ('k, 'v) btree_map \<Rightarrow> ('k, 'v) btree_map" where
  "bm_remove k m = filter (\<lambda>e. fst e \<noteq> k) m"

definition bm_keys :: "('k, 'v) btree_map \<Rightarrow> 'k list" where
  "bm_keys m = map fst m"

definition bm_values :: "('k, 'v) btree_map \<Rightarrow> 'v list" where
  "bm_values m = map snd m"

definition bm_ordered :: "('k \<Rightarrow> 'k \<Rightarrow> bool) \<Rightarrow> ('k, 'v) btree_map \<Rightarrow> bool" where
  "bm_ordered lt m \<longleftrightarrow> sorted_wrt lt (map fst m)"

fun bs_insert :: "('k \<Rightarrow> 'k \<Rightarrow> bool) \<Rightarrow> 'k \<Rightarrow> 'k btree_set \<Rightarrow> 'k btree_set" where
  "bs_insert lt k [] = [k]"
| "bs_insert lt k (k' # s) =
     (if lt k k' then k # k' # s else if lt k' k then k' # bs_insert lt k s else k # s)"

definition bs_remove :: "'k \<Rightarrow> 'k btree_set \<Rightarrow> 'k btree_set" where
  "bs_remove k s = filter (\<lambda>x. x \<noteq> k) s"

text \<open>\<^verbatim>\<open>iter().collect::<BTreeMap<_, _>>()\<close>: later pairs replace earlier ones.\<close>

definition bm_collect :: "('k \<Rightarrow> 'k \<Rightarrow> bool) \<Rightarrow> ('k \<times> 'v) list \<Rightarrow> ('k, 'v) btree_map" where
  "bm_collect lt kvs = foldl (\<lambda>m (k, v). bm_insert lt k v m) [] kvs"

text \<open>
  \<^verbatim>\<open>slice::binary_search_by_key\<close> between positions \<open>lo\<close> and \<open>hi\<close>, returning the found index.
\<close>

function binary_search :: "('k \<Rightarrow> 'k \<Rightarrow> bool) \<Rightarrow> ('a \<Rightarrow> 'k) \<Rightarrow> 'k \<Rightarrow> 'a list \<Rightarrow> nat \<Rightarrow> nat \<Rightarrow> nat option" where
  "binary_search lt key k xs lo hi =
     (if hi \<le> lo then None
      else let mid = (lo + hi) div 2 in
        if lt (key (xs ! mid)) k then binary_search lt key k xs (mid + 1) hi
        else if lt k (key (xs ! mid)) then binary_search lt key k xs lo mid
        else Some mid)"
  by pat_completeness auto
termination
  by (relation "measure (\<lambda>(_, _, _, _, lo, hi). hi - lo)") auto

declare binary_search.simps [simp del]

section \<open>The ordering contract and what the containers give in return\<close>

locale key_order =
  fixes lt :: "'k \<Rightarrow> 'k \<Rightarrow> bool"
  assumes irrefl: "\<not> lt k k"
    and trans: "lt a b \<Longrightarrow> lt b c \<Longrightarrow> lt a c"
    and total: "a = b \<or> lt a b \<or> lt b a"
begin

lemma asym: "lt a b \<Longrightarrow> \<not> lt b a"
  using irrefl trans by blast

lemma map_of_insert: "map_of (bm_insert lt k v m) = (map_of m)(k \<mapsto> v)"
proof (induction m)
  case Nil
  then show ?case by simp
next
  case (Cons e m)
  obtain k' v' where e: "e = (k', v')" by force
  show ?case
    using Cons.IH total [of k k'] irrefl asym by (auto simp: e fun_eq_iff)
qed

lemma keys_insert: "fst ` set (bm_insert lt k v m) = insert k (fst ` set m)"
proof (induction m)
  case Nil
  then show ?case by simp
next
  case (Cons e m)
  obtain k' v' where e: "e = (k', v')" by force
  show ?case using Cons.IH total [of k k'] by (auto simp: e)
qed

lemma ordered_insert: "bm_ordered lt m \<Longrightarrow> bm_ordered lt (bm_insert lt k v m)"
proof (induction m)
  case Nil
  then show ?case by (simp add: bm_ordered_def)
next
  case (Cons e m)
  obtain k' v' where e: "e = (k', v')" by force
  have keys: "set (map fst (bm_insert lt k v m)) = insert k (set (map fst m))"
    using keys_insert [of k v m] by simp
  from Cons show ?case
    using total [of k k'] irrefl trans [of k k'] keys by (auto simp: e bm_ordered_def)
qed

lemma ordered_Nil: "bm_ordered lt []"
  by (simp add: bm_ordered_def)

lemma ordered_remove: "bm_ordered lt m \<Longrightarrow> bm_ordered lt (bm_remove k m)"
  unfolding bm_ordered_def bm_remove_def by (induction m) auto

lemma distinct_keys: "bm_ordered lt m \<Longrightarrow> distinct (map fst m)"
  unfolding bm_ordered_def by (induction m) (auto simp: irrefl)

lemma map_of_remove: "map_of (bm_remove k m) = (map_of m)(k := None)"
  unfolding bm_remove_def by (induction m) (auto simp: fun_eq_iff)

lemma get_iff_mem: "bm_ordered lt m \<Longrightarrow> map_of m k = Some v \<longleftrightarrow> (k, v) \<in> set m"
  by (simp add: distinct_keys map_of_eq_Some_iff)

lemma insert_fresh_set: "map_of m k = None \<Longrightarrow> set (bm_insert lt k v m) = insert (k, v) (set m)"
proof (induction m)
  case Nil
  then show ?case by simp
next
  case (Cons e m)
  obtain k' v' where e: "e = (k', v')" by force
  show ?case using Cons total [of k k'] by (auto simp: e split: if_splits)
qed

lemma insert_fresh_length: "map_of m k = None \<Longrightarrow> length (bm_insert lt k v m) = Suc (length m)"
proof (induction m)
  case Nil
  then show ?case by simp
next
  case (Cons e m)
  obtain k' v' where e: "e = (k', v')" by force
  show ?case using Cons total [of k k'] by (auto simp: e split: if_splits)
qed

lemma ordered_same_head:
  assumes "bm_ordered lt ((k, v) # m)" "bm_ordered lt ((k', v') # m')"
    and "map_of ((k, v) # m) = map_of ((k', v') # m')"
  shows "k = k'"
proof (rule ccontr)
  assume neq: "k \<noteq> k'"
  have "k \<in> insert k' (fst ` set m')" "k' \<in> insert k (fst ` set m)"
    using assms(3) dom_map_of_conv_image_fst [of "(k, v) # m"]
      dom_map_of_conv_image_fst [of "(k', v') # m'"] by auto
  with assms(1,2) neq have "lt k' k" "lt k k'" by (auto simp: bm_ordered_def)
  then show False using asym by blast
qed

text \<open>The representation is canonical: equal lookups make equal maps.\<close>

lemma ordered_ext:
  "bm_ordered lt m \<Longrightarrow> bm_ordered lt m' \<Longrightarrow> map_of m = map_of m' \<Longrightarrow> m = m'"
proof (induction m arbitrary: m')
  case Nil
  then show ?case by (metis empty_eq_map_of_iff map_of.simps(1))
next
  case (Cons e m)
  obtain k v where e: "e = (k, v)" by force
  from Cons.prems(3) obtain k' v' m'' where m': "m' = (k', v') # m''"
    by (metis e empty_eq_map_of_iff list.exhaust map_of.simps(1) list.simps(3) surj_pair)
  have k: "k = k'"
    using ordered_same_head [of k v m k' v' m''] Cons.prems unfolding e m' by blast
  have v: "v = v'" using Cons.prems(3) by (metis e k m' map_of_Cons_code(2) option.inject)
  have tails: "map_of m = map_of m''"
  proof
    fix x
    have "map_of m k = None" "map_of m'' k' = None"
      using distinct_keys Cons.prems(1,2) e m' by (force simp: map_of_eq_None_iff)+
    then show "map_of m x = map_of m'' x"
      using Cons.prems(3) k v by (cases "x = k") (auto simp: e m' dest: fun_cong [of _ _ x])
  qed
  have "bm_ordered lt m" "bm_ordered lt m''"
    using Cons.prems(1,2) by (auto simp: bm_ordered_def e m')
  from Cons.IH [OF this tails] show ?case by (simp add: e m' k v)
qed

lemma collect_snoc: "bm_collect lt (kvs @ [(k, v)]) = bm_insert lt k v (bm_collect lt kvs)"
  by (simp add: bm_collect_def)

lemma ordered_collect: "bm_ordered lt (bm_collect lt kvs)"
proof (induction kvs rule: rev_induct)
  case Nil
  then show ?case by (simp add: bm_collect_def ordered_Nil)
next
  case (snoc e kvs)
  obtain k v where "e = (k, v)" by force
  with snoc show ?case by (simp add: collect_snoc ordered_insert)
qed

lemma map_of_collect: "map_of (bm_collect lt kvs) = map_of (rev kvs)"
proof (induction kvs rule: rev_induct)
  case Nil
  then show ?case by (simp add: bm_collect_def)
next
  case (snoc e kvs)
  obtain k v where "e = (k, v)" by force
  with snoc show ?case by (simp add: collect_snoc map_of_insert)
qed

lemma collect_distinct_set:
  assumes "distinct (map fst kvs)"
  shows "set (bm_collect lt kvs) = set kvs"
proof -
  have "(k, v) \<in> set (bm_collect lt kvs) \<longleftrightarrow> (k, v) \<in> set kvs" for k v
    using assms
    by (simp add: get_iff_mem [OF ordered_collect, symmetric] map_of_collect map_of_eq_Some_iff
        rev_map [symmetric])
  then show ?thesis by auto
qed

lemma collect_distinct_length:
  assumes "distinct (map fst kvs)"
  shows "length (bm_collect lt kvs) = length kvs"
proof -
  have "distinct (bm_collect lt kvs)"
    using distinct_keys [OF ordered_collect [of kvs]] by (simp add: distinct_map)
  then have "length (bm_collect lt kvs) = card (set kvs)"
    by (metis assms collect_distinct_set distinct_card)
  also have "\<dots> = length kvs" using assms by (simp add: distinct_map distinct_card)
  finally show ?thesis .
qed

lemma set_bs_insert: "set (bs_insert lt k s) = insert k (set s)"
proof (induction s)
  case Nil
  then show ?case by simp
next
  case (Cons k' s)
  then show ?case using total [of k k'] by auto
qed

lemma sorted_bs_insert: "sorted_wrt lt s \<Longrightarrow> sorted_wrt lt (bs_insert lt k s)"
proof (induction s)
  case Nil
  then show ?case by simp
next
  case (Cons k' s)
  then show ?case
    using total [of k k'] trans [of k k'] by (auto simp: set_bs_insert)
qed

lemma sorted_bs_remove: "sorted_wrt lt s \<Longrightarrow> sorted_wrt lt (bs_remove k s)"
  unfolding bs_remove_def by (induction s) auto

lemma sorted_distinct: "sorted_wrt lt s \<Longrightarrow> distinct s"
  by (induction s) (auto simp: irrefl)

lemma sorted_ext: "sorted_wrt lt s \<Longrightarrow> sorted_wrt lt t \<Longrightarrow> set s = set t \<Longrightarrow> s = t"
proof (induction s arbitrary: t)
  case Nil
  then show ?case by simp
next
  case (Cons k s)
  then obtain k' t' where t: "t = k' # t'" by (cases t) auto
  have k: "k = k'"
    using Cons.prems asym unfolding t by (metis list.set_intros(1) set_ConsD sorted_wrt.simps(2))
  have "k \<notin> set s" "k' \<notin> set t'" using Cons.prems irrefl unfolding t by auto
  with Cons.prems(3) k have "set s = set t'" unfolding t by auto
  with Cons show ?case by (simp add: t k)
qed

lemma greatest_exists: "xs \<noteq> [] \<Longrightarrow> \<exists>m \<in> set xs. \<forall>x \<in> set xs. \<not> lt m x"
proof (induction xs)
  case (Cons x xs)
  show ?case
  proof (cases "xs = []")
    case True
    then show ?thesis using irrefl by simp
  next
    case False
    then obtain m where m: "m \<in> set xs" "\<forall>x \<in> set xs. \<not> lt m x" using Cons.IH by blast
    show ?thesis
    proof (cases "lt m x")
      case True
      have "\<not> lt x y" if "y \<in> set xs" for y using trans [OF True, of y] m(2) that by blast
      then show ?thesis using irrefl by auto
    next
      case False
      then show ?thesis using m by auto
    qed
  qed
qed simp

text \<open>Sortedness of the values of an ordered map is a statement about pairs of keys.\<close>

lemma sorted_values_iff:
  assumes "bm_ordered lt m"
  shows "sorted_wrt R (bm_values m) \<longleftrightarrow> (\<forall>(i, a) \<in> set m. \<forall>(j, b) \<in> set m. lt i j \<longrightarrow> R a b)"
  using assms
proof (induction m)
  case Nil
  then show ?case by (simp add: bm_values_def)
next
  case (Cons x m)
  obtain i a where x: "x = (i, a)" by (meson surj_pair)
  have lt: "lt i j" if "(j, b) \<in> set m" for j b using Cons.prems that by (force simp: bm_ordered_def x)
  then have not: "\<not> lt j i" if "(j, b) \<in> set m" for j b using that asym by blast
  have "sorted_wrt R (bm_values (x # m)) \<longleftrightarrow> (\<forall>(j, b) \<in> set m. R a b) \<and> sorted_wrt R (bm_values m)"
    by (force simp: bm_values_def x)
  also have "\<dots> \<longleftrightarrow> (\<forall>(j, b) \<in> set m. R a b) \<and> (\<forall>(i, a) \<in> set m. \<forall>(j, b) \<in> set m. lt i j \<longrightarrow> R a b)"
    using Cons by (simp add: bm_ordered_def)
  also have "\<dots> \<longleftrightarrow> (\<forall>(i, a) \<in> set (x # m). \<forall>(j, b) \<in> set (x # m). lt i j \<longrightarrow> R a b)"
    using lt not irrefl by (auto simp: x)
  finally show ?case .
qed

lemma binary_search_iff:
  assumes sorted: "sorted_wrt lt (map key xs)"
  shows "hi \<le> length xs \<Longrightarrow>
    binary_search lt key k xs lo hi = Some i \<longleftrightarrow> lo \<le> i \<and> i < hi \<and> key (xs ! i) = k"
proof (induction "hi - lo" arbitrary: lo hi rule: less_induct)
  case less
  have mono: "lt (key (xs ! a)) (key (xs ! b))" if "a < b" "b < length xs" for a b
    using sorted that by (simp add: sorted_wrt_iff_nth_less)
  define mid where "mid = (lo + hi) div 2"
  have step: "binary_search lt key k xs lo hi =
    (if hi \<le> lo then None
     else if lt (key (xs ! mid)) k then binary_search lt key k xs (mid + 1) hi
     else if lt k (key (xs ! mid)) then binary_search lt key k xs lo mid else Some mid)"
    by (simp only: binary_search.simps [of lt key k xs lo hi] Let_def mid_def)
  show ?case
  proof (cases "hi \<le> lo")
    case True
    then show ?thesis by (simp add: step)
  next
    case False
    then have mid: "lo \<le> mid" "mid < hi" "mid < length xs" using less.prems by (simp_all add: mid_def)
    have right: "binary_search lt key k xs (mid + 1) hi = Some i \<longleftrightarrow> mid + 1 \<le> i \<and> i < hi \<and> key (xs ! i) = k"
      using mid less.prems by (intro less.hyps) simp_all
    have left: "binary_search lt key k xs lo mid = Some i \<longleftrightarrow> lo \<le> i \<and> i < mid \<and> key (xs ! i) = k"
      using mid less.prems by (intro less.hyps) simp_all
    consider "i < mid" | "i = mid" | "mid < i" by linarith
    then show ?thesis
    proof cases
      case 1
      with mid mono [of i mid] irrefl asym left right False show ?thesis by (auto simp: step)
    next
      case 2
      with mid total [of "key (xs ! mid)" k] irrefl left right False show ?thesis by (auto simp: step)
    next
      case 3
      with mid mono [of mid i] irrefl asym left right False less.prems show ?thesis by (auto simp: step)
    qed
  qed
qed

end

lemma bs_remove_set [simp]: "set (bs_remove k s) = set s - {k}"
  by (auto simp: bs_remove_def)

text \<open>Every linearly ordered type of the model meets the contract with its own \<open><\<close>.\<close>

text \<open>Every injective measure into a linear order gives a key order.\<close>

lemma key_order_of_rank:
  fixes f :: "'k \<Rightarrow> 'o::linorder"
  assumes "\<And>a b. f a = f b \<Longrightarrow> a = b"
  shows "key_order (\<lambda>a b. f a < f b)"
proof unfold_locales
  show "a = b \<or> f a < f b \<or> f b < f a" for a b using assms [of a b] less_linear [of "f a" "f b"] by blast
qed (auto intro: less_trans)

interpretation linear: key_order "(<) :: 'k::linorder \<Rightarrow> 'k \<Rightarrow> bool"
  by unfold_locales auto

end
