(* ===== verification/Format.thy ===== *)
theory Format
  imports Ord_Map
begin

unbundle bit_operations_syntax

text \<open>
  The wire and storage primitives of \<^verbatim>\<open>crates/core/src/format.rs\<close>: the little-endian encoder
  \<^verbatim>\<open>Enc\<close>, the strict decoder \<^verbatim>\<open>Dec\<close>, the checksummed frame, and the identity checksum.

  An \<^verbatim>\<open>Enc\<close> only appends, so writing a sequence of fields is the concatenation of their
  encodings.  A \<^verbatim>\<open>Dec\<close> is its unread input, threaded explicitly: every method returns the value
  read and the rest.

  The locale \<open>codec\<close> states what an encoder and a decoder of one wire type owe each other; all
  composite formats of the later theories are instances of it.
\<close>

section \<open>Encoder and decoder\<close>

definition enc_u8 :: "u8 \<Rightarrow> bytes" where
  "enc_u8 v = [v]"

definition enc_u16 :: "u16 \<Rightarrow> bytes" where
  "enc_u16 v = le_bytes 2 (unat v)"

definition enc_u32 :: "u32 \<Rightarrow> bytes" where
  "enc_u32 v = le_bytes 4 (unat v)"

definition enc_u64 :: "u64 \<Rightarrow> bytes" where
  "enc_u64 v = le_bytes 8 (unat v)"

definition dec_take :: "nat \<Rightarrow> bytes \<Rightarrow> (bytes \<times> bytes) option" where
  "dec_take n rest = (if length rest < n then None else Some (take n rest, drop n rest))"

definition dec_u8 :: "bytes \<Rightarrow> (u8 \<times> bytes) option" where
  "dec_u8 d = do { (h, d) \<leftarrow> dec_take 1 d; Some (h ! 0, d) }"

definition dec_u16 :: "bytes \<Rightarrow> (u16 \<times> bytes) option" where
  "dec_u16 d = do { (h, d) \<leftarrow> dec_take 2 d; Some (of_nat (le_value h), d) }"

definition dec_u32 :: "bytes \<Rightarrow> (u32 \<times> bytes) option" where
  "dec_u32 d = do { (h, d) \<leftarrow> dec_take 4 d; Some (of_nat (le_value h), d) }"

definition dec_u64 :: "bytes \<Rightarrow> (u64 \<times> bytes) option" where
  "dec_u64 d = do { (h, d) \<leftarrow> dec_take 8 d; Some (of_nat (le_value h), d) }"

definition dec_bytes :: "nat \<Rightarrow> bytes \<Rightarrow> (bytes \<times> bytes) option" where
  "dec_bytes n d = dec_take n d"

definition dec_finish :: "bytes \<Rightarrow> unit option" where
  "dec_finish d = guard_opt (d = [])"

text \<open>The ubiquitous loop \<^verbatim>\<open>for _ in 0..count { v.push(T::decode(d)?) }\<close>.\<close>

fun dec_many :: "(bytes \<Rightarrow> ('a \<times> bytes) option) \<Rightarrow> nat \<Rightarrow> bytes \<Rightarrow> ('a list \<times> bytes) option" where
  "dec_many dec 0 d = Some ([], d)"
| "dec_many dec (Suc n) d =
     do { (v, d) \<leftarrow> dec d; (vs, d) \<leftarrow> dec_many dec n d; Some (v # vs, d) }"

definition enc_many :: "('a \<Rightarrow> bytes) \<Rightarrow> 'a list \<Rightarrow> bytes" where
  "enc_many enc vs = concat (map enc vs)"

section \<open>Checksums and frames\<close>

text \<open>\<^verbatim>\<open>crc32c\<close> forwards to the checksum crate.\<close>

definition crc32c :: "env \<Rightarrow> bytes \<Rightarrow> u32" where
  "crc32c E bs = env_crc32c E bs"

definition checksum64 :: "env \<Rightarrow> bytes \<Rightarrow> u64" where
  "checksum64 E bs = push_bit 32 (ucast (crc32c E (rev bs))) OR ucast (crc32c E bs)"

definition FRAME_HEADER :: nat where
  "FRAME_HEADER = 12"

definition seal_frame :: "env \<Rightarrow> u32 \<Rightarrow> bytes \<Rightarrow> bytes option" where
  "seal_frame E magic payload =
     (if fits_u32 (length payload) then
        Some (enc_u32 magic @ enc_u32 (of_nat (length payload)) @ enc_u32 (crc32c E payload) @ payload)
      else None)"

definition open_frame :: "env \<Rightarrow> u32 \<Rightarrow> bytes \<Rightarrow> bytes option" where
  "open_frame E magic bs =
     do { (m, d) \<leftarrow> dec_u32 bs;
          guard_opt (m = magic);
          (len, d) \<leftarrow> dec_u32 d;
          (crc, d) \<leftarrow> dec_u32 d;
          (payload, d) \<leftarrow> dec_bytes (unat len) d;
          dec_finish d;
          guard_opt (crc32c E payload = crc);
          Some payload }"

section \<open>The codec contract\<close>

locale codec =
  fixes enc :: "'a \<Rightarrow> bytes"
    and dec :: "bytes \<Rightarrow> ('a \<times> bytes) option"
    and ok :: "'a \<Rightarrow> bool"
  assumes dec_iff: "dec d = Some (v, r) \<longleftrightarrow> ok v \<and> d = enc v @ r"
begin

lemma dec_enc: "ok v \<Longrightarrow> dec (enc v @ r) = Some (v, r)"
  by (simp add: dec_iff)

lemma prefix_free:
  assumes "ok v" "ok w" "enc v @ r = enc w @ s"
  shows "v = w \<and> r = s"
proof -
  have "Some (v, r) = dec (enc w @ s)" using dec_enc [OF assms(1), of r] by (simp only: assms(3))
  then show ?thesis by (simp only: dec_enc [OF assms(2)] option.inject prod.inject)
qed

lemma many_iff:
  "dec_many dec n d = Some (vs, r) \<longleftrightarrow> length vs = n \<and> list_all ok vs \<and> d = enc_many enc vs @ r"
proof (induction n arbitrary: d vs)
  case 0
  then show ?case by (auto simp: enc_many_def)
next
  case (Suc n)
  have "dec_many dec (Suc n) d = Some (vs, r) \<longleftrightarrow>
    (\<exists>v ws d'. dec d = Some (v, d') \<and> dec_many dec n d' = Some (ws, r) \<and> vs = v # ws)"
    by (auto simp: bind_eq_Some_conv)
  also have "\<dots> \<longleftrightarrow> length vs = Suc n \<and> list_all ok vs \<and> d = enc_many enc vs @ r"
    by (cases vs) (auto simp: Suc dec_iff enc_many_def)
  finally show ?case .
qed

lemma many_enc:
  "list_all ok vs \<Longrightarrow> n = length vs \<Longrightarrow> dec_many dec n (enc_many enc vs @ r) = Some (vs, r)"
  by (simp add: many_iff)

lemma many_prefix_free:
  assumes "list_all ok vs" "list_all ok ws" "length vs = length ws"
    and "enc_many enc vs @ r = enc_many enc ws @ s"
  shows "vs = ws \<and> r = s"
proof -
  have "Some (vs, r) = dec_many dec (length ws) (enc_many enc ws @ s)"
    using many_enc [OF assms(1) assms(3) [symmetric], of r] by (simp only: assms(4))
  then show ?thesis by (simp only: many_enc [OF assms(2) refl] option.inject prod.inject)
qed

end

section \<open>The primitive codecs\<close>

lemma dec_take_iff [codec_simps]:
  "dec_take n d = Some (h, r) \<longleftrightarrow> length h = n \<and> d = h @ r"
  by (auto simp: dec_take_def)

lemma dec_bytes_iff [codec_simps]:
  "dec_bytes n d = Some (h, r) \<longleftrightarrow> length h = n \<and> d = h @ r"
  by (simp add: dec_bytes_def dec_take_iff)

lemma dec_finish_iff [codec_simps]: "dec_finish d = Some u \<longleftrightarrow> d = []"
  by (simp add: dec_finish_def)

lemma dec_finish_Nil [simp]: "dec_finish [] = Some ()"
  by (simp add: dec_finish_def)

lemma dec_bytes_append [simp]: "length h = n \<Longrightarrow> dec_bytes n (h @ r) = Some (h, r)"
  by (simp add: dec_bytes_iff)

lemma dec_bytes_all [simp]: "n = length h \<Longrightarrow> dec_bytes n h = Some (h, [])"
  by (simp add: dec_bytes_iff)

lemma le_word_iff:
  assumes len: "LENGTH('a::len) = 8 * n" and h: "length h = n"
  shows "(of_nat (le_value h) :: 'a word) = v \<longleftrightarrow> h = le_bytes n (unat v)"
proof
  have bound: "le_value h < 2 ^ LENGTH('a)"
    using le_value_bound [of h] by (simp add: len h power_mult)
  assume "(of_nat (le_value h) :: 'a word) = v"
  then have "unat v = le_value h" using bound by (auto simp: unat_of_nat)
  then show "h = le_bytes n (unat v)" using h le_bytes_value [of h] by simp
next
  assume "h = le_bytes n (unat v)"
  moreover have "unat v < 256 ^ n"
    using unsigned_less [of v, where ?'a = nat] by (simp add: len power_mult)
  ultimately show "(of_nat (le_value h) :: 'a word) = v" by (simp add: le_value_bytes)
qed

lemma dec_u8_iff [codec_simps]: "dec_u8 d = Some (v, r) \<longleftrightarrow> d = enc_u8 v @ r"
proof -
  have "dec_u8 d = Some (v, r) \<longleftrightarrow> (\<exists>h. length h = 1 \<and> d = h @ r \<and> h ! 0 = v)"
    by (auto simp: dec_u8_def bind_eq_Some_conv dec_take_iff)
  also have "\<dots> \<longleftrightarrow> d = enc_u8 v @ r"
    by (auto simp: enc_u8_def length_Suc_conv)
  finally show ?thesis .
qed

lemma dec_word_iff:
  assumes "LENGTH('a::len) = 8 * n"
  shows "do { (h, d) \<leftarrow> dec_take n d; Some (of_nat (le_value h) :: 'a word, d) } = Some (v, r) \<longleftrightarrow>
    d = le_bytes n (unat v) @ r"
proof -
  have "do { (h, d) \<leftarrow> dec_take n d; Some (of_nat (le_value h) :: 'a word, d) } = Some (v, r) \<longleftrightarrow>
    (\<exists>h. length h = n \<and> d = h @ r \<and> (of_nat (le_value h) :: 'a word) = v)"
    by (auto simp: bind_eq_Some_conv dec_take_iff)
  also have "\<dots> \<longleftrightarrow> d = le_bytes n (unat v) @ r"
    using le_word_iff [OF assms, of _ v] by auto
  finally show ?thesis .
qed

lemma dec_u16_iff [codec_simps]: "dec_u16 d = Some (v, r) \<longleftrightarrow> d = enc_u16 v @ r"
  unfolding dec_u16_def enc_u16_def by (rule dec_word_iff) simp

lemma dec_u32_iff [codec_simps]: "dec_u32 d = Some (v, r) \<longleftrightarrow> d = enc_u32 v @ r"
  unfolding dec_u32_def enc_u32_def by (rule dec_word_iff) simp

lemma dec_u64_iff [codec_simps]: "dec_u64 d = Some (v, r) \<longleftrightarrow> d = enc_u64 v @ r"
  unfolding dec_u64_def enc_u64_def by (rule dec_word_iff) simp

interpretation u8c: codec enc_u8 dec_u8 "\<lambda>_. True"
  by unfold_locales (simp add: dec_u8_iff)

interpretation u16c: codec enc_u16 dec_u16 "\<lambda>_. True"
  by unfold_locales (simp add: dec_u16_iff)

interpretation u32c: codec enc_u32 dec_u32 "\<lambda>_. True"
  by unfold_locales (simp add: dec_u32_iff)

interpretation u64c: codec enc_u64 dec_u64 "\<lambda>_. True"
  by unfold_locales (simp add: dec_u64_iff)

interpretation rawc: codec "\<lambda>h. h" "dec_bytes n" "\<lambda>h. length h = n" for n
  by unfold_locales (simp add: dec_bytes_iff)

lemma dec_enc_prims [simp]:
  "dec_u8 (enc_u8 a @ r) = Some (a, r)" "dec_u16 (enc_u16 b @ r) = Some (b, r)"
  "dec_u32 (enc_u32 c @ r) = Some (c, r)" "dec_u64 (enc_u64 e @ r) = Some (e, r)"
  by (simp_all add: codec_simps)

lemma dec_enc_prims_end [simp]:
  "dec_u8 (enc_u8 a) = Some (a, [])" "dec_u16 (enc_u16 b) = Some (b, [])"
  "dec_u32 (enc_u32 c) = Some (c, [])" "dec_u64 (enc_u64 e) = Some (e, [])"
  by (simp_all add: codec_simps)

lemma enc_prims_length [simp]:
  "length (enc_u8 a) = 1" "length (enc_u16 b) = 2" "length (enc_u32 c) = 4" "length (enc_u64 e) = 8"
  by (simp_all add: enc_u8_def enc_u16_def enc_u32_def enc_u64_def)

lemma enc_prims_inj [simp]:
  "enc_u8 a @ r = enc_u8 a' @ r' \<longleftrightarrow> a = a' \<and> r = r'"
  "enc_u16 b @ r = enc_u16 b' @ r' \<longleftrightarrow> b = b' \<and> r = r'"
  "enc_u32 c @ r = enc_u32 c' @ r' \<longleftrightarrow> c = c' \<and> r = r'"
  "enc_u64 e @ r = enc_u64 e' @ r' \<longleftrightarrow> e = e' \<and> r = r'"
  by (rule iffI, erule u8c.prefix_free [OF TrueI TrueI], simp)
    (rule iffI, erule u16c.prefix_free [OF TrueI TrueI], simp,
     rule iffI, erule u32c.prefix_free [OF TrueI TrueI], simp,
     rule iffI, erule u64c.prefix_free [OF TrueI TrueI], simp)

lemma enc_prims_inj_end [simp]:
  "enc_u8 a = enc_u8 a' \<longleftrightarrow> a = a'" "enc_u16 b = enc_u16 b' \<longleftrightarrow> b = b'"
  "enc_u32 c = enc_u32 c' \<longleftrightarrow> c = c'" "enc_u64 e = enc_u64 e' \<longleftrightarrow> e = e'"
  using enc_prims_inj [where r = "[]" and r' = "[]"] by simp_all

section \<open>Frames\<close>

lemma frame_open_seal:
  "open_frame E magic bs = Some payload \<longleftrightarrow> seal_frame E magic payload = Some bs"
proof -
  have "open_frame E magic bs = Some payload \<longleftrightarrow>
    (\<exists>len. length payload = unat len \<and>
      bs = enc_u32 magic @ enc_u32 len @ enc_u32 (crc32c E payload) @ payload)"
    by (auto simp: open_frame_def bind_eq_Some_conv codec_simps)
  also have "\<dots> \<longleftrightarrow> seal_frame E magic payload = Some bs"
    by (auto simp: seal_frame_def unat_of_nat_u32 intro!: exI [of _ "of_nat (length payload)"])
  finally show ?thesis .
qed

text \<open>
  C38: Opening a frame and sealing one are inverse relations: a byte string opens to a payload
  under a magic exactly when sealing that payload under that magic produces that byte string.
  Every accepted frame is therefore the one and only encoding of its payload (R8.1: any mismatch
  of magic, length or checksum and any trailing byte is refused; R10.2: two encoders of the same
  state produce identical bytes).
\<close>

theorem open_frame_iff_seal_frame:
  "open_frame E magic bs = Some payload \<longleftrightarrow> seal_frame E magic payload = Some bs"
  by (rule frame_open_seal)

lemma frame_shape:
  "seal_frame E magic payload = Some bs \<longleftrightarrow> fits_u32 (length payload) \<and>
   bs = enc_u32 magic @ enc_u32 (of_nat (length payload)) @ enc_u32 (crc32c E payload) @ payload"
  by (auto simp: seal_frame_def)

lemma seal_frame_length:
  "seal_frame E magic payload = Some bs \<Longrightarrow> length bs = FRAME_HEADER + length payload"
  by (auto simp: frame_shape FRAME_HEADER_def)

lemma open_seal_frame [simp]:
  "seal_frame E magic payload = Some bs \<Longrightarrow> open_frame E magic bs = Some payload"
  by (simp add: frame_open_seal)

text \<open>A frame's first bytes fix its length: no frame is a proper prefix of another.\<close>

lemma frame_prefix_free:
  assumes "seal_frame E magic p = Some bs" "seal_frame E magic q = Some (bs @ xs)"
  shows "xs = []"
proof -
  have "enc_u32 (of_nat (length p)) @ enc_u32 (crc32c E p) @ p @ xs =
      enc_u32 (of_nat (length q)) @ enc_u32 (crc32c E q) @ q"
    using assms by (auto simp: frame_shape)
  then have "(of_nat (length p) :: u32) = of_nat (length q)" "p @ xs = q" by simp_all
  moreover from this(1) have "length p = length q"
    using assms by (metis frame_shape unat_of_nat_u32)
  ultimately show ?thesis by (metis append_Nil2 append_eq_append_conv)
qed

text \<open>
  Torn and padded frames are refused: every proper prefix of a sealed frame and every
  extension of it by at least one byte fails to open under the same magic.
\<close>

theorem torn_or_padded_frame_rejected:
  assumes "seal_frame E magic payload = Some bs"
  shows "(\<forall>k < length bs. open_frame E magic (take k bs) = None) \<and>
    (\<forall>xs. xs \<noteq> [] \<longrightarrow> open_frame E magic (bs @ xs) = None)"
proof
  show "\<forall>k < length bs. open_frame E magic (take k bs) = None"
  proof (intro allI impI, rule ccontr)
    fix k
    assume k: "k < length bs" and "open_frame E magic (take k bs) \<noteq> None"
    then obtain q where "seal_frame E magic q = Some (take k bs)" by (auto simp: frame_open_seal)
    then have "drop k bs = []" using frame_prefix_free [of E magic q "take k bs" payload "drop k bs"] assms
      by simp
    with k show False by simp
  qed
  show "\<forall>xs. xs \<noteq> [] \<longrightarrow> open_frame E magic (bs @ xs) = None"
  proof (intro allI impI, rule ccontr)
    fix xs
    assume xs: "xs \<noteq> []" and "open_frame E magic (bs @ xs) \<noteq> None"
    then obtain q where "seal_frame E magic q = Some (bs @ xs)" by (auto simp: frame_open_seal)
    with frame_prefix_free [OF assms this] xs show False by simp
  qed
qed

theorem torn_or_padded_frame_rejected_witness:
  "open_frame demo_env 7 (take 3 (the (seal_frame demo_env 7 [1, 2]))) = None \<and>
   open_frame demo_env 7 (the (seal_frame demo_env 7 [1, 2]) @ [0]) = None"
proof -
  obtain bs where bs: "seal_frame demo_env 7 [1, 2] = Some bs"
    by (simp add: seal_frame_def fits_u32_def)
  then have "length bs = 14" by (auto dest: seal_frame_length simp: FRAME_HEADER_def)
  with torn_or_padded_frame_rejected [OF bs] show ?thesis by (simp add: bs)
qed

section \<open>Corruption\<close>

text \<open>Damage of one bit: bit \<open>i mod 8\<close> of byte \<open>i div 8\<close> is inverted.\<close>

definition flip_wire_bit :: "nat \<Rightarrow> bytes \<Rightarrow> bytes" where
  "flip_wire_bit i bs = bs[i div 8 := bs ! (i div 8) XOR push_bit (i mod 8) 1]"

text \<open>CRC-32C detects every single-bit error, whatever the length of the data.\<close>

definition crc_detects_bit_flips :: "env \<Rightarrow> bool" where
  "crc_detects_bit_flips E \<longleftrightarrow>
     (\<forall>p i. i < 8 * length p \<longrightarrow> crc32c E (flip_wire_bit i p) \<noteq> crc32c E p)"

lemma length_flip_bit [simp]: "length (flip_wire_bit i bs) = length bs"
  by (simp add: flip_wire_bit_def)

lemma xor_eq_left_iff: "(a :: 'a::len word) XOR b = a \<longleftrightarrow> b = 0"
  by (auto simp add: bit_eq_iff bit_simps)

lemma flip_wire_bit_neq:
  assumes "i < 8 * length bs"
  shows "flip_wire_bit i bs \<noteq> bs"
proof
  assume "flip_wire_bit i bs = bs"
  moreover have lt: "i div 8 < length bs" using assms by simp
  ultimately have "bs ! (i div 8) XOR push_bit (i mod 8) 1 = bs ! (i div 8)"
    by (metis flip_wire_bit_def nth_list_update_eq)
  then have "push_bit (i mod 8) 1 = (0 :: u8)" by (simp add: xor_eq_left_iff)
  moreover have "bit (push_bit (i mod 8) 1 :: u8) (i mod 8)"
    by (simp add: bit_exp_iff)
  ultimately show False by simp
qed

lemma flip_wire_bit_append_left:
  "i < 8 * length xs \<Longrightarrow> flip_wire_bit i (xs @ ys) = flip_wire_bit i xs @ ys"
  by (simp add: flip_wire_bit_def list_update_append nth_append less_mult_imp_div_less)

lemma flip_wire_bit_append_right:
  assumes "8 * length xs \<le> i"
  shows "flip_wire_bit i (xs @ ys) = xs @ flip_wire_bit (i - 8 * length xs) ys"
proof -
  have "i div 8 = length xs + (i - 8 * length xs) div 8"
    using assms by (metis add.commute div_mult_self4 le_add_diff_inverse2 zero_neq_numeral)
  moreover have "i mod 8 = (i - 8 * length xs) mod 8"
    using assms by (metis le_add_diff_inverse mod_mult_self4)
  ultimately show ?thesis by (simp add: flip_wire_bit_def list_update_append nth_append)
qed

text \<open>
  C37: With a checksum that detects single-bit errors, any single flipped bit of a sealed frame,
  in its magic, its length, its checksum or its payload, makes the frame unopenable.
\<close>

theorem single_bit_flip_breaks_frame:
  assumes crc: "crc_detects_bit_flips E"
    and seal: "seal_frame E magic p = Some bs"
    and i: "i < 8 * length bs"
  shows "open_frame E magic (flip_wire_bit i bs) = None"
proof (rule ccontr)
  assume "open_frame E magic (flip_wire_bit i bs) \<noteq> None"
  then obtain q where q: "seal_frame E magic q = Some (flip_wire_bit i bs)" by (auto simp: frame_open_seal)
  define hd8 where "hd8 = enc_u32 magic @ enc_u32 (of_nat (length p))"
  have len: "length q = length p"
    using seal_frame_length [OF q] seal_frame_length [OF seal] by simp
  have bs: "bs = hd8 @ enc_u32 (crc32c E p) @ p" using seal by (simp add: frame_shape hd8_def)
  have fl: "flip_wire_bit i bs = hd8 @ enc_u32 (crc32c E q) @ q"
    using q len by (simp add: frame_shape hd8_def)
  have l8: "length hd8 = 8" by (simp add: hd8_def)
  show False
  proof (cases "i < 64")
    case True
    then have "flip_wire_bit i bs = flip_wire_bit i hd8 @ enc_u32 (crc32c E p) @ p"
      by (simp add: bs flip_wire_bit_append_left l8)
    with fl have "flip_wire_bit i hd8 = hd8" by (simp add: append_eq_same_length l8)
    then show False using flip_wire_bit_neq [of i hd8] True by (simp add: l8)
  next
    case False
    then have *: "flip_wire_bit (i - 64) (enc_u32 (crc32c E p) @ p) = enc_u32 (crc32c E q) @ q"
      using fl by (simp add: bs flip_wire_bit_append_right l8)
    show False
    proof (cases "i < 96")
      case True
      with False have lt: "i - 64 < 8 * length (enc_u32 (crc32c E p))" by simp
      have "flip_wire_bit (i - 64) (enc_u32 (crc32c E p)) @ p = enc_u32 (crc32c E q) @ q"
        using * by (simp only: flip_wire_bit_append_left [OF lt])
      then have "flip_wire_bit (i - 64) (enc_u32 (crc32c E p)) = enc_u32 (crc32c E q) \<and> p = q"
        by (rule append_eq_same_length [THEN iffD1, rotated]) simp
      then show False using flip_wire_bit_neq [OF lt] by auto
    next
      case False
      then have "enc_u32 (crc32c E p) @ flip_wire_bit (i - 96) p = enc_u32 (crc32c E q) @ q"
        using * by (simp add: flip_wire_bit_append_right)
      then have "crc32c E p = crc32c E q" "flip_wire_bit (i - 96) p = q" by simp_all
      moreover have "i - 96 < 8 * length p" using i False by (simp add: bs l8)
      ultimately show False using crc by (metis crc_detects_bit_flips_def)
    qed
  qed
qed

lemma xor_checksum_flip:
  fixes p :: bytes and x :: u8
  shows "j < length p \<Longrightarrow> foldr (\<lambda>b s. ucast b XOR s) (p[j := p ! j XOR x]) (0 :: u32) =
    ucast x XOR foldr (\<lambda>b s. ucast b XOR s) p 0"
proof (induction p arbitrary: j)
  case Nil
  then show ?case by simp
next
  case (Cons b p)
  have split: "(ucast (y XOR x) :: u32) = ucast x XOR ucast y" for y :: u8
    by (simp add: unsigned_xor_eq xor.commute)
  show ?case
  proof (cases j)
    case 0
    then show ?thesis by (simp add: split xor.assoc)
  next
    case (Suc k)
    with Cons have "foldr (\<lambda>b s. ucast b XOR s) (p[k := p ! k XOR x]) (0 :: u32) =
      ucast x XOR foldr (\<lambda>b s. ucast b XOR s) p 0" by simp
    then show ?thesis by (simp add: Suc xor.left_commute)
  qed
qed

lemma demo_env_crc: "crc_detects_bit_flips demo_env"
  unfolding crc_detects_bit_flips_def
proof (intro allI impI)
  fix p :: bytes and i
  assume "i < 8 * length p"
  then have lt: "i div 8 < length p" by simp
  let ?x = "push_bit (i mod 8) 1 :: u8"
  have "i mod 8 = 0 \<or> i mod 8 = 1 \<or> i mod 8 = 2 \<or> i mod 8 = 3 \<or> i mod 8 = 4 \<or> i mod 8 = 5 \<or>
    i mod 8 = 6 \<or> i mod 8 = 7" by presburger
  then have x: "(ucast ?x :: u32) \<noteq> 0" by (elim disjE) simp_all
  have "crc32c demo_env (flip_wire_bit i p) = ucast ?x XOR crc32c demo_env p"
    using xor_checksum_flip [OF lt, of ?x] by (simp add: crc32c_def demo_env_def flip_wire_bit_def)
  then show "crc32c demo_env (flip_wire_bit i p) \<noteq> crc32c demo_env p"
    using x by (simp add: xor.commute [of "ucast _"] xor_eq_left_iff)
qed

theorem single_bit_flip_breaks_frame_witness:
  "open_frame demo_env 7 (flip_wire_bit 100 (the (seal_frame demo_env 7 [1, 2]))) = None"
proof -
  obtain bs where bs: "seal_frame demo_env 7 [1, 2] = Some bs"
    by (simp add: seal_frame_def fits_u32_def)
  then have "100 < 8 * length bs" by (auto dest!: seal_frame_length simp: FRAME_HEADER_def)
  from single_bit_flip_breaks_frame [OF demo_env_crc bs this] show ?thesis by (simp add: bs)
qed

end
