(* ===== verification/Layout.thy ===== *)
theory Layout
  imports Format
begin

text \<open>
  The names of \<^verbatim>\<open>crates/core/src/layout.rs\<close>: local blob names and object-store keys, and the two
  parsers that read them back (\<^verbatim>\<open>parse_key\<close> for the collector's mark phase, \<^verbatim>\<open>parse_blob\<close> for
  the recovery scan).  A Rust string is the list of its bytes.  Every archive key and blob name round
  trips through its parser, so distinct objects never share a name; the keys of the cluster, which have
  no parser, are distinct from them and from one another.
\<close>

section \<open>String operations of the standard library\<close>

definition strip_prefix :: "string \<Rightarrow> string \<Rightarrow> string option" where
  "strip_prefix p s = (if take (length p) s = p then Some (drop (length p) s) else None)"

definition strip_suffix :: "string \<Rightarrow> string \<Rightarrow> string option" where
  "strip_suffix p s =
     (if length p \<le> length s \<and> drop (length s - length p) s = p
      then Some (take (length s - length p) s) else None)"

fun split_once :: "char \<Rightarrow> string \<Rightarrow> (string \<times> string) option" where
  "split_once c [] = None"
| "split_once c (x # xs) =
     (if x = c then Some ([], xs) else do { (a, b) \<leftarrow> split_once c xs; Some (x # a, b) })"

fun split_on :: "char \<Rightarrow> string \<Rightarrow> string list" where
  "split_on c [] = [[]]"
| "split_on c (x # xs) =
     (if x = c then [] # split_on c xs
      else case split_on c xs of [] \<Rightarrow> [[x]] | p # ps \<Rightarrow> (x # p) # ps)"

text \<open>Lower-case hexadecimal, zero padded to \<open>n\<close> digits: \<^verbatim>\<open>{:016x}\<close> and \<^verbatim>\<open>{:08x}\<close>.\<close>

definition hex_char :: "nat \<Rightarrow> char" where
  "hex_char d = char_of (if d < 10 then 48 + d else 87 + d)"

fun hex_str :: "nat \<Rightarrow> nat \<Rightarrow> string" where
  "hex_str 0 v = []"
| "hex_str (Suc n) v = hex_str n (v div 16) @ [hex_char (v mod 16)]"

definition hex16 :: "u64 \<Rightarrow> string" where
  "hex16 v = hex_str 16 (unat v)"

definition hex8 :: "u32 \<Rightarrow> string" where
  "hex8 v = hex_str 8 (unat v)"

definition hex_val :: "char \<Rightarrow> nat option" where
  "hex_val c = (let n = of_char c :: nat in
     if 48 \<le> n \<and> n \<le> 57 then Some (n - 48)
     else if 97 \<le> n \<and> n \<le> 102 then Some (n - 87)
     else if 65 \<le> n \<and> n \<le> 70 then Some (n - 55)
     else None)"

fun radix_digits :: "nat \<Rightarrow> nat \<Rightarrow> string \<Rightarrow> nat option" where
  "radix_digits bits acc [] = Some acc"
| "radix_digits bits acc (c # cs) =
     do { v \<leftarrow> hex_val c; guard_opt (acc * 16 + v < 2 ^ bits); radix_digits bits (acc * 16 + v) cs }"

text \<open>
  \<^verbatim>\<open>from_str_radix(src, 16)\<close> on an unsigned type: an empty string and a lone sign are errors, one
  leading plus sign is skipped, both letter cases are digits, and overflow is an error.
\<close>

definition from_str_radix :: "nat \<Rightarrow> string \<Rightarrow> nat option" where
  "from_str_radix bits src =
     (case src of [] \<Rightarrow> None
      | c # cs \<Rightarrow> if c = CHR ''+'' then (if cs = [] then None else radix_digits bits 0 cs)
                  else radix_digits bits 0 src)"

definition parse_u64 :: "string \<Rightarrow> u64 option" where
  "parse_u64 s = map_option of_nat (from_str_radix 64 s)"

definition parse_u32 :: "string \<Rightarrow> u32 option" where
  "parse_u32 s = map_option of_nat (from_str_radix 32 s)"

section \<open>Names\<close>

definition placement_key :: string where
  "placement_key = ''cluster/placement''"

definition cluster_metadata_key :: string where
  "cluster_metadata_key = ''cluster/metadata''"

definition node_claim_prefix :: string where
  "node_claim_prefix = ''cluster/nodes/''"

definition node_claim_key :: "host_id \<Rightarrow> string" where
  "node_claim_key host = node_claim_prefix @ hex8 host @ ''.claim''"

definition peer_membership_prefix :: string where
  "peer_membership_prefix = ''cluster/tls/public-keys/''"

definition peer_membership_key :: "host_id \<Rightarrow> string" where
  "peer_membership_key host = peer_membership_prefix @ hex8 host @ ''.member''"

definition host_session_key :: "host_id \<Rightarrow> string" where
  "host_session_key host = ''hosts/'' @ hex8 host @ ''/session''"

definition journal_blob :: "volume_id \<Rightarrow> u64 \<Rightarrow> journal_seq \<Rightarrow> string" where
  "journal_blob volume fence seq = ''v/'' @ hex16 volume @ ''/j/'' @ hex16 fence @ ''-'' @ hex16 seq @ ''.rec''"

definition journal_mirror_blob :: "volume_id \<Rightarrow> u64 \<Rightarrow> journal_seq \<Rightarrow> string" where
  "journal_mirror_blob volume fence seq =
     ''v/'' @ hex16 volume @ ''/j/'' @ hex16 fence @ ''-'' @ hex16 seq @ ''.recm''"

definition blx_key :: "volume_id \<Rightarrow> u64 \<Rightarrow> u64 \<Rightarrow> string" where
  "blx_key origin_volume fence obj =
     ''v/'' @ hex16 origin_volume @ ''/o/'' @ hex16 fence @ ''-'' @ hex16 obj @ ''.blx''"

definition blx_blob :: "volume_id \<Rightarrow> u64 \<Rightarrow> object_id \<Rightarrow> string" where
  "blx_blob volume fence obj = blx_key volume fence obj"

definition head_key :: "volume_id \<Rightarrow> string" where
  "head_key volume = ''v/'' @ hex16 volume @ ''/head''"

definition archive_manifest_key :: "volume_id \<Rightarrow> u64 \<Rightarrow> u64 \<Rightarrow> string" where
  "archive_manifest_key volume fence archive_seq =
     ''v/'' @ hex16 volume @ ''/m/'' @ hex16 fence @ ''-'' @ hex16 archive_seq @ ''.manifest''"

definition manifest_key :: "volume_id \<Rightarrow> u64 \<Rightarrow> journal_seq \<Rightarrow> string" where
  "manifest_key volume fence seq = archive_manifest_key volume fence seq"

definition complete_file_list_key :: "volume_id \<Rightarrow> u64 \<Rightarrow> u64 \<Rightarrow> string" where
  "complete_file_list_key volume fence list_id =
     ''v/'' @ hex16 volume @ ''/f/'' @ hex16 fence @ ''-'' @ hex16 list_id @ ''.files''"

definition base_root_key :: "u64 \<Rightarrow> string" where
  "base_root_key base = ''b/'' @ hex16 base @ ''/root''"

definition base_manifest_key :: "u64 \<Rightarrow> u64 \<Rightarrow> string" where
  "base_manifest_key base manifest_id = ''b/'' @ hex16 base @ ''/m/'' @ hex16 manifest_id @ ''.manifest''"

text \<open>The imported-base object name is formatted in \<^verbatim>\<open>ObjectIdentity::store_key\<close>.\<close>

definition base_blx_key :: "u64 \<Rightarrow> u64 \<Rightarrow> u64 \<Rightarrow> string" where
  "base_blx_key base fence obj = ''b/'' @ hex16 base @ ''/o/'' @ hex16 fence @ ''-'' @ hex16 obj @ ''.blx''"

definition pending_manifest_key :: "volume_id \<Rightarrow> u64 \<Rightarrow> journal_seq \<Rightarrow> string" where
  "pending_manifest_key volume fence seq = ''v/'' @ hex16 volume @ ''/p/'' @ hex16 fence @ ''-'' @ hex16 seq"

definition volume_prefix :: "volume_id \<Rightarrow> string" where
  "volume_prefix volume = ''v/'' @ hex16 volume @ ''/''"

definition handoff_blob :: "volume_id \<Rightarrow> string" where
  "handoff_blob volume = ''v/'' @ hex16 volume @ ''/handoff''"

definition replica_spool_generation_blob :: "host_id \<Rightarrow> volume_id \<Rightarrow> u64 \<Rightarrow> u64 \<Rightarrow> string" where
  "replica_spool_generation_blob source volume assignment_epoch generation =
     (let suffix = (if generation = 0 then hex16 assignment_epoch @ ''.spool''
                    else hex16 assignment_epoch @ ''-'' @ hex16 generation @ ''.spool'')
      in ''r/'' @ hex8 source @ ''/'' @ hex16 volume @ ''/'' @ suffix)"

definition replica_spool_blob :: "host_id \<Rightarrow> volume_id \<Rightarrow> u64 \<Rightarrow> string" where
  "replica_spool_blob source volume assignment_epoch =
     replica_spool_generation_blob source volume assignment_epoch 0"

section \<open>Parsers\<close>

datatype store_key =
    Head_Key volume_id
  | Archive_Manifest_Key volume_id u64 u64
  | Complete_File_List_Key volume_id u64 u64
  | Blx_Key volume_id u64 u64
  | Pending_Manifest_Key volume_id u64 journal_seq
  | Base_Root_Key u64
  | Base_Manifest_Key u64 u64
  | Imported_Base_Blx_Key u64 u64 u64

definition hex_pair :: "string \<Rightarrow> (u64 \<times> u64) option" where
  "hex_pair s =
     do { (left, right) \<leftarrow> split_once (CHR ''-'') s; a \<leftarrow> parse_u64 left; b \<leftarrow> parse_u64 right; Some (a, b) }"

definition parse_volume_key :: "volume_id \<Rightarrow> string \<Rightarrow> store_key option" where
  "parse_volume_key volume rest =
     (if rest = ''head'' then Some (Head_Key volume)
      else case strip_prefix ''m/'' rest of
        Some body \<Rightarrow>
          (case strip_suffix ''.manifest'' body of
             Some body \<Rightarrow> do { (fence, archive_seq) \<leftarrow> hex_pair body;
                              Some (Archive_Manifest_Key volume fence archive_seq) }
           | None \<Rightarrow> None)
      | None \<Rightarrow>
      case Option.bind (strip_prefix ''f/'' rest) (strip_suffix ''.files'') of
        Some body \<Rightarrow> do { (fence, list_id) \<leftarrow> hex_pair body; Some (Complete_File_List_Key volume fence list_id) }
      | None \<Rightarrow>
      case Option.bind (strip_prefix ''o/'' rest) (strip_suffix ''.blx'') of
        Some body \<Rightarrow> do { (fence, obj) \<leftarrow> hex_pair body; Some (Blx_Key volume fence obj) }
      | None \<Rightarrow>
      case strip_prefix ''p/'' rest of
        Some body \<Rightarrow> do { (fence, seq) \<leftarrow> hex_pair body; Some (Pending_Manifest_Key volume fence seq) }
      | None \<Rightarrow> None)"

definition parse_base_key :: "u64 \<Rightarrow> string \<Rightarrow> store_key option" where
  "parse_base_key base rest =
     (if rest = ''root'' then Some (Base_Root_Key base)
      else case Option.bind (strip_prefix ''m/'' rest) (strip_suffix ''.manifest'') of
        Some body \<Rightarrow> do { manifest_id \<leftarrow> parse_u64 body; Some (Base_Manifest_Key base manifest_id) }
      | None \<Rightarrow>
      case Option.bind (strip_prefix ''o/'' rest) (strip_suffix ''.blx'') of
        Some body \<Rightarrow> do { (fence, obj) \<leftarrow> hex_pair body; Some (Imported_Base_Blx_Key base fence obj) }
      | None \<Rightarrow> None)"

definition parse_key :: "string \<Rightarrow> store_key option" where
  "parse_key key =
     (case strip_prefix ''v/'' key of
        Some rest \<Rightarrow> do { (volume_hex, rest) \<leftarrow> split_once (CHR ''/'') rest;
                         volume \<leftarrow> parse_u64 volume_hex; parse_volume_key volume rest }
      | None \<Rightarrow>
      case strip_prefix ''b/'' key of
        Some rest \<Rightarrow> do { (base_hex, rest) \<leftarrow> split_once (CHR ''/'') rest;
                         base \<leftarrow> parse_u64 base_hex; parse_base_key base rest }
      | None \<Rightarrow> None)"

datatype blob_name =
    Journal_Blob volume_id u64 journal_seq
  | Blx_Blob volume_id u64 object_id
  | Handoff_Blob volume_id
  | Replica_Spool_Blob host_id volume_id u64 u64

definition parse_spool_parts :: "string list \<Rightarrow> blob_name option" where
  "parse_spool_parts parts =
     (case parts of
        host # volume_part # file_part # extra \<Rightarrow>
          do { guard_opt (length host = 8);
               source \<leftarrow> parse_u32 host;
               volume \<leftarrow> parse_u64 volume_part;
               file \<leftarrow> strip_suffix ''.spool'' file_part;
               (assignment, generation) \<leftarrow>
                 (case split_once (CHR ''-'') file of
                    None \<Rightarrow> Some (file, 0)
                  | Some (assignment, generation) \<Rightarrow>
                      do { g \<leftarrow> parse_u64 generation; Some (assignment, g) });
               assignment_epoch \<leftarrow> parse_u64 assignment;
               guard_opt (extra = []);
               Some (Replica_Spool_Blob source volume assignment_epoch generation) }
      | _ \<Rightarrow> None)"

definition parse_volume_blob :: "volume_id \<Rightarrow> string \<Rightarrow> blob_name option" where
  "parse_volume_blob volume rest =
     (case Option.bind (strip_prefix ''j/'' rest)
             (\<lambda>r. case strip_suffix ''.recm'' r of Some b \<Rightarrow> Some b | None \<Rightarrow> strip_suffix ''.rec'' r) of
        Some body \<Rightarrow> do { (fence, seq) \<leftarrow> hex_pair body; Some (Journal_Blob volume fence seq) }
      | None \<Rightarrow>
      case Option.bind (strip_prefix ''o/'' rest) (strip_suffix ''.blx'') of
        Some body \<Rightarrow> do { (fence, obj) \<leftarrow> hex_pair body; Some (Blx_Blob volume fence obj) }
      | None \<Rightarrow> if rest = ''handoff'' then Some (Handoff_Blob volume) else None)"

definition parse_blob :: "string \<Rightarrow> blob_name option" where
  "parse_blob name =
     (case strip_prefix ''r/'' name of
        Some rest \<Rightarrow> parse_spool_parts (split_on (CHR ''/'') rest)
      | None \<Rightarrow>
        do { rest \<leftarrow> strip_prefix ''v/'' name;
             (volume_hex, rest) \<leftarrow> split_once (CHR ''/'') rest;
             volume \<leftarrow> parse_u64 volume_hex;
             parse_volume_blob volume rest })"

section \<open>Hexadecimal round trip\<close>

lemma hex_val_char: "d < 16 \<Longrightarrow> hex_val (hex_char d) = Some d"
  by (auto simp: hex_val_def hex_char_def of_char_of Let_def)

lemma hex_char_plain:
  assumes "d < 16"
  shows "hex_char d \<noteq> CHR ''/''" "hex_char d \<noteq> CHR ''-''" "hex_char d \<noteq> CHR ''+''" "hex_char d \<noteq> CHR ''.''"
  using hex_val_char [OF assms] by (auto simp: hex_val_def)

lemma length_hex_str [simp]: "length (hex_str n v) = n"
  by (induction n arbitrary: v) auto

lemma hex_str_plain:
  "c \<in> set (hex_str n v) \<Longrightarrow> c \<noteq> CHR ''/'' \<and> c \<noteq> CHR ''-'' \<and> c \<noteq> CHR ''+'' \<and> c \<noteq> CHR ''.''"
proof (induction n arbitrary: v)
  case 0
  then show ?case by simp
next
  case (Suc n)
  then show ?case using hex_char_plain [of "v mod 16"] by auto
qed

lemma radix_digits_append:
  "radix_digits bits acc (xs @ ys) = Option.bind (radix_digits bits acc xs) (\<lambda>a. radix_digits bits a ys)"
  by (induction xs arbitrary: acc) (auto simp: bind_assoc)

lemma radix_hex_str: "v < 16 ^ n \<Longrightarrow> v < 2 ^ bits \<Longrightarrow> radix_digits bits 0 (hex_str n v) = Some v"
proof (induction n arbitrary: v)
  case 0
  then show ?case by simp
next
  case (Suc n)
  have "v div 16 < 16 ^ n" using Suc.prems(1) by (simp add: less_mult_imp_div_less mult.commute)
  moreover have "v div 16 < 2 ^ bits" using Suc.prems(2) by (meson div_le_dividend le_less_trans)
  ultimately have "radix_digits bits 0 (hex_str n (v div 16)) = Some (v div 16)" by (rule Suc.IH)
  then show ?case using Suc.prems by (simp add: radix_digits_append hex_val_char)
qed

lemma from_str_radix_hex_str:
  assumes "v < 16 ^ n" "v < 2 ^ bits" "0 < n"
  shows "from_str_radix bits (hex_str n v) = Some v"
proof -
  obtain c cs where cs: "hex_str n v = c # cs"
    using assms(3) length_hex_str [of n v] by (cases "hex_str n v") auto
  have "c \<noteq> CHR ''+''" using hex_str_plain [of c n v] cs by simp
  then show ?thesis
    using radix_hex_str [OF assms(1,2)] by (simp add: from_str_radix_def cs)
qed

lemma parse_hex16 [simp]: "parse_u64 (hex16 v) = Some v"
proof -
  have "unat v < 2 ^ 64" using unsigned_less [of v, where ?'a = nat] by simp
  then have "from_str_radix 64 (hex_str 16 (unat v)) = Some (unat v)"
    by (intro from_str_radix_hex_str) simp_all
  then show ?thesis by (simp add: parse_u64_def hex16_def)
qed

lemma parse_hex8 [simp]: "parse_u32 (hex8 v) = Some v"
proof -
  have "unat v < 2 ^ 32" using unsigned_less [of v, where ?'a = nat] by simp
  then have "from_str_radix 32 (hex_str 8 (unat v)) = Some (unat v)"
    by (intro from_str_radix_hex_str) simp_all
  then show ?thesis by (simp add: parse_u32_def hex8_def)
qed

lemma length_hex [simp]: "length (hex16 v) = 16" "length (hex8 w) = 8"
  by (simp_all add: hex16_def hex8_def)

lemma hex_plain:
  "c \<in> set (hex16 v) \<Longrightarrow> c \<noteq> CHR ''/'' \<and> c \<noteq> CHR ''-'' \<and> c \<noteq> CHR ''.''"
  "c \<in> set (hex8 w) \<Longrightarrow> c \<noteq> CHR ''/'' \<and> c \<noteq> CHR ''-'' \<and> c \<noteq> CHR ''.''"
  using hex_str_plain by (auto simp: hex16_def hex8_def)

section \<open>Splitting a formatted name\<close>

lemma strip_prefix_append [simp]: "strip_prefix p (p @ s) = Some s"
  by (simp add: strip_prefix_def)

lemma strip_suffix_append [simp]: "strip_suffix p (s @ p) = Some s"
  by (simp add: strip_suffix_def)

lemma split_once_fresh: "c \<notin> set xs \<Longrightarrow> split_once c (xs @ c # ys) = Some (xs, ys)"
  by (induction xs) auto

lemma split_once_none: "c \<notin> set xs \<Longrightarrow> split_once c xs = None"
  by (induction xs) auto

lemma split_on_fresh: "c \<notin> set xs \<Longrightarrow> split_on c (xs @ c # ys) = xs # split_on c ys"
  by (induction xs) auto

lemma split_on_none: "c \<notin> set xs \<Longrightarrow> split_on c xs = [xs]"
  by (induction xs) auto

lemma split_once_hex [simp]:
  "split_once (CHR ''/'') (hex16 v @ CHR ''/'' # s) = Some (hex16 v, s)"
  "split_once (CHR ''-'') (hex16 v @ CHR ''-'' # s) = Some (hex16 v, s)"
  "split_once (CHR ''-'') (hex16 v) = None"
  using hex_plain(1) by (auto intro!: split_once_fresh split_once_none)

lemma hex_pair_hex [simp]: "hex_pair (hex16 a @ CHR ''-'' # hex16 b) = Some (a, b)"
  by (simp add: hex_pair_def)

lemma strip_prefix_Cons [simp]:
  "strip_prefix [] s = Some s"
  "strip_prefix (c # p) [] = None"
  "strip_prefix (c # p) (x # s) = (if c = x then strip_prefix p s else None)"
  by (simp_all add: strip_prefix_def)

lemma strip_suffix_hex_pair [simp]:
  "strip_suffix sfx (hex16 a @ CHR ''-'' # hex16 b @ sfx) = Some (hex16 a @ CHR ''-'' # hex16 b)"
  "strip_suffix sfx (hex16 a @ sfx) = Some (hex16 a)"
  using strip_suffix_append [of sfx "hex16 a @ CHR ''-'' # hex16 b"] strip_suffix_append [of sfx "hex16 a"]
  by simp_all

lemma strip_suffix_rec:
  "strip_suffix ''.recm'' (s @ ''.rec'') = None"
  by (simp add: strip_suffix_def)

lemmas name_defs = head_key_def archive_manifest_key_def manifest_key_def complete_file_list_key_def
  blx_key_def blx_blob_def pending_manifest_key_def base_root_key_def base_manifest_key_def
  base_blx_key_def journal_blob_def journal_mirror_blob_def handoff_blob_def

lemma parse_key_names:
  "parse_key (head_key volume) = Some (Head_Key volume)"
  "parse_key (archive_manifest_key volume fence n) = Some (Archive_Manifest_Key volume fence n)"
  "parse_key (complete_file_list_key volume fence n) = Some (Complete_File_List_Key volume fence n)"
  "parse_key (blx_key volume fence n) = Some (Blx_Key volume fence n)"
  "parse_key (pending_manifest_key volume fence n) = Some (Pending_Manifest_Key volume fence n)"
  "parse_key (base_root_key base) = Some (Base_Root_Key base)"
  "parse_key (base_manifest_key base n) = Some (Base_Manifest_Key base n)"
  "parse_key (base_blx_key base fence n) = Some (Imported_Base_Blx_Key base fence n)"
  by (simp_all add: name_defs parse_key_def parse_volume_key_def parse_base_key_def)

lemma strip_suffix_rec_pair [simp]:
  "strip_suffix ''.recm'' (hex16 a @ CHR ''-'' # hex16 b @ ''.rec'') = None"
  using strip_suffix_rec [of "hex16 a @ CHR ''-'' # hex16 b"] by simp

lemma strip_suffix_spool [simp]:
  "strip_suffix ''.spool'' (hex16 a @ CHR ''-'' # hex16 b @ ''.spool'') = Some (hex16 a @ CHR ''-'' # hex16 b)"
  "strip_suffix ''.spool'' (hex16 a @ ''.spool'') = Some (hex16 a)"
  by (rule strip_suffix_hex_pair)+

lemma split_on_spool:
  assumes "CHR ''/'' \<notin> set f"
  shows "split_on (CHR ''/'') (hex8 h @ CHR ''/'' # hex16 v @ CHR ''/'' # f) = [hex8 h, hex16 v, f]"
proof -
  have "CHR ''/'' \<notin> set (hex8 h)" "CHR ''/'' \<notin> set (hex16 v)" using hex_plain by auto
  with assms show ?thesis by (simp add: split_on_fresh split_on_none)
qed

lemma parse_blob_spool:
  "parse_blob (replica_spool_generation_blob source volume assignment n) =
     Some (Replica_Spool_Blob source volume assignment n)"
proof (cases "n = 0")
  case True
  have "CHR ''/'' \<notin> set (hex16 assignment @ ''.spool'')" using hex_plain by auto
  with True show ?thesis
    by (simp add: replica_spool_generation_blob_def parse_blob_def parse_spool_parts_def split_on_spool)
next
  case False
  have "CHR ''/'' \<notin> set (hex16 assignment @ CHR ''-'' # hex16 n @ ''.spool'')" using hex_plain by auto
  with False show ?thesis
    by (simp add: replica_spool_generation_blob_def parse_blob_def parse_spool_parts_def split_on_spool)
qed

lemma parse_blob_names:
  "parse_blob (journal_blob volume fence n) = Some (Journal_Blob volume fence n)"
  "parse_blob (journal_mirror_blob volume fence n) = Some (Journal_Blob volume fence n)"
  "parse_blob (blx_blob volume fence n) = Some (Blx_Blob volume fence n)"
  "parse_blob (handoff_blob volume) = Some (Handoff_Blob volume)"
  by (simp_all add: name_defs parse_blob_def parse_volume_blob_def)

text \<open>The keys of the cluster, which the parser of archive keys does not take for its own.\<close>

lemmas cluster_key_defs = placement_key_def cluster_metadata_key_def node_claim_key_def node_claim_prefix_def
  peer_membership_key_def peer_membership_prefix_def host_session_key_def

lemma parse_key_cluster:
  "parse_key placement_key = None" "parse_key cluster_metadata_key = None" "parse_key (node_claim_key host) = None"
  "parse_key (peer_membership_key host) = None" "parse_key (host_session_key host) = None"
  by (simp_all add: cluster_key_defs parse_key_def)

lemma hex8_inject [simp]: "hex8 a = hex8 b \<longleftrightarrow> a = b"
  by (metis option.inject parse_hex8)

lemma cluster_keys_inject:
  "node_claim_key a = node_claim_key b \<longleftrightarrow> a = b" "peer_membership_key a = peer_membership_key b \<longleftrightarrow> a = b"
  "host_session_key a = host_session_key b \<longleftrightarrow> a = b"
  by (simp_all add: cluster_key_defs)

lemma cluster_keys_distinct:
  "distinct [placement_key, cluster_metadata_key, node_claim_key a, peer_membership_key b, host_session_key c]"
  by (simp add: cluster_key_defs)

text \<open>
  C39: Every archive key and every local blob name the daemon formats parses back to exactly the
  identity it was formatted from, for all identifiers; the journal record and its mirror parse to the
  same record.  Two different archive objects of one kind, or of two kinds, therefore never collide on
  a key.  The cluster's own keys (placement, metadata, node claims, peer memberships, host sessions)
  are recognised as no archive key, so they collide with none; they differ from one another, and a
  claim, a membership and a session key each determine their host.
\<close>

theorem names_parse_back:
  "parse_key (head_key volume) = Some (Head_Key volume) \<and>
   parse_key (archive_manifest_key volume fence n) = Some (Archive_Manifest_Key volume fence n) \<and>
   parse_key (manifest_key volume fence n) = Some (Archive_Manifest_Key volume fence n) \<and>
   parse_key (complete_file_list_key volume fence n) = Some (Complete_File_List_Key volume fence n) \<and>
   parse_key (blx_key volume fence n) = Some (Blx_Key volume fence n) \<and>
   parse_key (pending_manifest_key volume fence n) = Some (Pending_Manifest_Key volume fence n) \<and>
   parse_key (base_root_key base) = Some (Base_Root_Key base) \<and>
   parse_key (base_manifest_key base n) = Some (Base_Manifest_Key base n) \<and>
   parse_key (base_blx_key base fence n) = Some (Imported_Base_Blx_Key base fence n) \<and>
   parse_key placement_key = None \<and> parse_key cluster_metadata_key = None \<and>
   parse_key (node_claim_key host) = None \<and> parse_key (peer_membership_key host) = None \<and>
   parse_key (host_session_key host) = None \<and>
   distinct [placement_key, cluster_metadata_key, node_claim_key host, peer_membership_key host', host_session_key host''] \<and>
   (node_claim_key host = node_claim_key host' \<longleftrightarrow> host = host') \<and>
   (peer_membership_key host = peer_membership_key host' \<longleftrightarrow> host = host') \<and>
   (host_session_key host = host_session_key host' \<longleftrightarrow> host = host') \<and>
   parse_blob (journal_blob volume fence n) = Some (Journal_Blob volume fence n) \<and>
   parse_blob (journal_mirror_blob volume fence n) = Some (Journal_Blob volume fence n) \<and>
   parse_blob (blx_blob volume fence n) = Some (Blx_Blob volume fence n) \<and>
   parse_blob (handoff_blob volume) = Some (Handoff_Blob volume) \<and>
   parse_blob (replica_spool_blob source volume assignment) = Some (Replica_Spool_Blob source volume assignment 0) \<and>
   parse_blob (replica_spool_generation_blob source volume assignment n) =
     Some (Replica_Spool_Blob source volume assignment n)"
  using cluster_keys_distinct [of host host' host'']
  by (simp add: parse_key_names manifest_key_def parse_key_cluster cluster_keys_inject
      parse_blob_names replica_spool_blob_def parse_blob_spool del: distinct.simps)

end
