(* ===== verification/Blx_Key.thy ===== *)
theory Blx_Key
  imports Layout
begin

text \<open>
  Block keys of \<^verbatim>\<open>crates/core/src/blx.rs\<close>: the enumerations with their wire tags, the key, its
  storage-file partition, and the ordering by which every BLX file and index is sorted.  The
  ordering depends on the page size, so it is the comparison \<open>block_key_less E\<close>; it meets the
  \<open>key_order\<close> contract for every environment, and it keeps each file partition contiguous.
\<close>

text \<open>\<^verbatim>\<open>u32::from_le_bytes(*b"....")\<close>.\<close>

definition magic :: "string \<Rightarrow> u32" where
  "magic s = of_nat (le_value (map of_char s))"

definition TARGET_FILE_BYTES :: nat where
  "TARGET_FILE_BYTES = 32 * 1024 * 1024"

definition MAX_FILE_BYTES :: nat where
  "MAX_FILE_BYTES = 64 * 1024 * 1024"

definition MAX_OVERLAPPING_FILES :: nat where
  "MAX_OVERLAPPING_FILES = 8"

definition NAMESPACES_PER_FILE_PARTITION :: u16 where
  "NAMESPACES_PER_FILE_PARTITION = 8"

definition COMPACTION_OBJECT_IDS_PER_BATCH :: u64 where
  "COMPACTION_OBJECT_IDS_PER_BATCH = 4294967296"

definition compaction_object_id_start :: "u64 \<Rightarrow> u64 option" where
  "compaction_object_id_start slot =
     do { ranges \<leftarrow> checked_add slot 1;
          end_id \<leftarrow> checked_mul ranges COMPACTION_OBJECT_IDS_PER_BATCH;
          rest \<leftarrow> checked_sub (- 1) end_id;
          checked_add rest 1 }"

datatype namespace_kind = NS_Volume | NS_Imported_Base

fun namespace_tag :: "namespace_kind \<Rightarrow> u8" where
  "namespace_tag NS_Volume = 0"
| "namespace_tag NS_Imported_Base = 1"

definition namespace_decode :: "u8 \<Rightarrow> namespace_kind option" where
  "namespace_decode t = (if t = 0 then Some NS_Volume else if t = 1 then Some NS_Imported_Base else None)"

datatype block_space = BS_Memory | BS_Data | BS_Vmm

fun space_tag :: "block_space \<Rightarrow> u8" where
  "space_tag BS_Memory = 0"
| "space_tag BS_Data = 1"
| "space_tag BS_Vmm = 2"

definition space_decode :: "u8 \<Rightarrow> block_space option" where
  "space_decode t =
     (if t = 0 then Some BS_Memory else if t = 1 then Some BS_Data else if t = 2 then Some BS_Vmm else None)"

text \<open>The volume kind of \<^verbatim>\<open>crates/core/src/journal.rs\<close>.\<close>

datatype volume_kind = VK_Memory | VK_Data

fun volume_kind_tag :: "volume_kind \<Rightarrow> u8" where
  "volume_kind_tag VK_Memory = 0"
| "volume_kind_tag VK_Data = 1"

definition volume_kind_decode :: "u8 \<Rightarrow> volume_kind option" where
  "volume_kind_decode t = (if t = 0 then Some VK_Memory else if t = 1 then Some VK_Data else None)"

record block_key =
  bk_space :: block_space
  bk_block :: u32

definition blocks_per_file_partition :: "env \<Rightarrow> u32" where
  "blocks_per_file_partition E =
     of_nat (max (TARGET_FILE_BYTES div env_page_size E div unat NAMESPACES_PER_FILE_PARTITION) 1)"

definition namespace_rank :: "block_key \<Rightarrow> u16" where
  "namespace_rank k = (case bk_space k of BS_Memory \<Rightarrow> 0 | BS_Vmm \<Rightarrow> 1 | BS_Data \<Rightarrow> 2)"

definition file_partition :: "env \<Rightarrow> block_key \<Rightarrow> u32 \<times> u16" where
  "file_partition E k =
     (bk_block k div blocks_per_file_partition E, namespace_rank k div NAMESPACES_PER_FILE_PARTITION)"

definition from_page :: "volume_kind \<Rightarrow> page_id \<Rightarrow> block_key" where
  "from_page kind page =
     (case kind of
        VK_Memory \<Rightarrow> \<lparr> bk_space = BS_Memory, bk_block = snd page \<rparr>
      | VK_Data \<Rightarrow> \<lparr> bk_space = BS_Data, bk_block = snd page \<rparr>)"

definition to_page :: "block_key \<Rightarrow> volume_kind \<Rightarrow> volume_id \<Rightarrow> page_id option" where
  "to_page k kind volume =
     (case (kind, bk_space k) of
        (VK_Memory, BS_Memory) \<Rightarrow> Some (volume, bk_block k)
      | (VK_Data, BS_Data) \<Rightarrow> Some (volume, bk_block k)
      | _ \<Rightarrow> None)"

definition to_page_id :: "block_key \<Rightarrow> volume_id \<Rightarrow> page_id option" where
  "to_page_id k volume =
     (case bk_space k of BS_Vmm \<Rightarrow> None | _ \<Rightarrow> Some (volume, bk_block k))"

definition enc_block_key :: "block_key \<Rightarrow> bytes" where
  "enc_block_key k = enc_u8 (space_tag (bk_space k)) @ enc_u8 0 @ enc_u16 0 @ enc_u32 (bk_block k)"

definition dec_block_key :: "bytes \<Rightarrow> (block_key \<times> bytes) option" where
  "dec_block_key d =
     do { (t, d) \<leftarrow> dec_u8 d;
          sp \<leftarrow> space_decode t;
          (a, d) \<leftarrow> dec_u8 d;
          guard_opt (a = 0);
          (b, d) \<leftarrow> dec_u16 d;
          guard_opt (b = 0);
          (blk, d) \<leftarrow> dec_u32 d;
          Some (\<lparr> bk_space = sp, bk_block = blk \<rparr>, d) }"

text \<open>The tuple compared by \<^verbatim>\<open>impl Ord for BlockKey\<close>.\<close>

definition block_rank :: "env \<Rightarrow> block_key \<Rightarrow> u32 \<times> u16 \<times> u16 \<times> u32" where
  "block_rank E k =
     (bk_block k div blocks_per_file_partition E,
      namespace_rank k div NAMESPACES_PER_FILE_PARTITION,
      namespace_rank k,
      bk_block k mod blocks_per_file_partition E)"

definition block_key_less :: "env \<Rightarrow> block_key \<Rightarrow> block_key \<Rightarrow> bool" where
  "block_key_less E a b \<longleftrightarrow> block_rank E a < block_rank E b"

text \<open>\<^verbatim>\<open>vmm_snapshot_blocks\<close>: page-sized chunks of the snapshot, the last one zero padded.\<close>

function vmm_chunks :: "nat \<Rightarrow> bytes \<Rightarrow> bytes list" where
  "vmm_chunks n bs = (if bs = [] \<or> n = 0 then [] else take n bs # vmm_chunks n (drop n bs))"
  by pat_completeness auto
termination
  by (relation "measure (\<lambda>(n, bs). length bs)") auto

declare vmm_chunks.simps [simp del]

definition vmm_snapshot_blocks :: "env \<Rightarrow> bytes \<Rightarrow> (block_key \<times> bytes) list option" where
  "vmm_snapshot_blocks E bs =
     (let chunks = vmm_chunks (env_page_size E) bs in
      if length chunks \<le> 2 ^ 32 then
        Some (map (\<lambda>(i, chunk). (\<lparr> bk_space = BS_Vmm, bk_block = of_nat i \<rparr>,
                                  chunk @ replicate (env_page_size E - length chunk) 0))
                (zip [0..<length chunks] chunks))
      else None)"

section \<open>Wire tags\<close>

lemma namespace_decode_iff [codec_simps]: "namespace_decode t = Some k \<longleftrightarrow> t = namespace_tag k"
  by (cases k) (auto simp: namespace_decode_def)

lemma space_decode_iff [codec_simps]: "space_decode t = Some s \<longleftrightarrow> t = space_tag s"
  by (cases s) (auto simp: space_decode_def)

lemma volume_kind_decode_iff [codec_simps]: "volume_kind_decode t = Some k \<longleftrightarrow> t = volume_kind_tag k"
  by (cases k) (auto simp: volume_kind_decode_def)

lemma tag_roundtrips [simp]:
  "namespace_decode (namespace_tag k) = Some k" "space_decode (space_tag s) = Some s"
  "volume_kind_decode (volume_kind_tag v) = Some v"
  by (simp_all add: codec_simps)

lemma tag_inj [simp]:
  "namespace_tag k = namespace_tag k' \<longleftrightarrow> k = k'" "space_tag s = space_tag s' \<longleftrightarrow> s = s'"
  "volume_kind_tag v = volume_kind_tag v' \<longleftrightarrow> v = v'"
  using namespace_decode_iff space_decode_iff volume_kind_decode_iff
  by (metis option.inject)+

lemma dec_block_key_iff [codec_simps]: "dec_block_key d = Some (k, r) \<longleftrightarrow> d = enc_block_key k @ r"
proof -
  have "dec_block_key d = Some (k, r) \<longleftrightarrow>
    (\<exists>s blk. k = \<lparr> bk_space = s, bk_block = blk \<rparr> \<and>
      d = enc_u8 (space_tag s) @ enc_u8 0 @ enc_u16 0 @ enc_u32 blk @ r)"
    by (auto simp: dec_block_key_def bind_eq_Some_conv codec_simps)
  also have "\<dots> \<longleftrightarrow> d = enc_block_key k @ r"
    by (cases k) (auto simp: enc_block_key_def)
  finally show ?thesis .
qed

interpretation block_keyc: codec enc_block_key dec_block_key "\<lambda>_. True"
  by unfold_locales (simp add: dec_block_key_iff)

lemma dec_enc_block_key [simp]: "dec_block_key (enc_block_key k @ r) = Some (k, r)"
  by (simp add: dec_block_key_iff)

lemma length_enc_block_key [simp]: "length (enc_block_key k) = 8"
  by (simp add: enc_block_key_def)

section \<open>The key ordering\<close>

lemma namespace_rank_inj: "namespace_rank a = namespace_rank b \<longleftrightarrow> bk_space a = bk_space b"
  by (simp add: namespace_rank_def split: block_space.splits)

lemma block_rank_inj: "block_rank E a = block_rank E b \<longleftrightarrow> a = b"
proof
  assume eq: "block_rank E a = block_rank E b"
  let ?n = "blocks_per_file_partition E"
  have "bk_block a = bk_block a div ?n * ?n + bk_block a mod ?n"
    by (rule div_mult_mod_eq [symmetric])
  also have "\<dots> = bk_block b div ?n * ?n + bk_block b mod ?n"
    using eq by (simp add: block_rank_def)
  also have "\<dots> = bk_block b" by (rule div_mult_mod_eq)
  finally have "bk_block a = bk_block b" .
  moreover have "bk_space a = bk_space b" using eq by (simp add: block_rank_def namespace_rank_inj)
  ultimately show "a = b" by simp
qed simp

interpretation block_order: key_order "block_key_less E" for E
proof unfold_locales
  fix a b c
  show "\<not> block_key_less E a a" by (simp add: block_key_less_def)
  show "block_key_less E a b \<Longrightarrow> block_key_less E b c \<Longrightarrow> block_key_less E a c"
    unfolding block_key_less_def by (rule less_trans)
  show "a = b \<or> block_key_less E a b \<or> block_key_less E b a"
    unfolding block_key_less_def by (metis block_rank_inj less_linear)
qed

lemma file_partition_mono: "block_key_less E a b \<Longrightarrow> file_partition E a \<le> file_partition E b"
  by (auto simp: block_key_less_def block_rank_def file_partition_def less_eq_prod_def less_prod_def)

text \<open>
  The block-key order keeps storage-file partitions contiguous: it is transitive and
  asymmetric, and between two keys of one partition there are only keys of that partition, so a
  sorted run of entries never returns to a partition it has left.
\<close>

theorem block_order_partitions_contiguous:
  assumes "block_key_less E a b" "block_key_less E b c" "file_partition E a = file_partition E c"
  shows "block_key_less E a c \<and> \<not> block_key_less E c a \<and> file_partition E b = file_partition E a"
  using assms block_order.trans [of E a b c] block_order.trans [of E a c a] block_order.irrefl [of E a]
    file_partition_mono [of E a b] file_partition_mono [of E b c]
  by auto

theorem block_order_partitions_contiguous_witness:
  "let a = \<lparr> bk_space = BS_Memory, bk_block = 0 \<rparr>; b = \<lparr> bk_space = BS_Memory, bk_block = 5 \<rparr>;
       c = \<lparr> bk_space = BS_Data, bk_block = 3 \<rparr>
   in block_key_less demo_env a c \<and> \<not> block_key_less demo_env c a \<and>
      file_partition demo_env b = file_partition demo_env a"
  unfolding Let_def
  by (rule block_order_partitions_contiguous)
    (simp_all add: block_key_less_def block_rank_def file_partition_def namespace_rank_def
      blocks_per_file_partition_def NAMESPACES_PER_FILE_PARTITION_def TARGET_FILE_BYTES_def demo_env_def)

section \<open>Reserved object identifiers\<close>

lemma compaction_object_id_start_value:
  assumes "compaction_object_id_start slot = Some start"
  shows "unat start + (unat slot + 1) * 2 ^ 32 = 2 ^ 64" "unat slot + 1 < 2 ^ 32"
proof -
  from assms obtain ranges end_id rest where
    r: "checked_add slot 1 = Some ranges"
    and e: "checked_mul ranges COMPACTION_OBJECT_IDS_PER_BATCH = Some end_id"
    and s: "checked_sub (- 1) end_id = Some rest"
    and st: "checked_add rest 1 = Some start"
    by (auto simp: compaction_object_id_start_def bind_eq_Some_conv)
  have m1: "unat (- 1 :: u64) = 2 ^ 64 - 1" by (simp add: unsigned_minus_1_eq_mask mask_eq_exp_minus_1)
  have "unat ranges = unat slot + 1" using checked_add_SomeD [OF r] by simp
  moreover have "unat end_id = unat ranges * 2 ^ 32"
    using checked_mul_SomeD [OF e] by (simp add: COMPACTION_OBJECT_IDS_PER_BATCH_def)
  moreover have "unat rest = 2 ^ 64 - 1 - unat end_id \<and> unat end_id \<le> 2 ^ 64 - 1"
    using checked_sub_SomeD [OF s] m1 by simp
  moreover have "unat start = unat rest + 1" using checked_add_SomeD [OF st] by simp
  ultimately show "unat start + (unat slot + 1) * 2 ^ 32 = 2 ^ 64" "unat slot + 1 < 2 ^ 32"
    by simp_all
qed

text \<open>
  C40: Each compaction slot reserves a range of \<open>2 ^ 32\<close> object identifiers that lies inside the
  64-bit space, and the ranges of two different slots are disjoint: a later slot's range ends
  where or before an earlier slot's range starts.
\<close>

theorem compaction_ranges_disjoint:
  assumes "compaction_object_id_start s = Some a" "compaction_object_id_start t = Some b" "s < t"
  shows "unat a + 2 ^ 32 \<le> 2 ^ 64 \<and> unat b + 2 ^ 32 \<le> unat a"
proof -
  have "unat s < unat t" using assms(3) by (simp add: word_less_nat_alt)
  then show ?thesis
    using compaction_object_id_start_value [OF assms(1)] compaction_object_id_start_value [OF assms(2)]
    by simp
qed

theorem compaction_ranges_disjoint_witness:
  "unat (18446744069414584320 :: u64) + 2 ^ 32 \<le> 2 ^ 64 \<and>
   unat (18446744065119617024 :: u64) + 2 ^ 32 \<le> unat (18446744069414584320 :: u64)"
  by (rule compaction_ranges_disjoint [of 0 _ 1])
    (simp_all add: compaction_object_id_start_def checked_add_def checked_mul_def checked_sub_def
      COMPACTION_OBJECT_IDS_PER_BATCH_def)

end
