(* ===== verification/Blx_Format.thy ===== *)
theory Blx_Format
  imports Blx_Key
begin

text \<open>
  The byte format of one BLX object (\<^verbatim>\<open>crates/core/src/blx.rs\<close>): header, entries, footer index
  and trailer, their encoders and strict openers, the whole-object encoder \<^verbatim>\<open>encode_object\<close>, the
  validating reader \<^verbatim>\<open>BlxObject::scan\<close> and \<^verbatim>\<open>BlxFooter::find\<close>.  The lemmas show that what
  \<^verbatim>\<open>encode_object\<close> writes is exactly what the reader accepts, and that each key's index entry
  leads to the bytes that were stored for it.
\<close>

definition MAGIC_HEADER :: u32 where
  "MAGIC_HEADER = magic ''BLXH''"

definition MAGIC_ENTRY :: u32 where
  "MAGIC_ENTRY = magic ''BLXE''"

definition MAGIC_FOOTER :: u32 where
  "MAGIC_FOOTER = magic ''BLXF''"

definition MAGIC_TRAILER :: u32 where
  "MAGIC_TRAILER = magic ''BLXT''"

definition TRAILER_BYTES :: nat where
  "TRAILER_BYTES = 16"

definition HEADER_VERSION :: u16 where
  "HEADER_VERSION = 1"

definition HEADER_PAYLOAD_BYTES :: nat where
  "HEADER_PAYLOAD_BYTES = 2 + 4 + 1 + 8 * 6 + 4 * 3 + 8 * 2 + 8 * 2"

definition HEADER_BYTES :: nat where
  "HEADER_BYTES = FRAME_HEADER + HEADER_PAYLOAD_BYTES"

definition FOOTER_PREFIX_BYTES :: nat where
  "FOOTER_PREFIX_BYTES = 2 + 4"

definition FOOTER_ENTRY_BYTES :: nat where
  "FOOTER_ENTRY_BYTES = 8 + 4 + 4 + 8 + 1 + 7 + 8"

lemmas blx_sizes = TRAILER_BYTES_def HEADER_PAYLOAD_BYTES_def HEADER_BYTES_def FRAME_HEADER_def
  FOOTER_PREFIX_BYTES_def FOOTER_ENTRY_BYTES_def

section \<open>Data\<close>

record blx_header =
  bh_block_size :: u32
  bh_namespace_kind :: namespace_kind
  bh_namespace_id :: u64
  bh_writer_fence :: u64
  bh_object_id :: u64
  bh_min_seq :: u64
  bh_max_seq :: u64
  bh_batch_id :: u64
  bh_chunk_index :: u32
  bh_chunk_count :: u32
  bh_entry_count :: u32
  bh_first_key :: block_key
  bh_last_key :: block_key
  bh_pre_state_checksum :: u64
  bh_post_state_checksum :: u64

datatype entry_kind = EK_Data | EK_Tombstone

fun entry_kind_tag :: "entry_kind \<Rightarrow> u8" where
  "entry_kind_tag EK_Data = 0"
| "entry_kind_tag EK_Tombstone = 1"

definition entry_kind_decode :: "u8 \<Rightarrow> entry_kind option" where
  "entry_kind_decode t = (if t = 0 then Some EK_Data else if t = 1 then Some EK_Tombstone else None)"

record footer_entry =
  fe_key :: block_key
  fe_offset :: u32
  fe_length :: u32
  fe_generation :: gen_no
  fe_kind :: entry_kind
  fe_value_checksum :: u64

datatype blx_entry =
  Data_Entry (entry_key: block_key) (entry_generation: gen_no) bytes
| Tombstone_Entry (entry_key: block_key) (entry_generation: gen_no)

fun kind_of_entry :: "blx_entry \<Rightarrow> entry_kind" where
  "kind_of_entry (Data_Entry _ _ _) = EK_Data"
| "kind_of_entry (Tombstone_Entry _ _) = EK_Tombstone"

record batch_meta =
  bm_namespace_kind :: namespace_kind
  bm_namespace_id :: u64
  bm_writer_fence :: u64
  bm_first_object_id :: u64
  bm_min_seq :: u64
  bm_max_seq :: u64
  bm_batch_id :: u64
  bm_pre_state_checksum :: u64
  bm_post_state_checksum :: u64

record blx_object =
  bo_header :: blx_header
  bo_footer :: "footer_entry list"
  bo_footer_offset :: u32
  bo_footer_length :: u32
  bo_checksum :: u64
  bo_bytes :: bytes

section \<open>Header\<close>

definition enc_header_payload :: "blx_header \<Rightarrow> bytes" where
  "enc_header_payload h =
     enc_u16 HEADER_VERSION @ enc_u32 (bh_block_size h) @ enc_u8 (namespace_tag (bh_namespace_kind h)) @
     enc_u64 (bh_namespace_id h) @ enc_u64 (bh_writer_fence h) @ enc_u64 (bh_object_id h) @
     enc_u64 (bh_min_seq h) @ enc_u64 (bh_max_seq h) @ enc_u64 (bh_batch_id h) @
     enc_u32 (bh_chunk_index h) @ enc_u32 (bh_chunk_count h) @ enc_u32 (bh_entry_count h) @
     enc_block_key (bh_first_key h) @ enc_block_key (bh_last_key h) @
     enc_u64 (bh_pre_state_checksum h) @ enc_u64 (bh_post_state_checksum h)"

definition encode_header :: "env \<Rightarrow> blx_header \<Rightarrow> bytes option" where
  "encode_header E h = seal_frame E MAGIC_HEADER (enc_header_payload h)"

definition dec_header_payload :: "bytes \<Rightarrow> (blx_header \<times> bytes) option" where
  "dec_header_payload d =
     do { (version, d) \<leftarrow> dec_u16 d;
          guard_opt (version = HEADER_VERSION);
          (block_size, d) \<leftarrow> dec_u32 d;
          (t, d) \<leftarrow> dec_u8 d;
          kind \<leftarrow> namespace_decode t;
          (namespace_id, d) \<leftarrow> dec_u64 d;
          (writer_fence, d) \<leftarrow> dec_u64 d;
          (object_id, d) \<leftarrow> dec_u64 d;
          (min_seq, d) \<leftarrow> dec_u64 d;
          (max_seq, d) \<leftarrow> dec_u64 d;
          (batch_id, d) \<leftarrow> dec_u64 d;
          (chunk_index, d) \<leftarrow> dec_u32 d;
          (chunk_count, d) \<leftarrow> dec_u32 d;
          (entry_count, d) \<leftarrow> dec_u32 d;
          (first_key, d) \<leftarrow> dec_block_key d;
          (last_key, d) \<leftarrow> dec_block_key d;
          (pre, d) \<leftarrow> dec_u64 d;
          (post, d) \<leftarrow> dec_u64 d;
          Some (\<lparr> bh_block_size = block_size, bh_namespace_kind = kind, bh_namespace_id = namespace_id,
                  bh_writer_fence = writer_fence, bh_object_id = object_id, bh_min_seq = min_seq,
                  bh_max_seq = max_seq, bh_batch_id = batch_id, bh_chunk_index = chunk_index,
                  bh_chunk_count = chunk_count, bh_entry_count = entry_count, bh_first_key = first_key,
                  bh_last_key = last_key, bh_pre_state_checksum = pre, bh_post_state_checksum = post \<rparr>, d) }"

definition header_valid :: "env \<Rightarrow> blx_header \<Rightarrow> bool" where
  "header_valid E h \<longleftrightarrow>
     \<not> (bh_block_size h \<noteq> of_nat (env_page_size E) \<or> bh_min_seq h > bh_max_seq h \<or> bh_chunk_count h = 0 \<or>
        bh_chunk_index h \<ge> bh_chunk_count h \<or> bh_entry_count h = 0 \<or>
        block_key_less E (bh_last_key h) (bh_first_key h))"

definition open_header :: "env \<Rightarrow> bytes \<Rightarrow> (blx_header \<times> nat) option" where
  "open_header E bs =
     do { guard_opt (\<not> length bs < HEADER_BYTES);
          payload \<leftarrow> open_frame E MAGIC_HEADER (take HEADER_BYTES bs);
          (h, d) \<leftarrow> dec_header_payload payload;
          dec_finish d;
          guard_opt (header_valid E h);
          Some (h, HEADER_BYTES) }"

section \<open>Entries\<close>

definition enc_entry_payload :: "env \<Rightarrow> blx_entry \<Rightarrow> bytes option" where
  "enc_entry_payload E e =
     (let head = enc_u8 (entry_kind_tag (kind_of_entry e)) @ enc_block_key (entry_key e) @
                 enc_u64 (entry_generation e) in
      case e of
        Tombstone_Entry _ _ \<Rightarrow> Some head
      | Data_Entry _ _ bs \<Rightarrow>
          let compressed = env_compress E bs in
          do { guard_opt (fits_u32 (length bs));
               guard_opt (fits_u32 (length compressed));
               Some (head @ enc_u32 (of_nat (length bs)) @ enc_u32 (of_nat (length compressed)) @ compressed) })"

definition encode_entry :: "env \<Rightarrow> blx_entry \<Rightarrow> bytes option" where
  "encode_entry E e = do { payload \<leftarrow> enc_entry_payload E e; seal_frame E MAGIC_ENTRY payload }"

definition open_entry :: "env \<Rightarrow> bytes \<Rightarrow> blx_entry option" where
  "open_entry E bs =
     do { payload \<leftarrow> open_frame E MAGIC_ENTRY bs;
          (t, d) \<leftarrow> dec_u8 payload;
          kind \<leftarrow> entry_kind_decode t;
          (key, d) \<leftarrow> dec_block_key d;
          (generation, d) \<leftarrow> dec_u64 d;
          (entry, d) \<leftarrow>
            (case kind of
               EK_Data \<Rightarrow>
                 do { (raw_len, d) \<leftarrow> dec_u32 d;
                      (stored_len, d) \<leftarrow> dec_u32 d;
                      guard_opt (unat raw_len = env_page_size E);
                      (compressed, d) \<leftarrow> dec_bytes (unat stored_len) d;
                      raw \<leftarrow> env_decompress E compressed (unat raw_len);
                      Some (Data_Entry key generation raw, d) }
             | EK_Tombstone \<Rightarrow> Some (Tombstone_Entry key generation, d));
          dec_finish d;
          Some entry }"

section \<open>Footer\<close>

definition enc_footer_entry :: "footer_entry \<Rightarrow> bytes" where
  "enc_footer_entry f =
     enc_block_key (fe_key f) @ enc_u32 (fe_offset f) @ enc_u32 (fe_length f) @ enc_u64 (fe_generation f) @
     enc_u8 (entry_kind_tag (fe_kind f)) @ replicate 7 0 @ enc_u64 (fe_value_checksum f)"

definition encode_footer :: "env \<Rightarrow> footer_entry list \<Rightarrow> bytes option" where
  "encode_footer E fs =
     do { guard_opt (fits_u32 (length fs));
          seal_frame E MAGIC_FOOTER
            (enc_u16 1 @ enc_u32 (of_nat (length fs)) @ enc_many enc_footer_entry fs) }"

definition dec_footer_entry :: "bytes \<Rightarrow> (footer_entry \<times> bytes) option" where
  "dec_footer_entry d =
     do { (key, d) \<leftarrow> dec_block_key d;
          (off, d) \<leftarrow> dec_u32 d;
          (len, d) \<leftarrow> dec_u32 d;
          (generation, d) \<leftarrow> dec_u64 d;
          (t, d) \<leftarrow> dec_u8 d;
          kind \<leftarrow> entry_kind_decode t;
          (reserved, d) \<leftarrow> dec_bytes 7 d;
          guard_opt (reserved = replicate 7 0);
          (checksum, d) \<leftarrow> dec_u64 d;
          Some (\<lparr> fe_key = key, fe_offset = off, fe_length = len, fe_generation = generation,
                  fe_kind = kind, fe_value_checksum = checksum \<rparr>, d) }"

text \<open>The loop of \<^verbatim>\<open>BlxFooter::open\<close> with its \<^verbatim>\<open>previous\<close> key.\<close>

fun dec_footer_entries ::
  "env \<Rightarrow> nat \<Rightarrow> block_key option \<Rightarrow> bytes \<Rightarrow> (footer_entry list \<times> bytes) option" where
  "dec_footer_entries E 0 previous d = Some ([], d)"
| "dec_footer_entries E (Suc n) previous d =
     do { (f, d) \<leftarrow> dec_footer_entry d;
          guard_opt (\<not> (fe_kind f = EK_Tombstone \<and> fe_value_checksum f \<noteq> 0));
          guard_opt (case previous of None \<Rightarrow> True | Some key \<Rightarrow> block_key_less E key (fe_key f));
          (fs, d) \<leftarrow> dec_footer_entries E n (Some (fe_key f)) d;
          Some (f # fs, d) }"

definition open_footer :: "env \<Rightarrow> bytes \<Rightarrow> footer_entry list option" where
  "open_footer E bs =
     do { payload \<leftarrow> open_frame E MAGIC_FOOTER bs;
          (version, d) \<leftarrow> dec_u16 payload;
          guard_opt (version = 1);
          (n, d) \<leftarrow> dec_u32 d;
          size \<leftarrow> usize_checked_mul (unat n) FOOTER_ENTRY_BYTES;
          guard_opt (length d = size);
          (fs, d) \<leftarrow> dec_footer_entries E (unat n) None d;
          dec_finish d;
          Some fs }"

section \<open>Trailer\<close>

definition encode_trailer :: "env \<Rightarrow> u32 \<Rightarrow> u32 \<Rightarrow> bytes" where
  "encode_trailer E footer_offset footer_length =
     (let prefix = enc_u32 MAGIC_TRAILER @ enc_u32 footer_offset @ enc_u32 footer_length in
      prefix @ enc_u32 (crc32c E prefix))"

definition open_trailer :: "env \<Rightarrow> bytes \<Rightarrow> (u32 \<times> u32) option" where
  "open_trailer E bs =
     do { guard_opt (length bs = TRAILER_BYTES);
          (m, d) \<leftarrow> dec_u32 bs;
          guard_opt (m = MAGIC_TRAILER);
          (off, d) \<leftarrow> dec_u32 d;
          (len, d) \<leftarrow> dec_u32 d;
          (checksum, d) \<leftarrow> dec_u32 d;
          dec_finish d;
          guard_opt (crc32c E (take 12 bs) = checksum);
          Some (off, len) }"

section \<open>Whole objects\<close>

text \<open>The footer checksum field: the checksum of the uncompressed block, zero for tombstones.\<close>

definition entry_value_checksum :: "env \<Rightarrow> blx_entry \<Rightarrow> u64" where
  "entry_value_checksum E e = (case e of Data_Entry _ _ bs \<Rightarrow> checksum64 E bs | Tombstone_Entry _ _ \<Rightarrow> 0)"

text \<open>The entry loop of \<^verbatim>\<open>encode_object\<close>, from a given byte position.\<close>

fun encode_entries :: "env \<Rightarrow> nat \<Rightarrow> blx_entry list \<Rightarrow> (bytes \<times> footer_entry list) option" where
  "encode_entries E pos [] = Some ([], [])"
| "encode_entries E pos (e # es) =
     do { guard_opt (fits_u32 pos);
          encoded \<leftarrow> encode_entry E e;
          guard_opt (fits_u32 (length encoded));
          (bs, fs) \<leftarrow> encode_entries E (pos + length encoded) es;
          Some (encoded @ bs,
                \<lparr> fe_key = entry_key e, fe_offset = of_nat pos, fe_length = of_nat (length encoded),
                  fe_generation = entry_generation e, fe_kind = kind_of_entry e,
                  fe_value_checksum = entry_value_checksum E e \<rparr> # fs) }"

definition object_header :: "env \<Rightarrow> batch_meta \<Rightarrow> u64 \<Rightarrow> u32 \<Rightarrow> u32 \<Rightarrow> blx_entry list \<Rightarrow> blx_header" where
  "object_header E meta oid chunk_index chunk_count entries =
     \<lparr> bh_block_size = of_nat (env_page_size E), bh_namespace_kind = bm_namespace_kind meta,
       bh_namespace_id = bm_namespace_id meta, bh_writer_fence = bm_writer_fence meta,
       bh_object_id = oid, bh_min_seq = bm_min_seq meta, bh_max_seq = bm_max_seq meta,
       bh_batch_id = bm_batch_id meta, bh_chunk_index = chunk_index, bh_chunk_count = chunk_count,
       bh_entry_count = of_nat (length entries), bh_first_key = entry_key (hd entries),
       bh_last_key = entry_key (last entries), bh_pre_state_checksum = bm_pre_state_checksum meta,
       bh_post_state_checksum = bm_post_state_checksum meta \<rparr>"

definition encode_object ::
  "env \<Rightarrow> batch_meta \<Rightarrow> u64 \<Rightarrow> u32 \<Rightarrow> u32 \<Rightarrow> blx_entry list \<Rightarrow> blx_object option" where
  "encode_object E meta oid chunk_index chunk_count entries =
     do { guard_opt (entries \<noteq> []);
          guard_opt (fits_u32 (env_page_size E));
          guard_opt (fits_u32 (length entries));
          let header = object_header E meta oid chunk_index chunk_count entries;
          head \<leftarrow> encode_header E header;
          (body, footer) \<leftarrow> encode_entries E (length head) entries;
          let footer_offset = length head + length body;
          guard_opt (fits_u32 footer_offset);
          encoded_footer \<leftarrow> encode_footer E footer;
          guard_opt (fits_u32 (length encoded_footer));
          let bs = head @ body @ encoded_footer @
                   encode_trailer E (of_nat footer_offset) (of_nat (length encoded_footer));
          guard_opt (length bs \<le> MAX_FILE_BYTES);
          Some \<lparr> bo_header = header, bo_footer = footer, bo_footer_offset = of_nat footer_offset,
                 bo_footer_length = of_nat (length encoded_footer), bo_checksum = checksum64 E bs,
                 bo_bytes = bs \<rparr> }"

definition byte_slice :: "nat \<Rightarrow> nat \<Rightarrow> bytes \<Rightarrow> bytes" where
  "byte_slice a b bs = take (b - a) (drop a bs)"

text \<open>The entry loop of \<^verbatim>\<open>BlxObject::scan\<close>; the result is the final expected offset.\<close>

fun scan_entries :: "env \<Rightarrow> bytes \<Rightarrow> nat \<Rightarrow> nat \<Rightarrow> footer_entry list \<Rightarrow> nat option" where
  "scan_entries E bs footer_offset expected [] = Some expected"
| "scan_entries E bs footer_offset expected (f # fs) =
     do { let off = unat (fe_offset f);
          end_off \<leftarrow> usize_checked_add off (unat (fe_length f));
          guard_opt (\<not> (off \<noteq> expected \<or> end_off > footer_offset));
          e \<leftarrow> open_entry E (byte_slice off end_off bs);
          guard_opt ((entry_key e, entry_generation e, kind_of_entry e, entry_value_checksum E e) =
                     (fe_key f, fe_generation f, fe_kind f, fe_value_checksum f));
          scan_entries E bs footer_offset end_off fs }"

definition scan_object :: "env \<Rightarrow> bytes \<Rightarrow> (blx_header \<times> footer_entry list) option" where
  "scan_object E bs =
     do { (header, header_end) \<leftarrow> open_header E bs;
          guard_opt (\<not> length bs < header_end + TRAILER_BYTES);
          (off, len) \<leftarrow> open_trailer E (drop (length bs - TRAILER_BYTES) bs);
          let footer_offset = unat off;
          footer_end \<leftarrow> usize_checked_add footer_offset (unat len);
          guard_opt (\<not> (footer_offset < header_end \<or> footer_end + TRAILER_BYTES \<noteq> length bs));
          footer \<leftarrow> open_footer E (byte_slice footer_offset footer_end bs);
          guard_opt (\<not> (length footer \<noteq> unat (bh_entry_count header) \<or> footer = [] \<or>
                        fe_key (hd footer) \<noteq> bh_first_key header \<or>
                        fe_key (last footer) \<noteq> bh_last_key header));
          expected \<leftarrow> scan_entries E bs footer_offset header_end footer;
          guard_opt (expected = footer_offset);
          Some (header, footer) }"

definition open_object :: "env \<Rightarrow> bytes \<Rightarrow> blx_object option" where
  "open_object E bs =
     do { (header, footer) \<leftarrow> scan_object E bs;
          guard_opt (TRAILER_BYTES \<le> length bs);
          (off, len) \<leftarrow> open_trailer E (drop (length bs - TRAILER_BYTES) bs);
          Some \<lparr> bo_header = header, bo_footer = footer, bo_footer_offset = off, bo_footer_length = len,
                 bo_checksum = checksum64 E bs, bo_bytes = bs \<rparr> }"

text \<open>The footer keys are strictly ascending, so the binary search of \<^verbatim>\<open>find\<close> decides membership.\<close>

definition footer_find :: "env \<Rightarrow> footer_entry list \<Rightarrow> block_key \<Rightarrow> footer_entry option" where
  "footer_find E fs k =
     map_option (\<lambda>i. fs ! i) (binary_search (block_key_less E) fe_key k fs 0 (length fs))"

text \<open>The size estimate of \<^verbatim>\<open>encoded_entry_upper_bound\<close>, from the compressor's documented maximum.\<close>

definition encoded_entry_upper_bound :: "env \<Rightarrow> blx_entry \<Rightarrow> nat" where
  "encoded_entry_upper_bound E e =
     (case e of
        Data_Entry _ _ bs \<Rightarrow> FRAME_HEADER + 1 + 8 + 8 + 4 + 4 + env_max_output E (length bs)
      | Tombstone_Entry _ _ \<Rightarrow> FRAME_HEADER + 1 + 8 + 8)"

section \<open>Header, entry, footer and trailer round trips\<close>

lemma entry_kind_decode_iff [codec_simps]: "entry_kind_decode t = Some k \<longleftrightarrow> t = entry_kind_tag k"
  by (cases k) (auto simp: entry_kind_decode_def)

lemma entry_kind_roundtrip [simp]: "entry_kind_decode (entry_kind_tag k) = Some k"
  by (simp add: codec_simps)

lemma dec_header_payload_iff [codec_simps]:
  "dec_header_payload d = Some (h, r) \<longleftrightarrow> d = enc_header_payload h @ r"
proof
  show "dec_header_payload d = Some (h, r) \<Longrightarrow> d = enc_header_payload h @ r"
    by (auto simp: dec_header_payload_def enc_header_payload_def codec_simps elim!: bind_SomeE)
qed (simp add: dec_header_payload_def enc_header_payload_def)

interpretation headerc: codec enc_header_payload dec_header_payload "\<lambda>_. True"
  by unfold_locales (simp add: dec_header_payload_iff)

lemma length_header_payload [simp]: "length (enc_header_payload h) = HEADER_PAYLOAD_BYTES"
  by (simp add: enc_header_payload_def HEADER_PAYLOAD_BYTES_def)

lemma encode_header_total: "\<exists>bs. encode_header E h = Some bs \<and> length bs = HEADER_BYTES"
  by (simp add: encode_header_def seal_frame_def fits_u32_def blx_sizes)

lemma encode_header_length: "encode_header E h = Some bs \<Longrightarrow> length bs = HEADER_BYTES"
  using encode_header_total [of E h] by auto

lemma open_header_sound:
  "open_header E bs = Some (h, n) \<Longrightarrow>
   n = HEADER_BYTES \<and> header_valid E h \<and> encode_header E h = Some (take HEADER_BYTES bs)"
  by (auto simp: open_header_def encode_header_def bind_eq_Some_conv codec_simps frame_open_seal)

lemma open_encode_header:
  assumes "encode_header E h = Some bs" "header_valid E h"
  shows "open_header E (bs @ r) = Some (h, HEADER_BYTES)"
proof -
  have "take HEADER_BYTES (bs @ r) = bs" using encode_header_length [OF assms(1)] by simp
  moreover have "dec_header_payload (enc_header_payload h) = Some (h, [])"
    by (simp add: dec_header_payload_iff)
  ultimately show ?thesis
    using assms encode_header_length [OF assms(1)] by (simp add: open_header_def encode_header_def)
qed

text \<open>What the builder guarantees of an entry: data entries store exactly one block.\<close>

definition entry_ok :: "env \<Rightarrow> blx_entry \<Rightarrow> bool" where
  "entry_ok E e \<longleftrightarrow> (case e of Data_Entry _ _ bs \<Rightarrow> length bs = env_page_size E | Tombstone_Entry _ _ \<Rightarrow> True)"

lemma open_encode_entry:
  assumes enc: "encode_entry E e = Some bs" and ok: "entry_ok E e" and lz: "lz4_roundtrips E"
  shows "open_entry E bs = Some e"
proof -
  from enc obtain payload where p: "enc_entry_payload E e = Some payload"
    and f: "open_frame E MAGIC_ENTRY bs = Some payload"
    by (auto simp: encode_entry_def bind_eq_Some_conv)
  show ?thesis
  proof (cases e)
    case (Data_Entry k g raw)
    from p Data_Entry have fits: "fits_u32 (length raw)" "fits_u32 (length (env_compress E raw))"
      and pl: "payload = enc_u8 (entry_kind_tag EK_Data) @ enc_block_key k @ enc_u64 g @
        enc_u32 (of_nat (length raw)) @ enc_u32 (of_nat (length (env_compress E raw))) @ env_compress E raw"
      by (auto simp: enc_entry_payload_def Let_def bind_eq_Some_conv)
    have "env_decompress E (env_compress E raw) (length raw) = Some raw"
      using lz by (simp add: lz4_roundtrips_def)
    then show ?thesis using ok Data_Entry fits
      by (simp add: open_entry_def f pl unat_of_nat_u32 entry_ok_def entry_kind_decode_def)
  next
    case (Tombstone_Entry k g)
    with p have "payload = enc_u8 (entry_kind_tag EK_Tombstone) @ enc_block_key k @ enc_u64 g"
      by (simp add: enc_entry_payload_def)
    then show ?thesis by (simp add: open_entry_def f Tombstone_Entry entry_kind_decode_def)
  qed
qed

lemma dec_footer_entry_iff [codec_simps]:
  "dec_footer_entry d = Some (f, r) \<longleftrightarrow> d = enc_footer_entry f @ r"
proof
  show "dec_footer_entry d = Some (f, r) \<Longrightarrow> d = enc_footer_entry f @ r"
    by (auto simp: dec_footer_entry_def enc_footer_entry_def codec_simps elim!: bind_SomeE)
qed (simp add: dec_footer_entry_def enc_footer_entry_def)

interpretation footer_entryc: codec enc_footer_entry dec_footer_entry "\<lambda>_. True"
  by unfold_locales (simp add: dec_footer_entry_iff)

lemma length_enc_footer_entry [simp]: "length (enc_footer_entry f) = FOOTER_ENTRY_BYTES"
  by (simp add: enc_footer_entry_def FOOTER_ENTRY_BYTES_def)

lemma length_enc_footer_entries [simp]:
  "length (enc_many enc_footer_entry fs) = length fs * FOOTER_ENTRY_BYTES"
  by (induction fs) (simp_all add: enc_many_def)

text \<open>What \<^verbatim>\<open>BlxFooter::open\<close> requires of the index: strictly ascending keys, zero tombstone checksums.\<close>

definition footer_ok :: "env \<Rightarrow> footer_entry list \<Rightarrow> bool" where
  "footer_ok E fs \<longleftrightarrow> sorted_wrt (block_key_less E) (map fe_key fs) \<and>
     (\<forall>f \<in> set fs. fe_kind f = EK_Tombstone \<longrightarrow> fe_value_checksum f = 0)"

lemma footer_ok_Cons:
  "footer_ok E (f # fs) \<longleftrightarrow> (fe_kind f = EK_Tombstone \<longrightarrow> fe_value_checksum f = 0) \<and>
   (fs = [] \<or> block_key_less E (fe_key f) (fe_key (hd fs))) \<and> footer_ok E fs"
  by (cases fs) (auto simp: footer_ok_def intro: block_order.trans)

lemma dec_footer_entries_iff:
  "dec_footer_entries E n previous d = Some (fs, r) \<longleftrightarrow>
   length fs = n \<and> d = enc_many enc_footer_entry fs @ r \<and> footer_ok E fs \<and>
   (fs = [] \<or> (case previous of None \<Rightarrow> True | Some k \<Rightarrow> block_key_less E k (fe_key (hd fs))))"
proof (induction n arbitrary: previous d fs)
  case 0
  then show ?case by (auto simp: enc_many_def footer_ok_def)
next
  case (Suc n)
  show ?case
    by (cases fs) (auto simp: bind_eq_Some_conv Suc.IH dec_footer_entry_iff enc_many_def footer_ok_Cons
        split: option.splits)
qed

lemma open_footer_iff:
  "open_footer E bs = Some fs \<longleftrightarrow> encode_footer E fs = Some bs \<and> footer_ok E fs"
proof -
  have small: "unat (n :: u32) * FOOTER_ENTRY_BYTES \<le> usize_max" for n
    using fits_u32_unat [of n] by (simp add: fits_u32_def usize_max_def FOOTER_ENTRY_BYTES_def)
  have "open_footer E bs = Some fs \<longleftrightarrow>
    (\<exists>n. length fs = unat (n :: u32) \<and> footer_ok E fs \<and>
      open_frame E MAGIC_FOOTER bs = Some (enc_u16 1 @ enc_u32 n @ enc_many enc_footer_entry fs))"
    by (auto simp: open_footer_def bind_eq_Some_conv codec_simps dec_footer_entries_iff
        usize_checked_mul_def small)
  also have "\<dots> \<longleftrightarrow> encode_footer E fs = Some bs \<and> footer_ok E fs"
    by (auto simp: encode_footer_def frame_open_seal bind_eq_Some_conv unat_of_nat_u32
        intro!: exI [of _ "of_nat (length fs) :: u32"])
  finally show ?thesis .
qed

lemma encode_footer_length:
  "encode_footer E fs = Some bs \<Longrightarrow>
   length bs = FRAME_HEADER + FOOTER_PREFIX_BYTES + length fs * FOOTER_ENTRY_BYTES"
  by (auto simp: encode_footer_def bind_eq_Some_conv FOOTER_PREFIX_BYTES_def dest!: seal_frame_length)

lemma length_encode_trailer [simp]: "length (encode_trailer E a b) = TRAILER_BYTES"
  by (simp add: encode_trailer_def Let_def TRAILER_BYTES_def)

lemma open_trailer_iff: "open_trailer E bs = Some (off, len) \<longleftrightarrow> bs = encode_trailer E off len"
proof -
  have t: "take 12 (enc_u32 a @ enc_u32 b @ enc_u32 c @ r) = enc_u32 a @ enc_u32 b @ enc_u32 c" for a b c r
    using append_take_drop_id [of 12 "enc_u32 a @ enc_u32 b @ enc_u32 c @ r"] by simp
  let ?p = "enc_u32 MAGIC_TRAILER @ enc_u32 off @ enc_u32 len"
  have tr: "encode_trailer E off len = enc_u32 MAGIC_TRAILER @ enc_u32 off @ enc_u32 len @ enc_u32 (crc32c E ?p)"
    by (simp add: encode_trailer_def Let_def)
  show ?thesis
  proof
    assume "open_trailer E bs = Some (off, len)"
    then have bs: "bs = enc_u32 MAGIC_TRAILER @ enc_u32 off @ enc_u32 len @ enc_u32 (crc32c E (take 12 bs))"
      by (auto simp: open_trailer_def bind_eq_Some_conv codec_simps)
    have "take 12 bs = ?p" by (subst bs) (rule t)
    with bs show "bs = encode_trailer E off len" by (simp only: tr)
  next
    assume bs: "bs = encode_trailer E off len"
    then have "take 12 bs = ?p" unfolding tr by (simp only: t)
    then show "open_trailer E bs = Some (off, len)"
      by (simp add: open_trailer_def bs tr TRAILER_BYTES_def del: take_append)
  qed
qed

lemma open_encode_trailer [simp]: "open_trailer E (encode_trailer E off len) = Some (off, len)"
  by (simp add: open_trailer_iff)

section \<open>The encoded object\<close>

lemma encode_entries_index:
  assumes "encode_entries E pos es = Some (bs, fs)"
  shows "map fe_key fs = map entry_key es" "map fe_generation fs = map entry_generation es"
    "map fe_kind fs = map kind_of_entry es" "map fe_value_checksum fs = map (entry_value_checksum E) es"
    "length fs = length es"
proof -
  from assms have "map fe_key fs = map entry_key es \<and> map fe_generation fs = map entry_generation es \<and>
    map fe_kind fs = map kind_of_entry es \<and> map fe_value_checksum fs = map (entry_value_checksum E) es"
    by (induction E pos es arbitrary: bs fs rule: encode_entries.induct) (auto simp: bind_eq_Some_conv)
  then show "map fe_key fs = map entry_key es" "map fe_generation fs = map entry_generation es"
    "map fe_kind fs = map kind_of_entry es" "map fe_value_checksum fs = map (entry_value_checksum E) es"
    "length fs = length es"
    by (auto dest: map_eq_imp_length_eq)
qed

lemma slice_middle [simp]: "byte_slice (length a) (length a + length b) (a @ b @ c) = b"
  by (simp add: byte_slice_def)

text \<open>The bytes an index entry points at.\<close>

definition entry_bytes :: "bytes \<Rightarrow> footer_entry \<Rightarrow> bytes" where
  "entry_bytes bs f = byte_slice (unat (fe_offset f)) (unat (fe_offset f) + unat (fe_length f)) bs"

lemma encode_entries_scan:
  assumes "encode_entries E (length pre) es = Some (body, fs)" "list_all (entry_ok E) es" "lz4_roundtrips E"
  shows "scan_entries E (pre @ body @ post) (length pre + length body) (length pre) fs =
      Some (length pre + length body) \<and>
    map (\<lambda>f. open_entry E (entry_bytes (pre @ body @ post) f)) fs = map Some es"
  using assms(1,2)
proof (induction es arbitrary: pre body fs)
  case Nil
  then show ?case by simp
next
  case (Cons e es)
  from Cons.prems obtain enc rest gs where
    fits: "fits_u32 (length pre)" "fits_u32 (length enc)"
    and enc: "encode_entry E e = Some enc"
    and rest: "encode_entries E (length (pre @ enc)) es = Some (rest, gs)"
    and body: "body = enc @ rest"
    and fs: "fs = \<lparr> fe_key = entry_key e, fe_offset = of_nat (length pre), fe_length = of_nat (length enc),
      fe_generation = entry_generation e, fe_kind = kind_of_entry e,
      fe_value_checksum = entry_value_checksum E e \<rparr> # gs"
    by (auto simp: bind_eq_Some_conv)
  have o: "open_entry E enc = Some e"
    using open_encode_entry [OF enc _ assms(3)] Cons.prems(2) by simp
  have sl: "byte_slice (length pre) (length pre + length enc) (pre @ enc @ rest @ post) = enc" by simp
  have le: "length pre + length enc \<le> usize_max"
    using fits by (simp add: fits_u32_def usize_max_def)
  show ?case
    using Cons.IH [OF rest] Cons.prems(2) fits
    by (simp add: body fs o sl le entry_bytes_def unat_of_nat_u32 usize_checked_add_def add.assoc)
qed

lemma encode_object_shape:
  assumes "encode_object E meta oid ci cc entries = Some obj"
  obtains head body ft where
    "entries \<noteq> []" "fits_u32 (env_page_size E)" "fits_u32 (length entries)"
    "bo_header obj = object_header E meta oid ci cc entries"
    "encode_header E (bo_header obj) = Some head"
    "encode_entries E (length head) entries = Some (body, bo_footer obj)"
    "unat (bo_footer_offset obj) = length head + length body"
    "encode_footer E (bo_footer obj) = Some ft"
    "unat (bo_footer_length obj) = length ft"
    "bo_bytes obj = head @ body @ ft @ encode_trailer E (bo_footer_offset obj) (bo_footer_length obj)"
    "length (bo_bytes obj) \<le> MAX_FILE_BYTES"
    "bo_checksum obj = checksum64 E (bo_bytes obj)"
  using assms
  by (auto simp: encode_object_def bind_eq_Some_conv Let_def unat_of_nat_u32 simp del: of_nat_add)

text \<open>The entries a batch hands to \<^verbatim>\<open>encode_object\<close>: full blocks, in strictly ascending key order.\<close>

definition chunk_ok :: "env \<Rightarrow> blx_entry list \<Rightarrow> bool" where
  "chunk_ok E entries \<longleftrightarrow> list_all (entry_ok E) entries \<and>
     sorted_wrt (block_key_less E) (map entry_key entries)"

lemma chunk_footer_ok:
  assumes "encode_entries E pos entries = Some (body, fs)" "chunk_ok E entries"
  shows "footer_ok E fs"
proof -
  have "fe_value_checksum f = 0" if f: "f \<in> set fs" "fe_kind f = EK_Tombstone" for f
  proof -
    from f(1) obtain i where i: "i < length fs" "f = fs ! i" by (auto simp: in_set_conv_nth)
    then have "kind_of_entry (entries ! i) = EK_Tombstone \<and>
      fe_value_checksum f = entry_value_checksum E (entries ! i)"
      using encode_entries_index(3-5) [OF assms(1)] f(2) by (metis nth_map)
    then show ?thesis by (cases "entries ! i") (simp_all add: entry_value_checksum_def)
  qed
  then show ?thesis using assms(2) encode_entries_index(1) [OF assms(1)]
    by (simp add: footer_ok_def chunk_ok_def)
qed

lemma sorted_first_last:
  assumes "sorted_wrt (block_key_less E) ks" "ks \<noteq> []"
  shows "\<not> block_key_less E (last ks) (hd ks)"
proof -
  from assms(2) obtain k ks' where ks: "ks = k # ks'" by (cases ks) auto
  show ?thesis
  proof (cases "ks' = []")
    case True
    then show ?thesis by (simp add: ks block_order.irrefl)
  next
    case False
    then have "block_key_less E k (last ks')" using assms(1) by (simp add: ks)
    then show ?thesis using False block_order.trans block_order.irrefl by (simp add: ks) blast
  qed
qed

lemma object_header_valid:
  assumes "chunk_ok E entries" "entries \<noteq> []" "fits_u32 (length entries)" "bm_min_seq meta \<le> bm_max_seq meta"
    and "ci < cc"
  shows "header_valid E (object_header E meta oid ci cc entries)"
proof -
  have "(of_nat (length entries) :: u32) \<noteq> 0"
    using assms(2,3) by (metis length_0_conv unat_of_nat_u32 unat_0)
  moreover have "\<not> block_key_less E (entry_key (last entries)) (entry_key (hd entries))"
    using sorted_first_last [of E "map entry_key entries"] assms(1,2)
    by (simp add: chunk_ok_def last_map hd_map)
  moreover have "cc \<noteq> 0" using assms(5) by auto
  ultimately show ?thesis using assms by (simp add: header_valid_def object_header_def not_le)
qed

lemma scan_encoded_object:
  assumes enc: "encode_object E meta oid ci cc entries = Some obj"
    and ok: "chunk_ok E entries" and seqs: "bm_min_seq meta \<le> bm_max_seq meta" and chunk: "ci < cc"
    and lz: "lz4_roundtrips E"
  shows "scan_object E (bo_bytes obj) = Some (bo_header obj, bo_footer obj)"
    and "map (\<lambda>f. open_entry E (entry_bytes (bo_bytes obj) f)) (bo_footer obj) = map Some entries"
proof -
  from encode_object_shape [OF enc] obtain head body ft where
    ne: "entries \<noteq> []" and fits: "fits_u32 (length entries)"
    and hdr: "bo_header obj = object_header E meta oid ci cc entries"
    and head: "encode_header E (bo_header obj) = Some head"
    and ents: "encode_entries E (length head) entries = Some (body, bo_footer obj)"
    and off: "unat (bo_footer_offset obj) = length head + length body"
    and ft: "encode_footer E (bo_footer obj) = Some ft"
    and len: "unat (bo_footer_length obj) = length ft"
    and bs: "bo_bytes obj = head @ body @ ft @ encode_trailer E (bo_footer_offset obj) (bo_footer_length obj)"
    by blast
  let ?tr = "encode_trailer E (bo_footer_offset obj) (bo_footer_length obj)"
  have hv: "header_valid E (bo_header obj)"
    unfolding hdr by (rule object_header_valid [OF ok ne fits seqs chunk])
  have hl: "length head = HEADER_BYTES" by (rule encode_header_length [OF head])
  have opened: "open_header E (bo_bytes obj) = Some (bo_header obj, HEADER_BYTES)"
    unfolding bs by (rule open_encode_header [OF head hv])
  have footer: "open_footer E ft = Some (bo_footer obj)"
    using ft chunk_footer_ok [OF ents ok] by (simp add: open_footer_iff)
  have sl: "byte_slice (length head + length body) (length head + length body + length ft) (bo_bytes obj) = ft"
    using slice_middle [of "head @ body" ft ?tr] by (simp add: bs)
  have tr: "drop (length head + (length body + length ft)) (bo_bytes obj) = ?tr" by (simp add: bs)
  have sc: "scan_entries E (bo_bytes obj) (length head + length body) (length head) (bo_footer obj) =
      Some (length head + length body)"
    and opens: "map (\<lambda>f. open_entry E (entry_bytes (bo_bytes obj) f)) (bo_footer obj) = map Some entries"
    using encode_entries_scan [OF ents _ lz, of "ft @ ?tr"] ok by (simp_all add: bs chunk_ok_def)
  have le: "length head + length body + length ft \<le> usize_max"
    using fits_u32_unat [of "bo_footer_offset obj"] fits_u32_unat [of "bo_footer_length obj"]
    by (simp add: off len fits_u32_def usize_max_def)
  have keys: "map fe_key (bo_footer obj) = map entry_key entries" and fl: "length (bo_footer obj) = length entries"
    using encode_entries_index [OF ents] by simp_all
  have fne: "bo_footer obj \<noteq> []" using fl ne by auto
  have hk: "fe_key (hd (bo_footer obj)) = entry_key (hd entries)"
    "fe_key (last (bo_footer obj)) = entry_key (last entries)"
    using keys ne fne by (metis hd_map, metis last_map)
  have total: "length (bo_bytes obj) = length head + length body + length ft + TRAILER_BYTES"
    by (simp add: bs)
  have hdrs: "bh_entry_count (bo_header obj) = of_nat (length entries)"
    "bh_first_key (bo_header obj) = entry_key (hd entries)"
    "bh_last_key (bo_header obj) = entry_key (last entries)"
    by (simp_all add: hdr object_header_def)
  show "scan_object E (bo_bytes obj) = Some (bo_header obj, bo_footer obj)"
    using sc sl hk fne le tr
    by (simp add: scan_object_def Let_def opened add.assoc tr usize_checked_add_def off len footer total hdrs fl
        unat_of_nat_u32 [OF fits] flip: hl)
  show "map (\<lambda>f. open_entry E (entry_bytes (bo_bytes obj) f)) (bo_footer obj) = map Some entries"
    by (rule opens)
qed

section \<open>Encoding succeeds within the size limit\<close>

lemma encode_entry_total:
  assumes "lz4_bounded E" "entry_ok E e" "encoded_entry_upper_bound E e \<le> MAX_FILE_BYTES" "fits_u32 (env_page_size E)"
  shows "\<exists>bs. encode_entry E e = Some bs \<and> length bs \<le> encoded_entry_upper_bound E e"
proof (cases e)
  case (Data_Entry k g raw)
  have "length (env_compress E raw) \<le> env_max_output E (length raw)"
    using assms(1) by (simp add: lz4_bounded_def)
  then show ?thesis using assms Data_Entry
    by (simp add: encode_entry_def enc_entry_payload_def encoded_entry_upper_bound_def entry_ok_def Let_def
        seal_frame_def fits_u32_def MAX_FILE_BYTES_def FRAME_HEADER_def)
next
  case (Tombstone_Entry k g)
  then show ?thesis
    by (simp add: encode_entry_def enc_entry_payload_def encoded_entry_upper_bound_def Let_def
        seal_frame_def fits_u32_def FRAME_HEADER_def)
qed

lemma encode_entries_total:
  assumes "lz4_bounded E" "fits_u32 (env_page_size E)"
  shows "list_all (entry_ok E) es \<Longrightarrow> pos + (\<Sum>e\<leftarrow>es. encoded_entry_upper_bound E e) \<le> MAX_FILE_BYTES \<Longrightarrow>
    \<exists>bs fs. encode_entries E pos es = Some (bs, fs) \<and> length fs = length es \<and>
      length bs \<le> (\<Sum>e\<leftarrow>es. encoded_entry_upper_bound E e)"
proof (induction es arbitrary: pos)
  case Nil
  then show ?case by simp
next
  case (Cons e es)
  obtain enc where enc: "encode_entry E e = Some enc" "length enc \<le> encoded_entry_upper_bound E e"
    using encode_entry_total [OF assms(1), of e] Cons.prems assms(2) by auto
  with Cons.prems Cons.IH [of "pos + length enc"] obtain bs fs where
    "encode_entries E (pos + length enc) es = Some (bs, fs)" "length fs = length es"
    "length bs \<le> (\<Sum>e\<leftarrow>es. encoded_entry_upper_bound E e)"
    by auto
  with enc Cons.prems show ?case by (simp add: fits_u32_def MAX_FILE_BYTES_def)
qed

lemma encode_object_total:
  assumes lz: "lz4_bounded E" and ps: "fits_u32 (env_page_size E)" and ne: "entries \<noteq> []"
    and ok: "list_all (entry_ok E) entries"
    and size: "HEADER_BYTES + TRAILER_BYTES + FRAME_HEADER + FOOTER_PREFIX_BYTES +
      (\<Sum>e\<leftarrow>entries. encoded_entry_upper_bound E e + FOOTER_ENTRY_BYTES) \<le> MAX_FILE_BYTES"
  shows "\<exists>obj. encode_object E meta oid ci cc entries = Some obj"
proof -
  obtain head where head: "encode_header E (object_header E meta oid ci cc entries) = Some head"
    "length head = HEADER_BYTES"
    using encode_header_total by blast
  have sum: "(\<Sum>e\<leftarrow>entries. encoded_entry_upper_bound E e + FOOTER_ENTRY_BYTES) =
      (\<Sum>e\<leftarrow>entries. encoded_entry_upper_bound E e) + length entries * FOOTER_ENTRY_BYTES"
    by (induction entries) simp_all
  obtain body fs where body: "encode_entries E (length head) entries = Some (body, fs)"
    "length fs = length entries" "length body \<le> (\<Sum>e\<leftarrow>entries. encoded_entry_upper_bound E e)"
    using encode_entries_total [OF lz ps ok, of "length head"] size by (auto simp: head sum)
  have n: "fits_u32 (length entries)"
    using size unfolding sum by (simp add: fits_u32_def MAX_FILE_BYTES_def blx_sizes)
  then obtain ft where ft: "encode_footer E fs = Some ft"
    using size unfolding sum by (simp add: encode_footer_def seal_frame_def body fits_u32_def MAX_FILE_BYTES_def blx_sizes)
  have "length ft = FRAME_HEADER + FOOTER_PREFIX_BYTES + length entries * FOOTER_ENTRY_BYTES"
    using encode_footer_length [OF ft] by (simp add: body)
  with head body n ft ne ps size [unfolded sum] show ?thesis
    by (simp add: encode_object_def Let_def fits_u32_def MAX_FILE_BYTES_def blx_sizes)
qed

section \<open>Properties of the object format\<close>

text \<open>A two-entry chunk that removes page 3 and its VMM companion, for closed examples.\<close>

definition demo_meta :: batch_meta where
  "demo_meta = \<lparr> bm_namespace_kind = NS_Volume, bm_namespace_id = 7, bm_writer_fence = 2,
     bm_first_object_id = 40, bm_min_seq = 5, bm_max_seq = 6, bm_batch_id = 40,
     bm_pre_state_checksum = 0, bm_post_state_checksum = 0 \<rparr>"

definition demo_entries :: "blx_entry list" where
  "demo_entries = [Tombstone_Entry \<lparr> bk_space = BS_Memory, bk_block = 3 \<rparr> 9,
     Tombstone_Entry \<lparr> bk_space = BS_Vmm, bk_block = 0 \<rparr> 9]"

lemma demo_chunk_ok: "chunk_ok demo_env demo_entries"
  by (simp add: chunk_ok_def demo_entries_def entry_ok_def block_key_less_def block_rank_def namespace_rank_def
      blocks_per_file_partition_def NAMESPACES_PER_FILE_PARTITION_def TARGET_FILE_BYTES_def demo_env_def)

lemma demo_object: "\<exists>obj. encode_object demo_env demo_meta 40 0 1 demo_entries = Some obj"
  using demo_env_page_size
  by (intro encode_object_total demo_env_lz4)
    (simp_all add: demo_entries_def entry_ok_def encoded_entry_upper_bound_def blx_sizes MAX_FILE_BYTES_def
      validate_page_size_def)

text \<open>
  C36: An encoded object reads back: for every chunk of full blocks in ascending key order, the
  bytes \<^verbatim>\<open>encode_object\<close> produced are accepted by \<^verbatim>\<open>BlxObject::open\<close>, which returns the same
  header, footer, footer location and checksum, given that the compressor round-trips.
\<close>

theorem encoded_object_reopens:
  assumes "encode_object E meta oid chunk_index chunk_count entries = Some obj"
    and "chunk_ok E entries" "bm_min_seq meta \<le> bm_max_seq meta" "chunk_index < chunk_count"
    and "lz4_roundtrips E"
  shows "open_object E (bo_bytes obj) = Some obj"
proof -
  have "scan_object E (bo_bytes obj) = Some (bo_header obj, bo_footer obj)"
    by (rule scan_encoded_object [OF assms])
  moreover from encode_object_shape [OF assms(1)] obtain pre where
    "bo_bytes obj = pre @ encode_trailer E (bo_footer_offset obj) (bo_footer_length obj)"
    "bo_checksum obj = checksum64 E (bo_bytes obj)"
    by (metis append.assoc)
  ultimately show ?thesis by (cases obj) (simp add: open_object_def)
qed

theorem encoded_object_reopens_witness:
  "\<exists>obj. encode_object demo_env demo_meta 40 0 1 demo_entries = Some obj \<and>
     open_object demo_env (bo_bytes obj) = Some obj"
  using demo_object encoded_object_reopens [OF _ demo_chunk_ok _ _ demo_env_lz4(1), of demo_meta 40 0 1]
  by (auto simp: demo_meta_def)

lemma footer_find_iff:
  assumes "sorted_wrt (block_key_less E) (map fe_key fs)"
  shows "footer_find E fs k = Some f \<longleftrightarrow> f \<in> set fs \<and> fe_key f = k"
proof -
  have "binary_search (block_key_less E) fe_key k fs 0 (length fs) = Some i \<longleftrightarrow> i < length fs \<and> fe_key (fs ! i) = k" for i
    using block_order.binary_search_iff [OF assms, of "length fs" k 0 i] by simp
  then show ?thesis by (auto simp: footer_find_def in_set_conv_nth)
qed

text \<open>
  C2: Indexed reads return what was stored: looking a stored key up in the footer yields an
  index entry whose byte range opens to exactly the entry that was stored under that key, and a
  key that was not stored is not found.
\<close>

theorem indexed_read_returns_stored_entry:
  assumes "encode_object E meta oid chunk_index chunk_count entries = Some obj"
    and "chunk_ok E entries" "bm_min_seq meta \<le> bm_max_seq meta" "chunk_index < chunk_count"
    and "lz4_roundtrips E"
  shows "do { f \<leftarrow> footer_find E (bo_footer obj) k; open_entry E (entry_bytes (bo_bytes obj) f) } =
    find (\<lambda>e. entry_key e = k) entries"
proof -
  from encode_object_shape [OF assms(1)] obtain pos body where
    enc: "encode_entries E pos entries = Some (body, bo_footer obj)" by metis
  have keys: "map fe_key (bo_footer obj) = map entry_key entries"
    by (rule encode_entries_index(1) [OF enc])
  have opens: "map (\<lambda>f. open_entry E (entry_bytes (bo_bytes obj) f)) (bo_footer obj) = map Some entries"
    by (rule scan_encoded_object(2) [OF assms])
  have sorted: "sorted_wrt (block_key_less E) (map fe_key (bo_footer obj))"
    using assms(2) by (simp add: keys chunk_ok_def)
  show ?thesis
  proof (cases "footer_find E (bo_footer obj) k")
    case None
    then have "\<not> (\<exists>f \<in> set (bo_footer obj). fe_key f = k)" using footer_find_iff [OF sorted, of k] by simp
    then have "k \<notin> set (map entry_key entries)" by (auto simp: keys [symmetric])
    then have "find (\<lambda>e. entry_key e = k) entries = None" by (auto simp: find_None_iff)
    then show ?thesis by (simp add: None)
  next
    case (Some f)
    then obtain i where i: "i < length (bo_footer obj)" "bo_footer obj ! i = f" "fe_key f = k"
      by (auto simp: footer_find_iff [OF sorted] in_set_conv_nth)
    have len: "length (bo_footer obj) = length entries" using keys by (metis length_map)
    have ek: "entry_key (entries ! j) = k \<longleftrightarrow> j = i" if "j < length entries" for j
    proof -
      have "distinct (map entry_key entries)"
        using block_order.sorted_distinct sorted by (simp add: keys)
      moreover have "entry_key (entries ! i) = k" using keys i len by (metis nth_map)
      ultimately show ?thesis using that i(1) len by (metis distinct_conv_nth length_map nth_map)
    qed
    have "find (\<lambda>e. entry_key e = k) entries = Some (entries ! i)"
      unfolding find_Some_iff using i(1) ek by (intro exI [of _ i]) (simp add: len)
    moreover have "open_entry E (entry_bytes (bo_bytes obj) f) = Some (entries ! i)"
      using arg_cong [OF opens, of "\<lambda>xs. xs ! i"] i len by simp
    ultimately show ?thesis by (simp add: Some)
  qed
qed

theorem indexed_read_returns_stored_entry_witness:
  "\<exists>obj. encode_object demo_env demo_meta 40 0 1 demo_entries = Some obj \<and>
     do { f \<leftarrow> footer_find demo_env (bo_footer obj) \<lparr> bk_space = BS_Vmm, bk_block = 0 \<rparr>;
          open_entry demo_env (entry_bytes (bo_bytes obj) f) } =
     Some (Tombstone_Entry \<lparr> bk_space = BS_Vmm, bk_block = 0 \<rparr> 9)"
proof -
  obtain obj where obj: "encode_object demo_env demo_meta 40 0 1 demo_entries = Some obj"
    using demo_object by blast
  have "bm_min_seq demo_meta \<le> bm_max_seq demo_meta" "(0 :: u32) < 1" by (simp_all add: demo_meta_def)
  from indexed_read_returns_stored_entry [OF obj demo_chunk_ok this demo_env_lz4(1)] obj
  show ?thesis by (simp add: demo_entries_def)
qed

section \<open>What a scan proves of arbitrary bytes\<close>

lemma scan_entries_sound:
  "scan_entries E bs fo expected fs = Some fin \<Longrightarrow>
   (\<forall>f \<in> set fs. \<exists>e. open_entry E (entry_bytes bs f) = Some e \<and> entry_key e = fe_key f \<and>
      entry_generation e = fe_generation f \<and> kind_of_entry e = fe_kind f \<and>
      entry_value_checksum E e = fe_value_checksum f) \<and>
   fin = expected + (\<Sum>f\<leftarrow>fs. unat (fe_length f)) \<and> (fs \<noteq> [] \<longrightarrow> fin \<le> fo)"
proof (induction fs arbitrary: expected)
  case Nil
  then show ?case by simp
next
  case (Cons f fs)
  from Cons.prems obtain e where
    "open_entry E (entry_bytes bs f) = Some e" "entry_key e = fe_key f" "entry_generation e = fe_generation f"
    "kind_of_entry e = fe_kind f" "entry_value_checksum E e = fe_value_checksum f"
    and rest: "scan_entries E bs fo (expected + unat (fe_length f)) fs = Some fin"
    and le: "expected + unat (fe_length f) \<le> fo"
    by (auto simp: bind_eq_Some_conv Let_def usize_checked_add_def entry_bytes_def split: if_splits)
  with Cons.IH [OF rest] show ?case by (cases "fs = []") auto
qed

lemma slice_append:
  assumes "a \<le> b" "b \<le> c"
  shows "byte_slice a b bs @ byte_slice b c bs = byte_slice a c bs"
proof -
  have "take (c - a) (drop a bs) = take ((b - a) + (c - b)) (drop a bs)" using assms by simp
  also have "\<dots> = take (b - a) (drop a bs) @ take (c - b) (drop b bs)" using assms by (simp only: take_add drop_drop) simp
  finally show ?thesis by (simp add: byte_slice_def)
qed

text \<open>The entries a scan accepts lie one after the other, from the first expected offset to the last.\<close>

lemma scan_entries_tile:
  "scan_entries E bs fo expected fs = Some fin \<Longrightarrow>
   (\<forall>i < length fs. unat (fe_offset (fs ! i)) = expected + (\<Sum>f\<leftarrow>take i fs. unat (fe_length f))) \<and>
   expected \<le> fin \<and> concat (map (entry_bytes bs) fs) = byte_slice expected fin bs"
proof (induction fs arbitrary: expected)
  case Nil
  then show ?case by (simp add: byte_slice_def)
next
  case (Cons f fs)
  let ?stop = "expected + unat (fe_length f)"
  from Cons.prems have off: "unat (fe_offset f) = expected" and rest: "scan_entries E bs fo ?stop fs = Some fin"
    by (auto simp: bind_eq_Some_conv Let_def usize_checked_add_def split: if_splits)
  note IH = Cons.IH [OF rest]
  have "unat (fe_offset ((f # fs) ! i)) = expected + (\<Sum>g\<leftarrow>take i (f # fs). unat (fe_length g))"
    if "i < length (f # fs)" for i
    using that IH off by (cases i) (simp_all add: add.assoc)
  moreover have "entry_bytes bs f @ byte_slice ?stop fin bs = byte_slice expected fin bs"
    using IH by (simp add: entry_bytes_def off slice_append)
  ultimately show ?case using IH by simp
qed


text \<open>The pieces a successful scan has cut the bytes into.\<close>

lemma scan_object_pieces:
  assumes "scan_object E bs = Some (header, footer)"
  obtains off len :: u32 where "header_valid E header" "encode_header E header = Some (take HEADER_BYTES bs)"
    "open_footer E (byte_slice (unat off) (unat off + unat len) bs) = Some footer"
    "drop (unat off + unat len) bs = encode_trailer E off len" "unat off + unat len + TRAILER_BYTES = length bs"
    "length footer = unat (bh_entry_count header)" "footer \<noteq> []"
    "fe_key (hd footer) = bh_first_key header" "fe_key (last footer) = bh_last_key header"
    "scan_entries E bs (unat off) HEADER_BYTES footer = Some (unat off)"
proof -
  from assms obtain n and off len :: u32 where hd: "open_header E bs = Some (header, n)"
    and tr: "open_trailer E (drop (length bs - TRAILER_BYTES) bs) = Some (off, len)"
    and ft: "open_footer E (byte_slice (unat off) (unat off + unat len) bs) = Some footer"
    and tot: "unat off + unat len + TRAILER_BYTES = length bs"
    and rest: "length footer = unat (bh_entry_count header)" "footer \<noteq> []"
      "fe_key (hd footer) = bh_first_key header" "fe_key (last footer) = bh_last_key header"
    and sc: "scan_entries E bs (unat off) n footer = Some (unat off)"
    unfolding scan_object_def
    by (clarsimp simp: Let_def usize_checked_add_def split: if_splits elim!: bind_SomeE)
  have "length bs - TRAILER_BYTES = unat off + unat len" using tot by simp
  then have "drop (unat off + unat len) bs = encode_trailer E off len"
    using tr by (simp only: open_trailer_iff)
  then show ?thesis using that open_header_sound [OF hd] ft tot rest sc by simp
qed

text \<open>
  C3: A scan that succeeds vouches for the whole object: the header passes its checks, the index
  is strictly ascending with one entry per header count and begins and ends at the header's first and
  last key, and every index entry opens to an entry that agrees with it in key, generation, kind and
  value checksum.  The entries tile the object exactly: the first starts where the header ends, each
  next one where its predecessor ends, and the bytes are the encoded header, the entries in index
  order, the encoded footer and a trailer that points at it, with nothing before, between or after.
\<close>

theorem scan_vouches_for_object:
  assumes "scan_object E bs = Some (header, footer)"
  shows "header_valid E header \<and> footer_ok E footer \<and> length footer = unat (bh_entry_count header) \<and>
    fe_key (hd footer) = bh_first_key header \<and> fe_key (last footer) = bh_last_key header \<and>
    (\<forall>f \<in> set footer. \<exists>e. open_entry E (entry_bytes bs f) = Some e \<and> entry_key e = fe_key f \<and>
      entry_generation e = fe_generation f \<and> kind_of_entry e = fe_kind f \<and>
      entry_value_checksum E e = fe_value_checksum f) \<and>
    (\<forall>i < length footer. unat (fe_offset (footer ! i)) =
      HEADER_BYTES + (\<Sum>f\<leftarrow>take i footer. unat (fe_length f))) \<and>
    length bs = HEADER_BYTES + (\<Sum>f\<leftarrow>footer. unat (fe_length f)) +
      (FRAME_HEADER + FOOTER_PREFIX_BYTES + length footer * FOOTER_ENTRY_BYTES) + TRAILER_BYTES \<and>
    (\<exists>head ft off len. encode_header E header = Some head \<and> encode_footer E footer = Some ft \<and>
      bs = head @ concat (map (entry_bytes bs) footer) @ ft @ encode_trailer E off len \<and>
      unat off = HEADER_BYTES + (\<Sum>f\<leftarrow>footer. unat (fe_length f)) \<and> unat len = length ft)"
proof -
  from assms obtain off len :: u32 where hv: "header_valid E header"
    and head: "encode_header E header = Some (take HEADER_BYTES bs)"
    and ft: "open_footer E (byte_slice (unat off) (unat off + unat len) bs) = Some footer"
    and tr: "drop (unat off + unat len) bs = encode_trailer E off len"
    and tot: "unat off + unat len + TRAILER_BYTES = length bs"
    and n: "length footer = unat (bh_entry_count header)"
    and keys: "fe_key (hd footer) = bh_first_key header" "fe_key (last footer) = bh_last_key header"
    and sc: "scan_entries E bs (unat off) HEADER_BYTES footer = Some (unat off)"
    by (rule scan_object_pieces)
  let ?ft = "byte_slice (unat off) (unat off + unat len) bs"
  have enc: "encode_footer E footer = Some ?ft" and fok: "footer_ok E footer" using ft by (simp_all only: open_footer_iff)
  have ftl: "length ?ft = unat len" using tot by (simp add: byte_slice_def)
  then have len: "unat len = FRAME_HEADER + FOOTER_PREFIX_BYTES + length footer * FOOTER_ENTRY_BYTES"
    using encode_footer_length [OF enc] by simp
  have off: "unat off = HEADER_BYTES + (\<Sum>f\<leftarrow>footer. unat (fe_length f))"
    using scan_entries_sound [OF sc] by blast
  note tile = scan_entries_tile [OF sc]
  have "take HEADER_BYTES bs @ byte_slice HEADER_BYTES (unat off) bs = take (unat off) bs"
    using slice_append [of 0 HEADER_BYTES "unat off" bs] tile by (simp add: byte_slice_def)
  moreover have "take (unat off) bs @ ?ft = take (unat off + unat len) bs"
    using slice_append [of 0 "unat off" "unat off + unat len" bs] by (simp add: byte_slice_def)
  moreover have "take (unat off + unat len) bs @ encode_trailer E off len = bs"
    unfolding tr [symmetric] by (rule append_take_drop_id)
  ultimately have bs: "bs = take HEADER_BYTES bs @ concat (map (entry_bytes bs) footer) @ ?ft @ encode_trailer E off len"
    by (simp only: tile append_assoc [symmetric])
  have total: "length bs = HEADER_BYTES + (\<Sum>f\<leftarrow>footer. unat (fe_length f)) +
      (FRAME_HEADER + FOOTER_PREFIX_BYTES + length footer * FOOTER_ENTRY_BYTES) + TRAILER_BYTES"
    using tot by (simp only: off len)
  show ?thesis
    by (intro conjI hv fok n keys scan_entries_sound [OF sc, THEN conjunct1] tile [THEN conjunct1] total
        exI [of _ "take HEADER_BYTES bs"] exI [of _ ?ft] exI [of _ off] exI [of _ len] head enc bs off ftl [symmetric])
qed

theorem scan_vouches_for_object_witness:
  "\<exists>bs header footer. scan_object demo_env bs = Some (header, footer) \<and> header_valid demo_env header \<and>
     footer_ok demo_env footer \<and> length footer = unat (bh_entry_count header) \<and> length footer = 2 \<and>
     unat (fe_offset (footer ! 0)) = HEADER_BYTES \<and>
     unat (fe_offset (footer ! 1)) = HEADER_BYTES + unat (fe_length (footer ! 0))"
proof -
  obtain obj where obj: "encode_object demo_env demo_meta 40 0 1 demo_entries = Some obj"
    using demo_object by blast
  have "bm_min_seq demo_meta \<le> bm_max_seq demo_meta" "(0 :: u32) < 1" by (simp_all add: demo_meta_def)
  note scan = scan_encoded_object [OF obj demo_chunk_ok this demo_env_lz4(1)]
  have n: "length (bo_footer obj) = 2"
    using arg_cong [OF scan(2), of length] by (simp add: demo_entries_def)
  have t: "take 1 (bo_footer obj) = [bo_footer obj ! 0]" using n by (cases "bo_footer obj") simp_all
  note v = scan_vouches_for_object [OF scan(1)]
  then have o: "\<forall>i < length (bo_footer obj). unat (fe_offset (bo_footer obj ! i)) =
      HEADER_BYTES + (\<Sum>f\<leftarrow>take i (bo_footer obj). unat (fe_length f))"
    by (elim conjE)
  have "unat (fe_offset (bo_footer obj ! 0)) = HEADER_BYTES"
    "unat (fe_offset (bo_footer obj ! 1)) = HEADER_BYTES + unat (fe_length (bo_footer obj ! 0))"
    using o [rule_format, of 0] o [rule_format, of 1] n t by simp_all
  moreover have "header_valid demo_env (bo_header obj)" "footer_ok demo_env (bo_footer obj)"
    "length (bo_footer obj) = unat (bh_entry_count (bo_header obj))"
    by (rule v [THEN conjunct1] v [THEN conjunct2, THEN conjunct1] v [THEN conjunct2, THEN conjunct2, THEN conjunct1])+
  ultimately show ?thesis using scan(1) n by blast
qed

end
