(* ===== verification/Blx_Batch.thy ===== *)
theory Blx_Batch
  imports Blx_Format
begin

text \<open>
  Building, splitting and merging BLX objects (\<^verbatim>\<open>crates/core/src/blx.rs\<close>): the batch builder with
  its newest-generation rule, the chunking loop of \<^verbatim>\<open>finish\<close>, the object-identifier check, the
  compactor, and the incremental state checksum.

  The lemmas show that the builder implements the abstract \<open>newest_of\<close> selection, that chunking
  neither loses, repeats nor reorders entries and respects sizes and partitions, that \<^verbatim>\<open>finish\<close>
  does not panic when the identifier check passes, and that compaction keeps exactly the newest
  entry of every key.
\<close>

unbundle bit_operations_syntax

section \<open>The builder\<close>

record batch_builder =
  bb_meta :: batch_meta
  bb_entries :: "(block_key, blx_entry) btree_map"
  bb_split_at_file_partitions :: bool

definition builder_new :: "batch_meta \<Rightarrow> batch_builder option" where
  "builder_new meta =
     do { guard_opt (bm_min_seq meta \<le> bm_max_seq meta);
          Some \<lparr> bb_meta = meta, bb_entries = [], bb_split_at_file_partitions = False \<rparr> }"

definition builder_new_partitioned :: "batch_meta \<Rightarrow> batch_builder option" where
  "builder_new_partitioned meta =
     do { b \<leftarrow> builder_new meta; Some (b\<lparr> bb_split_at_file_partitions := True \<rparr>) }"

text \<open>The insertion rule shared by the builder and the compactor: replace unless the old one is newer.\<close>

definition insert_newest ::
  "env \<Rightarrow> blx_entry \<Rightarrow> (block_key, blx_entry) btree_map \<Rightarrow> (block_key, blx_entry) btree_map" where
  "insert_newest E e m =
     (if (case map_of m (entry_key e) of None \<Rightarrow> True | Some old \<Rightarrow> entry_generation old \<le> entry_generation e)
      then bm_insert (block_key_less E) (entry_key e) e m else m)"

definition builder_insert :: "env \<Rightarrow> blx_entry \<Rightarrow> batch_builder \<Rightarrow> batch_builder" where
  "builder_insert E e b = b\<lparr> bb_entries := insert_newest E e (bb_entries b) \<rparr>"

definition add_data :: "env \<Rightarrow> block_key \<Rightarrow> gen_no \<Rightarrow> bytes \<Rightarrow> batch_builder \<Rightarrow> batch_builder option" where
  "add_data E key generation bs b =
     do { guard_opt (length bs = env_page_size E);
          Some (builder_insert E (Data_Entry key generation bs) b) }"

definition add_tombstone :: "env \<Rightarrow> block_key \<Rightarrow> gen_no \<Rightarrow> batch_builder \<Rightarrow> batch_builder" where
  "add_tombstone E key generation b = builder_insert E (Tombstone_Entry key generation) b"

definition should_split ::
  "env \<Rightarrow> bool \<Rightarrow> nat \<Rightarrow> (u32 \<times> u16) option \<Rightarrow> blx_entry \<Rightarrow> bool \<Rightarrow> bool" where
  "should_split E current_empty estimated part e split_at_file_partitions \<longleftrightarrow>
     \<not> current_empty \<and>
     ((split_at_file_partitions \<and> part \<noteq> Some (file_partition E (entry_key e))) \<or>
      estimated + encoded_entry_upper_bound E e + FOOTER_ENTRY_BYTES + FRAME_HEADER + FOOTER_PREFIX_BYTES
        > TARGET_FILE_BYTES)"

text \<open>The counting loop of \<^verbatim>\<open>object_ids_fit\<close>.\<close>

fun count_chunks ::
  "env \<Rightarrow> bool \<Rightarrow> nat \<Rightarrow> bool \<Rightarrow> nat \<Rightarrow> (u32 \<times> u16) option \<Rightarrow> blx_entry list \<Rightarrow> nat" where
  "count_chunks E split chunks current_empty estimated part [] = chunks"
| "count_chunks E split chunks current_empty estimated part (e # es) =
     (let (chunks, estimated) =
        (if should_split E current_empty estimated part e split
         then (chunks + 1, HEADER_BYTES + TRAILER_BYTES) else (chunks, estimated)) in
      count_chunks E split chunks False
        (estimated + (encoded_entry_upper_bound E e + FOOTER_ENTRY_BYTES))
        (Some (file_partition E (entry_key e))) es)"

definition object_ids_fit :: "env \<Rightarrow> batch_builder \<Rightarrow> bool" where
  "object_ids_fit E b =
     (let es = bm_values (bb_entries b);
          chunks = count_chunks E (bb_split_at_file_partitions b) (if es = [] then 0 else 1) True
                     (HEADER_BYTES + TRAILER_BYTES) None es in
      chunks = 0 \<or> checked_add (bm_first_object_id (bb_meta b)) (of_nat (chunks - 1)) \<noteq> None)"

text \<open>The chunking loop of \<^verbatim>\<open>finish\<close>: the finished chunks and the one being filled.\<close>

fun chunk_loop ::
  "env \<Rightarrow> bool \<Rightarrow> blx_entry list list \<Rightarrow> blx_entry list \<Rightarrow> nat \<Rightarrow> (u32 \<times> u16) option \<Rightarrow> blx_entry list \<Rightarrow>
   blx_entry list list \<times> blx_entry list" where
  "chunk_loop E split chunks current estimated part [] = (chunks, current)"
| "chunk_loop E split chunks current estimated part (e # es) =
     (let (chunks, current, estimated) =
        (if should_split E (current = []) estimated part e split
         then (chunks @ [current], [], HEADER_BYTES + TRAILER_BYTES) else (chunks, current, estimated)) in
      chunk_loop E split chunks (current @ [e])
        (estimated + (encoded_entry_upper_bound E e + FOOTER_ENTRY_BYTES))
        (Some (file_partition E (entry_key e))) es)"

definition batch_chunks :: "env \<Rightarrow> bool \<Rightarrow> blx_entry list \<Rightarrow> blx_entry list list" where
  "batch_chunks E split es =
     (let (chunks, current) = chunk_loop E split [] [] (HEADER_BYTES + TRAILER_BYTES) None es in
      if current \<noteq> [] then chunks @ [current] else chunks)"

text \<open>The enumerating map of \<^verbatim>\<open>finish\<close>, from chunk number \<open>i\<close> on.\<close>

fun encode_chunks :: "env \<Rightarrow> batch_meta \<Rightarrow> u32 \<Rightarrow> nat \<Rightarrow> blx_entry list list \<Rightarrow> blx_object list option" where
  "encode_chunks E meta chunk_count i [] = Some []"
| "encode_chunks E meta chunk_count i (c # cs) =
     do { guard_opt (fits_u32 i);
          oid \<leftarrow> checked_add (bm_first_object_id meta) (of_nat i);
          obj \<leftarrow> encode_object E meta oid (of_nat i) chunk_count c;
          objs \<leftarrow> encode_chunks E meta chunk_count (i + 1) cs;
          Some (obj # objs) }"

definition builder_finish :: "env \<Rightarrow> batch_builder \<Rightarrow> blx_object list option" where
  "builder_finish E b =
     (if bb_entries b = [] then Some []
      else let chunks = batch_chunks E (bb_split_at_file_partitions b) (bm_values (bb_entries b)) in
        do { guard_opt (fits_u32 (length chunks));
             encode_chunks E (bb_meta b) (of_nat (length chunks)) 0 chunks })"

section \<open>The compactor\<close>

fun compact_entries ::
  "env \<Rightarrow> bytes \<Rightarrow> footer_entry list \<Rightarrow> (block_key, blx_entry) btree_map \<Rightarrow>
   (block_key, blx_entry) btree_map option" where
  "compact_entries E bs [] newest = Some newest"
| "compact_entries E bs (f # fs) newest =
     do { let start = unat (fe_offset f);
          end_off \<leftarrow> usize_checked_add start (unat (fe_length f));
          guard_opt (end_off \<le> length bs);
          e \<leftarrow> open_entry E (byte_slice start end_off bs);
          compact_entries E bs fs (insert_newest E e newest) }"

definition compactor_add_object ::
  "env \<Rightarrow> bytes \<Rightarrow> (block_key, blx_entry) btree_map \<Rightarrow> (block_key, blx_entry) btree_map option" where
  "compactor_add_object E bs newest =
     do { (_, footer) \<leftarrow> scan_object E bs; compact_entries E bs footer newest }"

text \<open>The loop of \<^verbatim>\<open>BlxCompactor::finish\<close>; \<open>None\<close> is the size assertion of \<^verbatim>\<open>add_data\<close>.\<close>

fun compactor_fill :: "env \<Rightarrow> bool \<Rightarrow> blx_entry list \<Rightarrow> batch_builder \<Rightarrow> batch_builder option" where
  "compactor_fill E retain [] b = Some b"
| "compactor_fill E retain (Data_Entry k g bs # es) b =
     do { b \<leftarrow> add_data E k g bs b; compactor_fill E retain es b }"
| "compactor_fill E retain (Tombstone_Entry k g # es) b =
     compactor_fill E retain es (if retain then add_tombstone E k g b else b)"

definition compactor_finish ::
  "env \<Rightarrow> batch_meta \<Rightarrow> bool \<Rightarrow> (block_key, blx_entry) btree_map \<Rightarrow> blx_object list option" where
  "compactor_finish E meta retain newest =
     do { b \<leftarrow> builder_new_partitioned meta;
          b \<leftarrow> compactor_fill E retain (bm_values newest) b;
          builder_finish E b }"

fun compactor_add_all ::
  "env \<Rightarrow> blx_object list \<Rightarrow> (block_key, blx_entry) btree_map \<Rightarrow> (block_key, blx_entry) btree_map option" where
  "compactor_add_all E [] newest = Some newest"
| "compactor_add_all E (obj # objs) newest =
     do { newest \<leftarrow> compactor_add_object E (bo_bytes obj) newest; compactor_add_all E objs newest }"

definition compact_objects ::
  "env \<Rightarrow> batch_meta \<Rightarrow> blx_object list \<Rightarrow> bool \<Rightarrow> (unit, blx_object list) outcome" where
  "compact_objects E meta inputs retain =
     (case compactor_add_all E inputs [] of
        None \<Rightarrow> Failed ()
      | Some newest \<Rightarrow>
          (case compactor_finish E meta retain newest of None \<Rightarrow> Panicked | Some objs \<Rightarrow> Returned objs))"

section \<open>The state checksum\<close>

definition state_contribution :: "env \<Rightarrow> block_key \<Rightarrow> gen_no \<Rightarrow> u64 \<Rightarrow> u64" where
  "state_contribution E key generation value_checksum =
     checksum64 E (enc_block_key key @ enc_u64 generation @ enc_u64 value_checksum)"

definition replace_state_block ::
  "env \<Rightarrow> u64 \<Rightarrow> (block_key, gen_no \<times> u64) btree_map \<Rightarrow> block_key \<Rightarrow> (gen_no \<times> u64) option \<Rightarrow>
   u64 \<times> (block_key, gen_no \<times> u64) btree_map" where
  "replace_state_block E checksum blocks key v =
     (let (checksum, blocks) =
        (case map_of blocks key of
           Some (g, c) \<Rightarrow> (checksum XOR state_contribution E key g c, bm_remove key blocks)
         | None \<Rightarrow> (checksum, blocks)) in
      case v of
        Some (g, c) \<Rightarrow>
          (checksum XOR state_contribution E key g c, bm_insert (block_key_less E) key (g, c) blocks)
      | None \<Rightarrow> (checksum, blocks))"

section \<open>Newest wins\<close>

text \<open>
  The abstract merge: scanning entries in order, an entry becomes the selected one of its key
  unless a strictly newer generation is already selected.
\<close>

definition supersedes :: "blx_entry \<Rightarrow> blx_entry option \<Rightarrow> bool" where
  "supersedes e old \<longleftrightarrow> (case old of None \<Rightarrow> True | Some o' \<Rightarrow> entry_generation o' \<le> entry_generation e)"

fun newest_of :: "blx_entry list \<Rightarrow> block_key \<Rightarrow> blx_entry option" where
  "newest_of [] k = None"
| "newest_of (e # es) k =
     (case newest_of es k of
        Some later \<Rightarrow> if entry_key e = k \<and> entry_generation later < entry_generation e then Some e else Some later
      | None \<Rightarrow> if entry_key e = k then Some e else None)"

lemma newest_of_sound:
  "newest_of es k = Some e \<Longrightarrow>
   e \<in> set es \<and> entry_key e = k \<and> (\<forall>e' \<in> set es. entry_key e' = k \<longrightarrow> entry_generation e' \<le> entry_generation e)"
proof (induction es arbitrary: e)
  case Nil
  then show ?case by simp
next
  case (Cons x es)
  show ?case
  proof (cases "newest_of es k")
    case None
    then have "\<forall>e' \<in> set es. entry_key e' \<noteq> k"
    proof (induction es)
      case (Cons y ys)
      then show ?case by (auto split: option.splits if_splits)
    qed simp
    then show ?thesis using Cons.prems None by (auto split: if_splits)
  next
    case (Some l)
    with Cons.IH [OF Some] Cons.prems show ?thesis by (auto split: if_splits simp: not_less)
  qed
qed

lemma newest_of_None: "newest_of es k = None \<longleftrightarrow> (\<forall>e \<in> set es. entry_key e \<noteq> k)"
  by (induction es) (auto split: option.splits)

lemma newest_of_append1:
  "newest_of (es @ [e]) k =
   (if entry_key e = k \<and> supersedes e (newest_of es k) then Some e else newest_of es k)"
proof (induction es)
  case Nil
  then show ?case by (simp add: supersedes_def)
next
  case (Cons x es)
  have key: "entry_key e' = k" if "newest_of es k = Some e'" for e'
    using newest_of_sound [OF that] by simp
  show ?case using Cons.IH by (auto simp: supersedes_def split: option.splits if_splits)
qed

text \<open>The map invariant of builder and compactor: ascending keys, each entry under its own key.\<close>

definition entry_map_ok :: "env \<Rightarrow> (block_key, blx_entry) btree_map \<Rightarrow> bool" where
  "entry_map_ok E m \<longleftrightarrow> bm_ordered (block_key_less E) m \<and> (\<forall>(k, e) \<in> set m. entry_key e = k)"

lemma entry_map_ok_Nil [simp]: "entry_map_ok E []"
  by (simp add: entry_map_ok_def bm_ordered_def)

lemma map_of_insert_newest:
  "map_of (insert_newest E e m) =
   (if supersedes e (map_of m (entry_key e)) then (map_of m)(entry_key e \<mapsto> e) else map_of m)"
  by (simp add: insert_newest_def supersedes_def block_order.map_of_insert)

lemma entry_map_okI:
  assumes "bm_ordered (block_key_less E) m" "\<And>k e. map_of m k = Some e \<Longrightarrow> entry_key e = k"
  shows "entry_map_ok E m"
  using assms(2) by (auto simp: entry_map_ok_def assms(1) block_order.get_iff_mem [OF assms(1)])

lemma entry_map_okD:
  assumes "entry_map_ok E m"
  shows "bm_ordered (block_key_less E) m" "map_of m k = Some e \<Longrightarrow> entry_key e = k"
  using assms by (auto simp: entry_map_ok_def dest: map_of_SomeD)

lemma insert_newest_ok:
  assumes "entry_map_ok E m"
  shows "entry_map_ok E (insert_newest E e m)"
proof (rule entry_map_okI)
  show "bm_ordered (block_key_less E) (insert_newest E e m)"
    using entry_map_okD(1) [OF assms] by (simp add: insert_newest_def block_order.ordered_insert)
  show "entry_key v = k" if "map_of (insert_newest E e m) k = Some v" for k v
    using that entry_map_okD(2) [OF assms, of k v] by (auto simp: map_of_insert_newest split: if_splits)
qed

definition merge_newest :: "env \<Rightarrow> blx_entry list \<Rightarrow> (block_key, blx_entry) btree_map \<Rightarrow> (block_key, blx_entry) btree_map" where
  "merge_newest E es m = foldl (\<lambda>m e. insert_newest E e m) m es"

lemma merge_newest_ok: "entry_map_ok E m \<Longrightarrow> entry_map_ok E (merge_newest E es m)"
  unfolding merge_newest_def by (induction es arbitrary: m) (simp_all add: insert_newest_ok)

lemma map_of_merge_newest: "map_of (merge_newest E es []) k = newest_of es k"
proof (induction es rule: rev_induct)
  case Nil
  then show ?case by (simp add: merge_newest_def)
next
  case (snoc e es)
  have "map_of (merge_newest E (es @ [e]) []) k = map_of (insert_newest E e (merge_newest E es [])) k"
    by (simp add: merge_newest_def)
  also have "\<dots> = newest_of (es @ [e]) k"
    using snoc by (cases "entry_key e = k") (auto simp: map_of_insert_newest newest_of_append1)
  finally show ?case .
qed

lemma merge_newest_values:
  "e \<in> set (bm_values (merge_newest E es [])) \<longleftrightarrow> newest_of es (entry_key e) = Some e"
proof -
  have ok: "entry_map_ok E (merge_newest E es [])" by (simp add: merge_newest_ok)
  have "e \<in> set (bm_values (merge_newest E es [])) \<longleftrightarrow> (\<exists>k. (k, e) \<in> set (merge_newest E es []))"
    by (force simp: bm_values_def)
  also have "\<dots> \<longleftrightarrow> (entry_key e, e) \<in> set (merge_newest E es [])"
    using ok by (auto simp: entry_map_ok_def)
  also have "\<dots> \<longleftrightarrow> newest_of es (entry_key e) = Some e"
    by (simp add: block_order.get_iff_mem [OF entry_map_okD(1) [OF ok], symmetric] map_of_merge_newest)
  finally show ?thesis .
qed

lemma entry_map_values_sorted:
  "entry_map_ok E m \<Longrightarrow> map entry_key (bm_values m) = map fst m \<and>
   sorted_wrt (block_key_less E) (map entry_key (bm_values m))"
proof -
  assume ok: "entry_map_ok E m"
  then have "map entry_key (bm_values m) = map fst m"
    by (auto simp: entry_map_ok_def bm_values_def)
  then show ?thesis using ok by (simp add: entry_map_ok_def bm_ordered_def)
qed

section \<open>Chunking\<close>

definition chunk_size :: "env \<Rightarrow> blx_entry list \<Rightarrow> nat" where
  "chunk_size E c = (\<Sum>e\<leftarrow>c. encoded_entry_upper_bound E e + FOOTER_ENTRY_BYTES)"

lemma chunk_size_simps [simp]:
  "chunk_size E [] = 0"
  "chunk_size E (c @ [e]) = chunk_size E c + (encoded_entry_upper_bound E e + FOOTER_ENTRY_BYTES)"
  by (simp_all add: chunk_size_def)

text \<open>
  A chunk within limits: its estimate stays below the target unless it holds a single entry, and
  a partitioned batch keeps it inside one storage-file partition.
\<close>

definition chunk_limits :: "env \<Rightarrow> bool \<Rightarrow> blx_entry list \<Rightarrow> bool" where
  "chunk_limits E split c \<longleftrightarrow>
     (length c \<le> 1 \<or>
      HEADER_BYTES + TRAILER_BYTES + chunk_size E c + FRAME_HEADER + FOOTER_PREFIX_BYTES \<le> TARGET_FILE_BYTES) \<and>
     (split \<longrightarrow> (\<forall>a \<in> set c. \<forall>b \<in> set c. file_partition E (entry_key a) = file_partition E (entry_key b)))"

lemma chunk_limits_partition:
  "chunk_limits E split c \<Longrightarrow> split \<Longrightarrow> a \<in> set c \<Longrightarrow> b \<in> set c \<Longrightarrow>
   file_partition E (entry_key a) = file_partition E (entry_key b)"
  unfolding chunk_limits_def by blast

lemma chunk_limits_extend:
  assumes "\<not> should_split E (current = []) est part e split"
    and "est = HEADER_BYTES + TRAILER_BYTES + chunk_size E current"
    and "current \<noteq> [] \<Longrightarrow> part = Some (file_partition E (entry_key (last current)))"
    and "chunk_limits E split current"
  shows "chunk_limits E split (current @ [e])"
proof (cases "current = []")
  case True
  then show ?thesis by (simp add: chunk_limits_def)
next
  case ne: False
  have "split \<longrightarrow> file_partition E (entry_key (last current)) = file_partition E (entry_key e)"
    using assms(1,3) ne by (auto simp: should_split_def)
  moreover have "HEADER_BYTES + TRAILER_BYTES + chunk_size E (current @ [e]) + FRAME_HEADER +
      FOOTER_PREFIX_BYTES \<le> TARGET_FILE_BYTES"
    using assms(1,2) ne by (simp add: should_split_def)
  moreover have "split \<longrightarrow> (\<forall>a \<in> set current. file_partition E (entry_key a) = file_partition E (entry_key (last current)))"
    using assms(4) ne unfolding chunk_limits_def by (meson last_in_set)
  ultimately show ?thesis unfolding chunk_limits_def by simp
qed

lemma chunk_limits_single: "chunk_limits E split [e]"
  by (simp add: chunk_limits_def)

definition chunks_within :: "env \<Rightarrow> bool \<Rightarrow> blx_entry list list \<Rightarrow> bool" where
  "chunks_within E split cs \<longleftrightarrow> (\<forall>c \<in> set cs. c \<noteq> [] \<and> chunk_limits E split c)"

lemma chunk_loop_spec:
  assumes "chunk_loop E split chunks current est part es = (cs, cur)"
    and "est = HEADER_BYTES + TRAILER_BYTES + chunk_size E current"
    and "current \<noteq> [] \<Longrightarrow> part = Some (file_partition E (entry_key (last current)))"
    and "chunk_limits E split current" "chunks_within E split chunks"
  shows "concat cs @ cur = concat chunks @ current @ es \<and> (cur = [] \<longrightarrow> current = [] \<and> es = []) \<and>
    chunk_limits E split cur \<and> chunks_within E split cs \<and>
    count_chunks E split n (current = []) est part es + length chunks = n + length cs"
  using assms
proof (induction es arbitrary: n chunks current est part)
  case Nil
  then show ?case by simp
next
  case (Cons e es)
  show ?case
  proof (cases "should_split E (current = []) est part e split")
    case True
    then have ne: "current \<noteq> []" by (simp add: should_split_def)
    have loop: "chunk_loop E split (chunks @ [current]) [e]
        (HEADER_BYTES + TRAILER_BYTES + (encoded_entry_upper_bound E e + FOOTER_ENTRY_BYTES))
        (Some (file_partition E (entry_key e))) es = (cs, cur)"
      using Cons.prems(1) True by simp
    have within: "chunks_within E split (chunks @ [current])"
      using Cons.prems(4,5) ne by (simp add: chunks_within_def)
    show ?thesis
      using Cons.IH [OF loop _ _ chunk_limits_single within, of "n + 1"] True
      by (simp add: chunk_size_def)
  next
    case False
    have loop: "chunk_loop E split chunks (current @ [e])
        (est + (encoded_entry_upper_bound E e + FOOTER_ENTRY_BYTES))
        (Some (file_partition E (entry_key e))) es = (cs, cur)"
      using Cons.prems(1) False by simp
    show ?thesis
      using Cons.IH [OF loop _ _ chunk_limits_extend [OF False Cons.prems(2-4)] Cons.prems(5), of n]
        False Cons.prems(2)
      by simp
  qed
qed

lemma batch_chunks_cases:
  obtains cs cur where "batch_chunks E split es = (if cur \<noteq> [] then cs @ [cur] else cs)"
    "concat cs @ cur = es" "cur = [] \<Longrightarrow> es = []" "chunk_limits E split cur" "chunks_within E split cs"
    "count_chunks E split 1 True (HEADER_BYTES + TRAILER_BYTES) None es = 1 + length cs"
proof -
  obtain cs cur where loop: "chunk_loop E split [] [] (HEADER_BYTES + TRAILER_BYTES) None es = (cs, cur)"
    by (meson surj_pair)
  have lim: "chunk_limits E split []" "chunks_within E split []"
    by (simp_all add: chunk_limits_def chunks_within_def)
  have "batch_chunks E split es = (if cur \<noteq> [] then cs @ [cur] else cs)"
    by (simp add: batch_chunks_def loop)
  then show thesis using chunk_loop_spec [OF loop _ _ lim, of 1] that [of cur cs] by simp
qed

lemma batch_chunks_concat: "concat (batch_chunks E split es) = es"
proof (rule batch_chunks_cases [of E split es])
  fix cs cur
  assume "batch_chunks E split es = (if cur \<noteq> [] then cs @ [cur] else cs)" and es: "concat cs @ cur = es"
  then have "concat (batch_chunks E split es) = concat cs @ cur" by (cases "cur = []") simp_all
  then show ?thesis by (simp only: es)
qed

lemma batch_chunks_within: "chunks_within E split (batch_chunks E split es)"
  by (rule batch_chunks_cases [of E split es]) (simp add: chunks_within_def)

lemma batch_chunks_length:
  assumes "es \<noteq> []"
  shows "length (batch_chunks E split es) = count_chunks E split 1 True (HEADER_BYTES + TRAILER_BYTES) None es"
proof (rule batch_chunks_cases [of E split es])
  fix cs cur
  assume "batch_chunks E split es = (if cur \<noteq> [] then cs @ [cur] else cs)" "cur = [] \<Longrightarrow> es = []"
    "count_chunks E split 1 True (HEADER_BYTES + TRAILER_BYTES) None es = 1 + length cs"
  then show ?thesis using assms by (cases "cur = []") simp_all
qed

lemma chunk_of_batch_ok:
  assumes "chunk_ok E es" "c \<in> set (batch_chunks E split es)"
  shows "chunk_ok E c"
proof -
  obtain pre post where "batch_chunks E split es = pre @ c # post" using assms(2) by (meson split_list)
  then have "es = concat pre @ c @ concat post" using batch_chunks_concat [of E split es] by simp
  then show ?thesis using assms(1) by (simp add: chunk_ok_def sorted_wrt_append)
qed

section \<open>Finishing a batch\<close>

lemma sum_list_length_ge: "\<forall>c \<in> set cs. c \<noteq> [] \<Longrightarrow> length cs \<le> length (concat cs)"
proof (induction cs)
  case (Cons c cs)
  then show ?case by (cases c) auto
qed simp

text \<open>What a reader obtains by walking an object's index.\<close>

definition stored_entries :: "env \<Rightarrow> blx_object \<Rightarrow> blx_entry option list" where
  "stored_entries E obj = map (\<lambda>f. open_entry E (entry_bytes (bo_bytes obj) f)) (bo_footer obj)"

text \<open>The builder's invariant, kept by \<^verbatim>\<open>new\<close>, \<^verbatim>\<open>add_data\<close> and \<^verbatim>\<open>add_tombstone\<close>.\<close>

definition builder_ok :: "env \<Rightarrow> batch_builder \<Rightarrow> bool" where
  "builder_ok E b \<longleftrightarrow> entry_map_ok E (bb_entries b) \<and> list_all (entry_ok E) (bm_values (bb_entries b)) \<and>
     bm_min_seq (bb_meta b) \<le> bm_max_seq (bb_meta b)"

lemma insert_newest_entry_ok:
  assumes "entry_map_ok E m" "list_all (entry_ok E) (bm_values m)" "entry_ok E e"
  shows "list_all (entry_ok E) (bm_values (insert_newest E e m))"
proof -
  have ord: "bm_ordered (block_key_less E) (insert_newest E e m)"
    using entry_map_okD(1) [OF insert_newest_ok [OF assms(1)]] .
  have "entry_ok E v" if "(k, v) \<in> set (insert_newest E e m)" for k v
  proof -
    have "map_of (insert_newest E e m) k = Some v"
      using that by (simp add: block_order.get_iff_mem [OF ord])
    then have "v = e \<or> map_of m k = Some v" by (auto simp: map_of_insert_newest split: if_splits)
    then show ?thesis using assms(2,3) by (auto simp: bm_values_def list_all_iff dest!: map_of_SomeD)
  qed
  then show ?thesis by (auto simp: bm_values_def list_all_iff)
qed

lemma builder_insert_ok: "builder_ok E b \<Longrightarrow> entry_ok E e \<Longrightarrow> builder_ok E (builder_insert E e b)"
  by (simp add: builder_ok_def builder_insert_def insert_newest_ok insert_newest_entry_ok)

lemma builder_new_ok:
  "builder_new meta = Some b \<Longrightarrow> builder_ok E b" "builder_new_partitioned meta = Some b \<Longrightarrow> builder_ok E b"
  by (auto simp: builder_new_def builder_new_partitioned_def builder_ok_def bind_eq_Some_conv bm_values_def)

lemma add_data_ok: "builder_ok E b \<Longrightarrow> add_data E k g bs b = Some b' \<Longrightarrow> builder_ok E b'"
  by (auto simp: add_data_def bind_eq_Some_conv entry_ok_def intro!: builder_insert_ok)

lemma add_tombstone_ok: "builder_ok E b \<Longrightarrow> builder_ok E (add_tombstone E k g b)"
  by (auto simp: add_tombstone_def entry_ok_def intro!: builder_insert_ok)

lemma builder_ok_chunk_ok: "builder_ok E b \<Longrightarrow> chunk_ok E (bm_values (bb_entries b))"
  using entry_map_values_sorted by (auto simp: builder_ok_def chunk_ok_def)

text \<open>One block always fits into an object of the maximal size.\<close>

definition block_fits_object :: "env \<Rightarrow> bool" where
  "block_fits_object E \<longleftrightarrow>
     HEADER_BYTES + TRAILER_BYTES + FRAME_HEADER + FOOTER_PREFIX_BYTES + FOOTER_ENTRY_BYTES +
     (FRAME_HEADER + 1 + 8 + 8 + 4 + 4 + env_max_output E (env_page_size E)) \<le> MAX_FILE_BYTES"

lemma chunk_fits_object:
  assumes "block_fits_object E" "chunk_limits E split c" "list_all (entry_ok E) c" "c \<noteq> []"
  shows "HEADER_BYTES + TRAILER_BYTES + FRAME_HEADER + FOOTER_PREFIX_BYTES + chunk_size E c \<le> MAX_FILE_BYTES"
proof (cases "length c \<le> 1")
  case True
  then obtain e where c: "c = [e]" using assms(4) by (cases c) auto
  have "encoded_entry_upper_bound E e \<le> FRAME_HEADER + 1 + 8 + 8 + 4 + 4 + env_max_output E (env_page_size E)"
    using assms(3) by (cases e) (simp_all add: c encoded_entry_upper_bound_def entry_ok_def)
  then show ?thesis using assms(1) by (simp add: c chunk_size_def block_fits_object_def)
next
  case False
  then show ?thesis using assms(2) by (simp add: chunk_limits_def TARGET_FILE_BYTES_def MAX_FILE_BYTES_def)
qed

text \<open>What each object of a finished batch satisfies, relative to its chunk and position.\<close>

definition object_of_chunk :: "env \<Rightarrow> batch_meta \<Rightarrow> u32 \<Rightarrow> nat \<Rightarrow> blx_entry list \<Rightarrow> blx_object \<Rightarrow> bool" where
  "object_of_chunk E meta cc i c obj \<longleftrightarrow>
     encode_object E meta (bm_first_object_id meta + of_nat i) (of_nat i) cc c = Some obj"

lemma encode_chunks_total:
  assumes "lz4_bounded E" "fits_u32 (env_page_size E)" "block_fits_object E"
  shows "\<lbrakk> chunks_within E split cs; \<forall>c \<in> set cs. list_all (entry_ok E) c; fits_u32 (i + length cs - 1);
      unat (bm_first_object_id meta) + (i + length cs - 1) < 2 ^ 64 \<rbrakk> \<Longrightarrow>
    \<exists>objs. encode_chunks E meta cc i cs = Some objs \<and> length objs = length cs \<and>
      (\<forall>j < length cs. object_of_chunk E meta cc (i + j) (cs ! j) (objs ! j))"
proof (induction cs arbitrary: i)
  case Nil
  then show ?case by simp
next
  case (Cons c cs)
  have c: "c \<noteq> []" "chunk_limits E split c" "list_all (entry_ok E) c"
    using Cons.prems(1,2) by (simp_all add: chunks_within_def)
  have i: "fits_u32 i" using Cons.prems(3) by (simp add: fits_u32_def)
  have oid: "checked_add (bm_first_object_id meta) (of_nat i) = Some (bm_first_object_id meta + of_nat i)"
  proof -
    have "unat (of_nat i :: u64) = i" using i by (simp add: unat_of_nat fits_u32_def)
    then show ?thesis using Cons.prems(4) by (simp add: checked_add_def)
  qed
  obtain obj where obj: "encode_object E meta (bm_first_object_id meta + of_nat i) (of_nat i) cc c = Some obj"
    using encode_object_total [OF assms(1,2) c(1,3)] chunk_fits_object [OF assms(3) c(2,3,1)]
    unfolding chunk_size_def by blast
  obtain objs where objs: "encode_chunks E meta cc (i + 1) cs = Some objs" "length objs = length cs"
    "\<forall>j < length cs. object_of_chunk E meta cc (i + 1 + j) (cs ! j) (objs ! j)"
    using Cons.IH [of "i + 1"] Cons.prems by (auto simp: chunks_within_def)
  have "object_of_chunk E meta cc (i + j) ((c # cs) ! j) ((obj # objs) ! j)" if "j < length (c # cs)" for j
    using that obj objs(3) by (cases j) (simp_all add: object_of_chunk_def)
  then show ?case using i oid obj objs by simp
qed

lemma builder_finish_total:
  assumes ok: "builder_ok E b" and lz: "lz4_bounded E" and ps: "fits_u32 (env_page_size E)"
    and fit: "block_fits_object E" and ids: "object_ids_fit E b" and small: "fits_u32 (length (bb_entries b))"
    and cs: "cs = batch_chunks E (bb_split_at_file_partitions b) (bm_values (bb_entries b))"
  shows "\<exists>objs. builder_finish E b = Some objs \<and> length objs = length cs \<and>
    (\<forall>j < length cs. object_of_chunk E (bb_meta b) (of_nat (length cs)) j (cs ! j) (objs ! j)) \<and>
    fits_u32 (length cs)"
proof (cases "bb_entries b = []")
  case True
  then show ?thesis by (simp add: cs builder_finish_def batch_chunks_def bm_values_def fits_u32_def)
next
  case False
  let ?es = "bm_values (bb_entries b)" and ?sp = "bb_split_at_file_partitions b"
  let ?cs = "batch_chunks E ?sp ?es"
  have es: "?es \<noteq> []" "length ?es = length (bb_entries b)" using False by (simp_all add: bm_values_def)
  have within: "chunks_within E ?sp ?cs" by (rule batch_chunks_within)
  have "length ?cs \<le> length (concat ?cs)"
    using within by (intro sum_list_length_ge) (auto simp: chunks_within_def)
  then have n: "length ?cs \<le> length ?es" by (simp only: batch_chunks_concat)
  have pos: "0 < length ?cs" using es(1) batch_chunks_concat [of E ?sp ?es] by (cases ?cs) auto
  have "checked_add (bm_first_object_id (bb_meta b)) (of_nat (length ?cs - 1)) \<noteq> None"
    using ids es(1) pos by (simp add: object_ids_fit_def Let_def batch_chunks_length [OF es(1)])
  moreover have "unat (of_nat (length ?cs - 1) :: u64) = length ?cs - 1"
    using n small es(2) by (simp add: unat_of_nat fits_u32_def)
  ultimately have "unat (bm_first_object_id (bb_meta b)) + (0 + length ?cs - 1) < 2 ^ 64"
    by (simp add: checked_add_def split: if_splits)
  moreover have "\<forall>c \<in> set ?cs. list_all (entry_ok E) c"
    using chunk_of_batch_ok [OF builder_ok_chunk_ok [OF ok]] by (simp add: chunk_ok_def)
  moreover have "fits_u32 (length ?cs)" "fits_u32 (0 + length ?cs - 1)"
    using n small es(2) by (simp_all add: fits_u32_def)
  ultimately show ?thesis
    using encode_chunks_total [OF lz ps fit within, of 0 "bb_meta b" "of_nat (length ?cs)"] False
    by (auto simp: cs builder_finish_def Let_def)
qed

text \<open>The facts a reader has about one object of a finished batch.\<close>

lemma object_of_chunk_facts:
  assumes obj: "object_of_chunk E meta cc i c obj" and ok: "chunk_ok E c" "bm_min_seq meta \<le> bm_max_seq meta"
    and lz: "lz4_roundtrips E" and i: "i < unat cc"
  shows "scan_object E (bo_bytes obj) = Some (bo_header obj, bo_footer obj)"
    and "stored_entries E obj = map Some c" and "length (bo_bytes obj) \<le> MAX_FILE_BYTES"
    and "bh_object_id (bo_header obj) = bm_first_object_id meta + of_nat i"
    and "bh_chunk_index (bo_header obj) = of_nat i" and "bh_chunk_count (bo_header obj) = cc"
    and "map fe_key (bo_footer obj) = map entry_key c"
proof -
  have enc: "encode_object E meta (bm_first_object_id meta + of_nat i) (of_nat i) cc c = Some obj"
    using obj by (simp add: object_of_chunk_def)
  have "fits_u32 i" using i fits_u32_unat [of cc] by (simp add: fits_u32_def)
  then have ix: "(of_nat i :: u32) < cc" using i by (simp add: word_less_nat_alt unat_of_nat_u32)
  show "scan_object E (bo_bytes obj) = Some (bo_header obj, bo_footer obj)"
    by (rule scan_encoded_object(1) [OF enc ok ix lz])
  show "stored_entries E obj = map Some c"
    unfolding stored_entries_def by (rule scan_encoded_object(2) [OF enc ok ix lz])
  from encode_object_shape [OF enc] obtain pos body where
    hdr: "bo_header obj = object_header E meta (bm_first_object_id meta + of_nat i) (of_nat i) cc c"
    and ents: "encode_entries E pos c = Some (body, bo_footer obj)"
    and len: "length (bo_bytes obj) \<le> MAX_FILE_BYTES"
    by metis
  show "length (bo_bytes obj) \<le> MAX_FILE_BYTES" by (rule len)
  show "bh_object_id (bo_header obj) = bm_first_object_id meta + of_nat i"
    "bh_chunk_index (bo_header obj) = of_nat i" "bh_chunk_count (bo_header obj) = cc"
    by (simp_all add: hdr object_header_def)
  show "map fe_key (bo_footer obj) = map entry_key c" by (rule encode_entries_index(1) [OF ents])
qed

lemma finished_objects:
  assumes "builder_ok E b" "builder_finish E b = Some objs" "lz4_roundtrips E"
    and cs: "cs = batch_chunks E (bb_split_at_file_partitions b) (bm_values (bb_entries b))"
    and "length objs = length cs" "fits_u32 (length cs)"
    and objs: "\<forall>j < length cs. object_of_chunk E (bb_meta b) (of_nat (length cs)) j (cs ! j) (objs ! j)"
    and j: "j < length objs"
  shows "chunk_ok E (cs ! j)" "chunk_limits E (bb_split_at_file_partitions b) (cs ! j)"
    "scan_object E (bo_bytes (objs ! j)) = Some (bo_header (objs ! j), bo_footer (objs ! j))"
    "stored_entries E (objs ! j) = map Some (cs ! j)" "length (bo_bytes (objs ! j)) \<le> MAX_FILE_BYTES"
    "bh_object_id (bo_header (objs ! j)) = bm_first_object_id (bb_meta b) + of_nat j"
    "map fe_key (bo_footer (objs ! j)) = map entry_key (cs ! j)"
proof -
  have mem: "cs ! j \<in> set cs" using j assms(5) by simp
  show ok: "chunk_ok E (cs ! j)"
    using chunk_of_batch_ok [OF builder_ok_chunk_ok [OF assms(1)]] mem by (simp add: cs)
  show "chunk_limits E (bb_split_at_file_partitions b) (cs ! j)"
    using batch_chunks_within mem unfolding cs chunks_within_def by blast
  have seqs: "bm_min_seq (bb_meta b) \<le> bm_max_seq (bb_meta b)" using assms(1) by (simp add: builder_ok_def)
  have lt: "j < unat (of_nat (length cs) :: u32)" using j assms(5,6) by (simp add: unat_of_nat_u32)
  have obj: "object_of_chunk E (bb_meta b) (of_nat (length cs)) j (cs ! j) (objs ! j)"
    using objs j assms(5) by simp
  note facts = object_of_chunk_facts [OF obj ok seqs assms(3) lt]
  show "scan_object E (bo_bytes (objs ! j)) = Some (bo_header (objs ! j), bo_footer (objs ! j))"
    "stored_entries E (objs ! j) = map Some (cs ! j)" "length (bo_bytes (objs ! j)) \<le> MAX_FILE_BYTES"
    "bh_object_id (bo_header (objs ! j)) = bm_first_object_id (bb_meta b) + of_nat j"
    "map fe_key (bo_footer (objs ! j)) = map entry_key (cs ! j)"
    by (rule facts)+
qed

text \<open>
  C18: A batch that passed the identifier check finishes without a panic and stores every entry
  exactly once: each object scans, stays within 64 MiB and carries the next identifier, and
  reading the objects one after the other yields the batch's entries in key order.  In a
  partitioned batch no object crosses a storage-file partition.
\<close>

theorem finished_batch_stores_every_entry_once:
  assumes "builder_ok E b" "lz4_roundtrips E" "lz4_bounded E" "validate_page_size (env_page_size E)"
    and "block_fits_object E" "object_ids_fit E b" "fits_u32 (length (bb_entries b))"
  shows "\<exists>objs. builder_finish E b = Some objs \<and>
    concat (map (stored_entries E) objs) = map Some (bm_values (bb_entries b)) \<and>
    (\<forall>j < length objs. scan_object E (bo_bytes (objs ! j)) = Some (bo_header (objs ! j), bo_footer (objs ! j)) \<and>
      length (bo_bytes (objs ! j)) \<le> MAX_FILE_BYTES \<and>
      bh_object_id (bo_header (objs ! j)) = bm_first_object_id (bb_meta b) + of_nat j) \<and>
    (bb_split_at_file_partitions b \<longrightarrow>
      (\<forall>obj \<in> set objs. \<forall>f \<in> set (bo_footer obj). \<forall>g \<in> set (bo_footer obj).
        file_partition E (fe_key f) = file_partition E (fe_key g)))"
proof -
  let ?cs = "batch_chunks E (bb_split_at_file_partitions b) (bm_values (bb_entries b))"
  have ps: "fits_u32 (env_page_size E)" using assms(4) by (simp add: validate_page_size_def)
  from builder_finish_total [OF assms(1,3) ps assms(5-7) refl] obtain objs where fin: "builder_finish E b = Some objs" and len: "length objs = length ?cs"
    and objs: "\<forall>j < length ?cs. object_of_chunk E (bb_meta b) (of_nat (length ?cs)) j (?cs ! j) (objs ! j)"
    and n: "fits_u32 (length ?cs)"
    by (elim exE conjE)
  note facts = finished_objects [OF assms(1) fin assms(2) refl len n objs]
  have "map (stored_entries E) objs = map (map Some) ?cs"
    using facts(4) len by (intro nth_equalityI) simp_all
  then have all: "concat (map (stored_entries E) objs) = map Some (bm_values (bb_entries b))"
    by (simp only: map_concat [symmetric] batch_chunks_concat)
  have parts: "file_partition E (fe_key f) = file_partition E (fe_key g)"
    if sp: "bb_split_at_file_partitions b" and obj: "obj \<in> set objs" and fg: "f \<in> set (bo_footer obj)" "g \<in> set (bo_footer obj)"
    for obj f g
  proof -
    obtain j where j: "j < length objs" "obj = objs ! j" using obj by (auto simp: in_set_conv_nth)
    have "fe_key f \<in> set (map fe_key (bo_footer obj))" "fe_key g \<in> set (map fe_key (bo_footer obj))"
      using fg by simp_all
    then have "fe_key f \<in> set (map entry_key (?cs ! j))" "fe_key g \<in> set (map entry_key (?cs ! j))"
      unfolding j(2) facts(7) [OF j(1)] .
    then obtain a c where "a \<in> set (?cs ! j)" "c \<in> set (?cs ! j)" "fe_key f = entry_key a" "fe_key g = entry_key c"
      by auto
    then show ?thesis using chunk_limits_partition [OF facts(2) [OF j(1)] sp] by metis
  qed
  show ?thesis
    by (intro exI [of _ objs] conjI allI impI ballI) (rule fin all facts(3,5,6) parts | assumption)+
qed

definition demo_builder :: batch_builder where
  "demo_builder = \<lparr> bb_meta = demo_meta, bb_entries = map (\<lambda>e. (entry_key e, e)) demo_entries,
     bb_split_at_file_partitions = True \<rparr>"

lemma demo_builder_facts:
  "builder_ok demo_env demo_builder" "block_fits_object demo_env" "object_ids_fit demo_env demo_builder"
  "fits_u32 (length (bb_entries demo_builder))"
proof -
  have vals: "bm_values (bb_entries demo_builder) = demo_entries"
    by (simp add: demo_builder_def bm_values_def comp_def)
  show "builder_ok demo_env demo_builder"
    using demo_chunk_ok
    by (auto simp: builder_ok_def bm_values_def entry_map_ok_def bm_ordered_def chunk_ok_def demo_builder_def
        demo_meta_def comp_def)
  show "block_fits_object demo_env"
    by (simp add: block_fits_object_def blx_sizes MAX_FILE_BYTES_def demo_env_def)
  show "object_ids_fit demo_env demo_builder"
    by (simp add: object_ids_fit_def vals) (simp add: demo_entries_def demo_builder_def demo_meta_def
        should_split_def file_partition_def namespace_rank_def NAMESPACES_PER_FILE_PARTITION_def
        blocks_per_file_partition_def TARGET_FILE_BYTES_def encoded_entry_upper_bound_def blx_sizes
        demo_env_def checked_add_def Let_def)
  show "fits_u32 (length (bb_entries demo_builder))"
    by (simp add: demo_builder_def demo_entries_def fits_u32_def)
qed

theorem finished_batch_stores_every_entry_once_witness:
  "\<exists>objs. builder_finish demo_env demo_builder = Some objs \<and>
    concat (map (stored_entries demo_env) objs) = map Some demo_entries"
proof -
  have "bm_values (bb_entries demo_builder) = demo_entries"
    by (simp add: demo_builder_def bm_values_def comp_def)
  with finished_batch_stores_every_entry_once [OF demo_builder_facts(1) demo_env_lz4 demo_env_page_size
      demo_builder_facts(2-4)]
  show ?thesis by metis
qed

section \<open>The builder selects the newest generation\<close>

lemma builder_insert_all:
  "bb_entries (foldl (\<lambda>b e. builder_insert E e b) b es) = merge_newest E es (bb_entries b)"
  unfolding merge_newest_def by (induction es arbitrary: b) (simp_all add: builder_insert_def)

text \<open>
  C19: The builder keeps, for every key, the entry with the highest generation among all entries
  added for it; among equal generations the one added last; and it has an entry for a key exactly
  when one was added.
\<close>

theorem builder_keeps_newest_generation:
  assumes "builder_new meta = Some b" "b' = foldl (\<lambda>b e. builder_insert E e b) b es"
  shows "map_of (bb_entries b') k = newest_of es k \<and>
    (newest_of es k = None \<longleftrightarrow> (\<forall>e \<in> set es. entry_key e \<noteq> k)) \<and>
    (\<forall>e. newest_of es k = Some e \<longrightarrow> e \<in> set es \<and> entry_key e = k \<and>
      (\<forall>e' \<in> set es. entry_key e' = k \<longrightarrow> entry_generation e' \<le> entry_generation e))"
proof (intro conjI allI impI)
  have "bb_entries b = []" using assms(1) by (auto simp: builder_new_def bind_eq_Some_conv)
  then show "map_of (bb_entries b') k = newest_of es k"
    by (simp add: assms(2) builder_insert_all map_of_merge_newest)
  show "newest_of es k = None \<longleftrightarrow> (\<forall>e \<in> set es. entry_key e \<noteq> k)" by (rule newest_of_None)
  fix e
  assume "newest_of es k = Some e"
  from newest_of_sound [OF this]
  show "e \<in> set es" "entry_key e = k"
    "\<forall>e' \<in> set es. entry_key e' = k \<longrightarrow> entry_generation e' \<le> entry_generation e"
    by simp_all
qed

theorem builder_keeps_newest_generation_witness:
  "let k = \<lparr> bk_space = BS_Data, bk_block = 1 \<rparr>;
       b = \<lparr> bb_meta = demo_meta, bb_entries = [], bb_split_at_file_partitions = False \<rparr>;
       b' = foldl (\<lambda>b e. builder_insert demo_env e b) b [Tombstone_Entry k 8, Data_Entry k 5 []]
   in map_of (bb_entries b') k = Some (Tombstone_Entry k 8)"
proof -
  have "builder_new demo_meta = Some \<lparr> bb_meta = demo_meta, bb_entries = [], bb_split_at_file_partitions = False \<rparr>"
    by (simp add: builder_new_def demo_meta_def)
  from builder_keeps_newest_generation [OF this refl, of demo_env
      "[Tombstone_Entry \<lparr> bk_space = BS_Data, bk_block = 1 \<rparr> 8, Data_Entry \<lparr> bk_space = BS_Data, bk_block = 1 \<rparr> 5 []]"
      "\<lparr> bk_space = BS_Data, bk_block = 1 \<rparr>"]
  show ?thesis by simp
qed

section \<open>Compaction\<close>

text \<open>All entries of an object, and of a list of objects, as a reader of their bytes sees them.\<close>

definition object_entries :: "env \<Rightarrow> bytes \<Rightarrow> blx_entry list option" where
  "object_entries E bs =
     do { (_, fs) \<leftarrow> scan_object E bs; those (map (\<lambda>f. open_entry E (entry_bytes bs f)) fs) }"

definition read_objects :: "env \<Rightarrow> blx_object list \<Rightarrow> blx_entry list option" where
  "read_objects E objs = map_option concat (those (map (\<lambda>obj. object_entries E (bo_bytes obj)) objs))"

lemma those_map_Some: "those (map Some xs) = Some xs"
  by (induction xs) simp_all

lemma those_Some_iff: "those xs = Some ys \<longleftrightarrow> xs = map Some ys"
proof
  show "those xs = Some ys \<Longrightarrow> xs = map Some ys"
    by (induction xs arbitrary: ys) (auto split: option.splits)
qed (simp add: those_map_Some)

lemma compact_entries_merge:
  assumes "\<forall>f \<in> set fs. unat (fe_offset f) + unat (fe_length f) \<le> length bs"
    and "\<forall>f \<in> set fs. unat (fe_offset f) + unat (fe_length f) \<le> usize_max"
  shows "compact_entries E bs fs m =
    map_option (\<lambda>es. merge_newest E es m) (those (map (\<lambda>f. open_entry E (entry_bytes bs f)) fs))"
  using assms
proof (induction fs arbitrary: m)
  case Nil
  then show ?case by (simp add: merge_newest_def)
next
  case (Cons f fs)
  show ?case
  proof (cases "open_entry E (entry_bytes bs f)")
    case None
    then show ?thesis using Cons.prems by (simp add: usize_checked_add_def entry_bytes_def Let_def)
  next
    case (Some e)
    then have "compact_entries E bs (f # fs) m = compact_entries E bs fs (insert_newest E e m)"
      using Cons.prems by (simp add: usize_checked_add_def entry_bytes_def Let_def)
    also have "\<dots> = map_option (\<lambda>es. merge_newest E es (insert_newest E e m))
        (those (map (\<lambda>f. open_entry E (entry_bytes bs f)) fs))"
      using Cons by simp
    finally show ?thesis
      by (simp add: Some option.map_comp comp_def merge_newest_def)
  qed
qed

lemma scan_entries_ranges:
  "scan_entries E bs fo expected fs = Some fin \<Longrightarrow> f \<in> set fs \<Longrightarrow> unat (fe_offset f) + unat (fe_length f) \<le> fo"
proof (induction fs arbitrary: expected)
  case (Cons g fs)
  from Cons.prems(1) obtain end_off where
    "end_off = unat (fe_offset g) + unat (fe_length g)" "end_off \<le> fo" "scan_entries E bs fo end_off fs = Some fin"
    by (auto simp: Let_def usize_checked_add_def split: if_splits elim!: bind_SomeE)
  with Cons show ?case by auto
qed simp

lemma scan_object_ranges:
  assumes "scan_object E bs = Some (h, fs)" "f \<in> set fs"
  shows "unat (fe_offset f) + unat (fe_length f) \<le> length bs"
proof -
  from assms(1) obtain off len :: u32 and start where
    "unat off + unat len + TRAILER_BYTES = length bs" "scan_entries E bs (unat off) start fs = Some (unat off)"
    unfolding scan_object_def
    by (clarsimp simp: Let_def usize_checked_add_def split: if_splits elim!: bind_SomeE)
  with scan_entries_ranges [OF this(2) assms(2)] show ?thesis by simp
qed

lemma compactor_add_object_merge:
  "compactor_add_object E bs m = map_option (\<lambda>es. merge_newest E es m) (object_entries E bs)"
proof (cases "scan_object E bs")
  case None
  then show ?thesis by (simp add: compactor_add_object_def object_entries_def)
next
  case (Some hf)
  obtain h fs where hf: "hf = (h, fs)" by (meson surj_pair)
  have "unat a + unat b \<le> usize_max" for a b :: u32
    using fits_u32_unat [of a] fits_u32_unat [of b] by (simp add: fits_u32_def usize_max_def)
  then have "compact_entries E bs fs m =
      map_option (\<lambda>es. merge_newest E es m) (those (map (\<lambda>f. open_entry E (entry_bytes bs f)) fs))"
    using scan_object_ranges Some hf by (intro compact_entries_merge) blast+
  then show ?thesis using Some hf by (simp add: compactor_add_object_def object_entries_def)
qed

lemma compactor_add_all_merge:
  "compactor_add_all E objs m = map_option (\<lambda>es. merge_newest E es m) (read_objects E objs)"
proof (induction objs arbitrary: m)
  case Nil
  then show ?case by (simp add: read_objects_def merge_newest_def)
next
  case (Cons obj objs)
  show ?case
  proof (cases "object_entries E (bo_bytes obj)")
    case None
    then show ?thesis by (simp add: compactor_add_object_merge read_objects_def)
  next
    case (Some es)
    then show ?thesis
      by (simp add: compactor_add_object_merge Cons.IH read_objects_def option.map_comp comp_def merge_newest_def)
  qed
qed

definition is_tombstone :: "blx_entry \<Rightarrow> bool" where
  "is_tombstone e \<longleftrightarrow> kind_of_entry e = EK_Tombstone"

lemma compactor_fill_spec:
  "compactor_fill E retain es b = Some b' \<Longrightarrow> builder_ok E b \<Longrightarrow>
   builder_ok E b' \<and> bb_meta b' = bb_meta b \<and>
   bb_split_at_file_partitions b' = bb_split_at_file_partitions b \<and>
   bb_entries b' = merge_newest E (filter (\<lambda>e. retain \<or> \<not> is_tombstone e) es) (bb_entries b)"
proof (induction E retain es b rule: compactor_fill.induct)
  case (1 E retain b)
  then show ?case by (simp add: merge_newest_def)
next
  case (2 E retain k g bs es b)
  from 2(2) obtain c where c: "add_data E k g bs b = Some c" and fill: "compactor_fill E retain es c = Some b'"
    by (auto simp: bind_eq_Some_conv)
  have "c = builder_insert E (Data_Entry k g bs) b" using c by (auto simp: add_data_def bind_eq_Some_conv)
  then show ?case using 2(1) [OF c fill add_data_ok [OF 2(3) c]]
    by (simp add: builder_insert_def merge_newest_def is_tombstone_def)
next
  case (3 E retain k g es b)
  let ?c = "if retain then add_tombstone E k g b else b"
  have "builder_ok E ?c" using 3(3) add_tombstone_ok by simp
  then show ?case using 3(1) 3(2)
    by (simp add: add_tombstone_def builder_insert_def merge_newest_def is_tombstone_def)
qed

lemma newest_of_distinct:
  assumes "distinct (map entry_key es)"
  shows "newest_of (filter P es) k = Some e \<longleftrightarrow> e \<in> set es \<and> P e \<and> entry_key e = k"
proof
  assume "newest_of (filter P es) k = Some e"
  from newest_of_sound [OF this] show "e \<in> set es \<and> P e \<and> entry_key e = k" by simp
next
  assume e: "e \<in> set es \<and> P e \<and> entry_key e = k"
  then obtain e' where e': "newest_of (filter P es) k = Some e'"
    using newest_of_None [of "filter P es" k] by fastforce
  from newest_of_sound [OF this] have "e' \<in> set es" "entry_key e' = k" by simp_all
  with e assms e' show "newest_of (filter P es) k = Some e" by (metis distinct_map inj_onD)
qed

lemma encode_chunks_objects:
  "encode_chunks E meta cc i cs = Some objs \<Longrightarrow>
   length objs = length cs \<and> (\<forall>j < length cs. object_of_chunk E meta cc (i + j) (cs ! j) (objs ! j))"
proof (induction cs arbitrary: i objs)
  case Nil
  then show ?case by simp
next
  case (Cons c cs)
  from Cons.prems obtain oid obj os where
    oid: "checked_add (bm_first_object_id meta) (of_nat i) = Some oid"
    and obj: "encode_object E meta oid (of_nat i) cc c = Some obj"
    and os: "encode_chunks E meta cc (i + 1) cs = Some os" and objs: "objs = obj # os"
    by (auto simp: bind_eq_Some_conv)
  have "oid = bm_first_object_id meta + of_nat i" using oid by (auto simp: checked_add_def split: if_splits)
  then have "object_of_chunk E meta cc i c obj" using obj by (simp add: object_of_chunk_def)
  then have "object_of_chunk E meta cc (i + j) ((c # cs) ! j) (objs ! j)" if "j < length (c # cs)" for j
    using that Cons.IH [OF os] by (cases j) (simp_all add: objs)
  then show ?case using Cons.IH [OF os] by (simp add: objs)
qed

lemma encode_chunks_ids:
  "encode_chunks E meta cc i cs = Some objs \<Longrightarrow> j < length cs \<Longrightarrow>
   unat (bm_first_object_id meta) + (i + j) < 2 ^ 64"
proof (induction cs arbitrary: i j objs)
  case (Cons c cs)
  from Cons.prems(1) obtain oid os where i: "fits_u32 i" "checked_add (bm_first_object_id meta) (of_nat i) = Some oid"
    and os: "encode_chunks E meta cc (i + 1) cs = Some os"
    by (auto elim!: bind_SomeE)
  have "unat (of_nat i :: u64) = i" using i(1) by (simp add: unat_of_nat fits_u32_def)
  then have "unat (bm_first_object_id meta) + i < 2 ^ 64" using i(2) by (auto simp: checked_add_def split: if_splits)
  then show ?case using Cons.IH [OF os, of "j - 1"] Cons.prems(2) by (cases j) simp_all
qed simp

lemma builder_finish_reads_back:
  assumes ok: "builder_ok E b" and fin: "builder_finish E b = Some objs" and lz: "lz4_roundtrips E"
  shows "read_objects E objs = Some (bm_values (bb_entries b))"
proof (cases "bb_entries b = []")
  case True
  then show ?thesis using fin by (simp add: builder_finish_def read_objects_def bm_values_def)
next
  case False
  let ?cs = "batch_chunks E (bb_split_at_file_partitions b) (bm_values (bb_entries b))"
  from fin False have n: "fits_u32 (length ?cs)"
    and enc: "encode_chunks E (bb_meta b) (of_nat (length ?cs)) 0 ?cs = Some objs"
    by (auto simp: builder_finish_def Let_def bind_eq_Some_conv)
  have len: "length objs = length ?cs"
    and objs: "\<forall>j < length ?cs. object_of_chunk E (bb_meta b) (of_nat (length ?cs)) j (?cs ! j) (objs ! j)"
    using encode_chunks_objects [OF enc] by simp_all
  note facts = finished_objects [OF ok fin lz refl len n objs]
  have "object_entries E (bo_bytes (objs ! j)) = Some (?cs ! j)" if "j < length objs" for j
    using facts(3) [OF that] facts(4) [OF that]
    by (simp add: object_entries_def stored_entries_def those_map_Some)
  then have "map (\<lambda>obj. object_entries E (bo_bytes obj)) objs = map Some ?cs"
    using len by (intro nth_equalityI) simp_all
  then show ?thesis by (simp add: read_objects_def those_map_Some batch_chunks_concat)
qed

text \<open>What compaction leaves of the newest entry of a key.\<close>

definition after_compaction :: "bool \<Rightarrow> blx_entry option \<Rightarrow> blx_entry option" where
  "after_compaction retain r =
     (case r of None \<Rightarrow> None | Some e \<Rightarrow> if retain \<or> \<not> is_tombstone e then Some e else None)"

lemma compaction_newest:
  assumes "compact_objects E meta inputs retain = Returned outputs" "lz4_roundtrips E"
  shows "\<exists>before after. read_objects E inputs = Some before \<and> read_objects E outputs = Some after \<and>
    distinct (map entry_key after) \<and>
    (\<forall>k. newest_of after k = after_compaction retain (newest_of before k))"
proof -
  from assms(1) obtain newest where add: "compactor_add_all E inputs [] = Some newest"
    and fin: "compactor_finish E meta retain newest = Some outputs"
    by (auto simp: compact_objects_def split: option.splits)
  from add obtain before where before: "read_objects E inputs = Some before"
    and newest: "newest = merge_newest E before []"
    by (auto simp: compactor_add_all_merge)
  from fin obtain b0 b where b0: "builder_new_partitioned meta = Some b0"
    and fill: "compactor_fill E retain (bm_values newest) b0 = Some b" and out: "builder_finish E b = Some outputs"
    by (auto simp: compactor_finish_def bind_eq_Some_conv)
  let ?kept = "filter (\<lambda>e. retain \<or> \<not> is_tombstone e) (bm_values newest)"
  have "bb_entries b0 = []"
    using b0 by (auto simp: builder_new_partitioned_def builder_new_def bind_eq_Some_conv)
  then have b: "builder_ok E b" "bb_entries b = merge_newest E ?kept []"
    using compactor_fill_spec [OF fill builder_new_ok(2) [OF b0]] by simp_all
  let ?after = "bm_values (bb_entries b)"
  have after: "read_objects E outputs = Some ?after" by (rule builder_finish_reads_back [OF b(1) out assms(2)])
  have dist: "distinct (map entry_key (bm_values (merge_newest E es [])))" for es
    using block_order.sorted_distinct
      [OF conjunct2 [OF entry_map_values_sorted [OF merge_newest_ok [OF entry_map_ok_Nil]]]] .
  have "newest_of ?after k = after_compaction retain (newest_of before k)" for k
  proof -
    have "newest_of ?after k = Some e \<longleftrightarrow> after_compaction retain (newest_of before k) = Some e" for e
    proof -
      have "newest_of ?after k = Some e \<longleftrightarrow> e \<in> set ?after \<and> entry_key e = k"
        using newest_of_distinct [OF dist [of ?kept], of "\<lambda>_. True" k e] by (simp add: b(2))
      also have "\<dots> \<longleftrightarrow> newest_of ?kept k = Some e"
        using newest_of_sound [of ?kept k e] by (auto simp: b(2) merge_newest_values)
      also have "\<dots> \<longleftrightarrow> e \<in> set (bm_values newest) \<and> (retain \<or> \<not> is_tombstone e) \<and> entry_key e = k"
        unfolding newest by (rule newest_of_distinct [OF dist])
      also have "\<dots> \<longleftrightarrow> after_compaction retain (newest_of before k) = Some e"
        using newest_of_sound [of before k e]
        by (auto simp: newest merge_newest_values after_compaction_def split: option.splits if_splits)
      finally show ?thesis .
    qed
    then show ?thesis by (metis option.exhaust)
  qed
  moreover have "distinct (map entry_key ?after)" by (simp add: b(2) dist)
  ultimately show ?thesis using before after by blast
qed

text \<open>
  C1: Compaction preserves the visible state: when it returns, its inputs were all readable, its
  outputs are readable, and for every key the newest entry of the outputs is the newest entry of
  the inputs, tombstones dropping out only when the caller did not ask to retain them.  No key
  occurs twice in the outputs.
\<close>

theorem compaction_preserves_newest:
  assumes "compact_objects E meta inputs retain = Returned outputs" "lz4_roundtrips E"
  shows "\<exists>before after. read_objects E inputs = Some before \<and> read_objects E outputs = Some after \<and>
    distinct (map entry_key after) \<and>
    (\<forall>k. newest_of after k = after_compaction retain (newest_of before k))"
  by (rule compaction_newest [OF assms])

lemma compactor_fill_drops:
  "(\<And>e. e \<in> set es \<Longrightarrow> is_tombstone e) \<Longrightarrow> compactor_fill E False es b = Some b"
proof (induction es)
  case (Cons e es)
  then have "is_tombstone e" by simp
  then obtain k g where "e = Tombstone_Entry k g" by (cases e) (simp_all add: is_tombstone_def)
  with Cons show ?case by simp
qed simp

lemma demo_compaction:
  "\<exists>obj outputs. compact_objects demo_env demo_meta [obj] False = Returned outputs"
proof -
  have seqs: "bm_min_seq demo_meta \<le> bm_max_seq demo_meta" "(0 :: u32) < 1" by (simp_all add: demo_meta_def)
  obtain obj where obj: "encode_object demo_env demo_meta 40 0 1 demo_entries = Some obj"
    using demo_object by blast
  note scan = scan_encoded_object [OF obj demo_chunk_ok seqs demo_env_lz4(1)]
  have "read_objects demo_env [obj] = Some demo_entries"
    using scan by (simp add: read_objects_def object_entries_def those_map_Some)
  then have add: "compactor_add_all demo_env [obj] [] = Some (merge_newest demo_env demo_entries [])"
    by (simp only: compactor_add_all_merge option.map)
  have "is_tombstone e" if "e \<in> set (bm_values (merge_newest demo_env demo_entries []))" for e
    using that newest_of_sound [of demo_entries "entry_key e" e]
    by (auto simp: merge_newest_values demo_entries_def is_tombstone_def)
  then have none: "compactor_fill demo_env False (bm_values (merge_newest demo_env demo_entries [])) b = Some b" for b
    by (rule compactor_fill_drops)
  have "compactor_finish demo_env demo_meta False (merge_newest demo_env demo_entries []) = Some []"
    by (simp add: compactor_finish_def builder_new_partitioned_def builder_new_def none builder_finish_def seqs)
  then show ?thesis using add by (intro exI [of _ obj] exI [of _ "[]"]) (simp add: compact_objects_def)
qed

theorem compaction_preserves_newest_witness:
  "\<exists>obj outputs before after. compact_objects demo_env demo_meta [obj] False = Returned outputs \<and>
    read_objects demo_env [obj] = Some before \<and> read_objects demo_env outputs = Some after \<and>
    (\<forall>k. newest_of after k = after_compaction False (newest_of before k))"
  using demo_compaction compaction_preserves_newest [OF _ demo_env_lz4(1)] by metis

section \<open>The state checksum\<close>

text \<open>The checksum of a whole state: the exclusive or over its blocks.\<close>

definition state_checksum :: "env \<Rightarrow> (block_key, gen_no \<times> u64) btree_map \<Rightarrow> u64" where
  "state_checksum E blocks = foldr (\<lambda>(k, g, c) s. state_contribution E k g c XOR s) blocks 0"

lemma xor_self_left [simp]: "(a :: u64) XOR (a XOR b) = b"
  by (simp add: bit_eq_iff bit_simps)

lemma state_checksum_remove:
  assumes "distinct (map fst blocks)" "map_of blocks k = Some (g, c)"
  shows "state_checksum E blocks = state_contribution E k g c XOR state_checksum E (bm_remove k blocks)"
  using assms
proof (induction blocks)
  case Nil
  then show ?case by simp
next
  case (Cons x blocks)
  obtain k' g' c' where x: "x = (k', g', c')" by (metis prod_cases3)
  show ?case
  proof (cases "k' = k")
    case True
    then have "bm_remove k blocks = blocks" "g' = g" "c' = c" using Cons.prems
      by (auto simp: x bm_remove_def intro!: filter_True)
    then show ?thesis using True by (simp add: x state_checksum_def bm_remove_def)
  next
    case False
    then have "state_checksum E blocks = state_contribution E k g c XOR state_checksum E (bm_remove k blocks)"
      using Cons by (simp add: x)
    then show ?thesis using False
      by (simp add: x state_checksum_def bm_remove_def xor.left_commute)
  qed
qed

lemma state_checksum_insert:
  "map_of blocks k = None \<Longrightarrow>
   state_checksum E (bm_insert (block_key_less E) k (g, c) blocks) =
   state_contribution E k g c XOR state_checksum E blocks"
proof (induction blocks)
  case Nil
  then show ?case by (simp add: state_checksum_def)
next
  case (Cons x blocks)
  obtain k' g' c' where x: "x = (k', g', c')" by (metis prod_cases3)
  have neq: "k' \<noteq> k" and none: "map_of blocks k = None" using Cons.prems by (auto simp: x split: if_splits)
  then show ?case using Cons.IH [OF none] block_order.total [of k k' E]
    by (auto simp: x state_checksum_def xor.left_commute)
qed

text \<open>
  C17: The incremental state checksum is the checksum of the whole state: replacing, adding or
  removing one block keeps the stored value equal to the exclusive or of all blocks' contributions,
  keeps the block map ordered, and changes exactly the named block.  It therefore does not depend
  on the order of the changes or on how the blocks are laid out in files.
\<close>

theorem replace_state_block_correct:
  assumes "bm_ordered (block_key_less E) blocks" "checksum = state_checksum E blocks"
    and "replace_state_block E checksum blocks key v = (checksum', blocks')"
  shows "bm_ordered (block_key_less E) blocks' \<and> checksum' = state_checksum E blocks' \<and>
    map_of blocks' = (map_of blocks)(key := v)"
proof -
  let ?rest = "bm_remove key blocks"
  let ?c = "case map_of blocks key of Some (g, c) \<Rightarrow> checksum XOR state_contribution E key g c | None \<Rightarrow> checksum"
  have dist: "distinct (map fst blocks)" by (rule block_order.distinct_keys [OF assms(1)])
  have same: "?rest = blocks" if "map_of blocks key = None"
    using that by (auto simp: bm_remove_def map_of_eq_None_iff intro!: filter_True)
  have c: "?c = state_checksum E ?rest"
    using state_checksum_remove [OF dist, of key] same
    by (auto simp: assms(2) xor.commute xor.left_commute split: option.split)
  have none: "map_of ?rest key = None" by (simp add: block_order.map_of_remove)
  have ord: "bm_ordered (block_key_less E) ?rest" by (rule block_order.ordered_remove [OF assms(1)])
  have step: "(checksum', blocks') = (case v of
      Some (g, c) \<Rightarrow> (?c XOR state_contribution E key g c, bm_insert (block_key_less E) key (g, c) ?rest)
    | None \<Rightarrow> (?c, ?rest))"
    using assms(3) same by (auto simp: replace_state_block_def split: option.splits)
  show ?thesis
  proof (cases v)
    case None
    then show ?thesis using step c ord by (simp add: block_order.map_of_remove)
  next
    case (Some gc)
    obtain g c where gc: "gc = (g, c)" by (metis surj_pair)
    have "checksum' = state_checksum E ?rest XOR state_contribution E key g c"
      "blocks' = bm_insert (block_key_less E) key (g, c) ?rest"
      using step Some gc by (simp_all only: c option.case prod.case prod.inject)
    then show ?thesis using ord none
      by (simp add: Some gc state_checksum_insert block_order.ordered_insert block_order.map_of_insert
          block_order.map_of_remove xor.commute)
  qed
qed

theorem replace_state_block_correct_witness:
  "let k = \<lparr> bk_space = BS_Data, bk_block = 1 \<rparr>; (c', m') = replace_state_block demo_env 0 [] k (Some (4, 9))
   in c' = state_checksum demo_env m' \<and> map_of m' k = Some (4, 9)"
proof -
  have "bm_ordered (block_key_less demo_env) []" "0 = state_checksum demo_env []"
    by (simp_all add: bm_ordered_def state_checksum_def)
  from replace_state_block_correct [OF this, of "\<lparr> bk_space = BS_Data, bk_block = 1 \<rparr>" "Some (4, 9)"]
  show ?thesis by (auto simp: Let_def split: prod.split)
qed

end
