(* ===== verification/Object_Refs.thy ===== *)
theory Object_Refs
  imports Blx_Batch
begin

text \<open>
  References to BLX objects (\<^verbatim>\<open>crates/core/src/manifest.rs\<close>): identities, references with their
  codecs, and the validation every list of references goes through, in manifests, complete file
  lists, bases and journals.  The validation is shown equivalent to a declarative specification:
  distinct identities, complete and ascending batches, and bounded overlap of key ranges, the
  last by a correctness proof of the sweep over range end points.
\<close>

section \<open>Identities and references\<close>

record object_identity =
  oi_namespace_kind :: namespace_kind
  oi_namespace_id :: u64
  oi_writer_fence :: u64
  oi_object_id :: u64

definition identity_volume :: "volume_id \<Rightarrow> u64 \<Rightarrow> u64 \<Rightarrow> object_identity" where
  "identity_volume volume writer_fence oid =
     \<lparr> oi_namespace_kind = NS_Volume, oi_namespace_id = volume, oi_writer_fence = writer_fence,
       oi_object_id = oid \<rparr>"

definition identity_store_key :: "object_identity \<Rightarrow> string" where
  "identity_store_key i =
     (case oi_namespace_kind i of
        NS_Volume \<Rightarrow> blx_key (oi_namespace_id i) (oi_writer_fence i) (oi_object_id i)
      | NS_Imported_Base \<Rightarrow> base_blx_key (oi_namespace_id i) (oi_writer_fence i) (oi_object_id i))"

definition enc_identity :: "object_identity \<Rightarrow> bytes" where
  "enc_identity i = enc_u8 (namespace_tag (oi_namespace_kind i)) @ enc_u64 (oi_namespace_id i) @
     enc_u64 (oi_writer_fence i) @ enc_u64 (oi_object_id i)"

definition dec_identity :: "bytes \<Rightarrow> (object_identity \<times> bytes) option" where
  "dec_identity d =
     do { (t, d) \<leftarrow> dec_u8 d;
          kind \<leftarrow> namespace_decode t;
          (namespace_id, d) \<leftarrow> dec_u64 d;
          (writer_fence, d) \<leftarrow> dec_u64 d;
          (oid, d) \<leftarrow> dec_u64 d;
          Some (\<lparr> oi_namespace_kind = kind, oi_namespace_id = namespace_id,
                  oi_writer_fence = writer_fence, oi_object_id = oid \<rparr>, d) }"

record object_ref =
  or_identity :: object_identity
  or_min_seq :: u64
  or_max_seq :: u64
  or_batch_id :: u64
  or_chunk_index :: u32
  or_chunk_count :: u32
  or_first_key :: block_key
  or_last_key :: block_key
  or_pre_state_checksum :: u64
  or_post_state_checksum :: u64
  or_size :: u32
  or_footer_offset :: u32
  or_footer_length :: u32
  or_object_checksum :: u64

definition ref_from_blx :: "blx_object \<Rightarrow> object_ref option" where
  "ref_from_blx obj =
     (let h = bo_header obj in
      do { guard_opt (fits_u32 (length (bo_bytes obj)));
           Some \<lparr> or_identity = \<lparr> oi_namespace_kind = bh_namespace_kind h, oi_namespace_id = bh_namespace_id h,
                    oi_writer_fence = bh_writer_fence h, oi_object_id = bh_object_id h \<rparr>,
                  or_min_seq = bh_min_seq h, or_max_seq = bh_max_seq h, or_batch_id = bh_batch_id h,
                  or_chunk_index = bh_chunk_index h, or_chunk_count = bh_chunk_count h,
                  or_first_key = bh_first_key h, or_last_key = bh_last_key h,
                  or_pre_state_checksum = bh_pre_state_checksum h,
                  or_post_state_checksum = bh_post_state_checksum h,
                  or_size = of_nat (length (bo_bytes obj)), or_footer_offset = bo_footer_offset obj,
                  or_footer_length = bo_footer_length obj, or_object_checksum = bo_checksum obj \<rparr> })"

definition enc_object_ref :: "object_ref \<Rightarrow> bytes" where
  "enc_object_ref r =
     enc_identity (or_identity r) @ enc_u64 (or_min_seq r) @ enc_u64 (or_max_seq r) @ enc_u64 (or_batch_id r) @
     enc_u32 (or_chunk_index r) @ enc_u32 (or_chunk_count r) @ enc_block_key (or_first_key r) @
     enc_block_key (or_last_key r) @ enc_u64 (or_pre_state_checksum r) @ enc_u64 (or_post_state_checksum r) @
     enc_u32 (or_size r) @ enc_u32 (or_footer_offset r) @ enc_u32 (or_footer_length r) @
     enc_u64 (or_object_checksum r)"

definition object_ref_valid :: "env \<Rightarrow> object_ref \<Rightarrow> bool" where
  "object_ref_valid E r \<longleftrightarrow>
     \<not> (or_min_seq r > or_max_seq r \<or> or_chunk_count r = 0 \<or> or_chunk_index r \<ge> or_chunk_count r \<or>
        block_key_less E (or_last_key r) (or_first_key r) \<or> or_size r = 0 \<or> or_footer_length r = 0 \<or>
        (case checked_add (or_footer_offset r) (or_footer_length r) of
           None \<Rightarrow> True | Some end_off \<Rightarrow> end_off > or_size r))"

definition dec_object_ref :: "env \<Rightarrow> bytes \<Rightarrow> (object_ref \<times> bytes) option" where
  "dec_object_ref E d =
     do { (i, d) \<leftarrow> dec_identity d;
          (min_seq, d) \<leftarrow> dec_u64 d;
          (max_seq, d) \<leftarrow> dec_u64 d;
          (batch_id, d) \<leftarrow> dec_u64 d;
          (chunk_index, d) \<leftarrow> dec_u32 d;
          (chunk_count, d) \<leftarrow> dec_u32 d;
          (first_key, d) \<leftarrow> dec_block_key d;
          (last_key, d) \<leftarrow> dec_block_key d;
          (pre, d) \<leftarrow> dec_u64 d;
          (post, d) \<leftarrow> dec_u64 d;
          (sz, d) \<leftarrow> dec_u32 d;
          (footer_offset, d) \<leftarrow> dec_u32 d;
          (footer_length, d) \<leftarrow> dec_u32 d;
          (checksum, d) \<leftarrow> dec_u64 d;
          let r = \<lparr> or_identity = i, or_min_seq = min_seq, or_max_seq = max_seq, or_batch_id = batch_id,
                    or_chunk_index = chunk_index, or_chunk_count = chunk_count, or_first_key = first_key,
                    or_last_key = last_key, or_pre_state_checksum = pre, or_post_state_checksum = post,
                    or_size = sz, or_footer_offset = footer_offset, or_footer_length = footer_length,
                    or_object_checksum = checksum \<rparr>;
          guard_opt (object_ref_valid E r);
          Some (r, d) }"

text \<open>The derived ordering of identities: field by field, in declaration order.\<close>

definition identity_rank :: "object_identity \<Rightarrow> u8 \<times> u64 \<times> u64 \<times> u64" where
  "identity_rank i =
     (namespace_tag (oi_namespace_kind i), oi_namespace_id i, oi_writer_fence i, oi_object_id i)"

definition identity_less :: "object_identity \<Rightarrow> object_identity \<Rightarrow> bool" where
  "identity_less a b \<longleftrightarrow> identity_rank a < identity_rank b"

definition batch_key_less :: "object_identity \<times> u64 \<Rightarrow> object_identity \<times> u64 \<Rightarrow> bool" where
  "batch_key_less a b \<longleftrightarrow> (identity_rank (fst a), snd a) < (identity_rank (fst b), snd b)"

section \<open>Validation of reference lists\<close>

record ref_batch =
  rb_chunk_count :: u32
  rb_min_seq :: u64
  rb_max_seq :: u64
  rb_pre_state_checksum :: u64
  rb_post_state_checksum :: u64
  rb_chunks :: "(u32, block_key \<times> block_key) btree_map"

definition batch_key :: "object_ref \<Rightarrow> object_identity \<times> u64" where
  "batch_key r = ((or_identity r)\<lparr> oi_object_id := 0 \<rparr>, or_batch_id r)"

definition new_batch :: "object_ref \<Rightarrow> ref_batch" where
  "new_batch r = \<lparr> rb_chunk_count = or_chunk_count r, rb_min_seq = or_min_seq r, rb_max_seq = or_max_seq r,
     rb_pre_state_checksum = or_pre_state_checksum r, rb_post_state_checksum = or_post_state_checksum r,
     rb_chunks = [] \<rparr>"

text \<open>The first loop of \<^verbatim>\<open>validate_objects\<close>.\<close>

fun collect_batches ::
  "object_identity btree_set \<Rightarrow> (object_identity \<times> u64, ref_batch) btree_map \<Rightarrow> object_ref list \<Rightarrow>
   (object_identity \<times> u64, ref_batch) btree_map option" where
  "collect_batches identities batches [] = Some batches"
| "collect_batches identities batches (r # rs) =
     do { guard_opt (or_identity r \<notin> set identities);
          let batch = (case map_of batches (batch_key r) of Some b \<Rightarrow> b | None \<Rightarrow> new_batch r);
          guard_opt (\<not> (rb_chunk_count batch \<noteq> or_chunk_count r \<or> rb_min_seq batch \<noteq> or_min_seq r \<or>
                        rb_max_seq batch \<noteq> or_max_seq r \<or>
                        rb_pre_state_checksum batch \<noteq> or_pre_state_checksum r \<or>
                        rb_post_state_checksum batch \<noteq> or_post_state_checksum r \<or>
                        map_of (rb_chunks batch) (or_chunk_index r) \<noteq> None));
          collect_batches (bs_insert identity_less (or_identity r) identities)
            (bm_insert batch_key_less (batch_key r)
               (batch\<lparr> rb_chunks := bm_insert (<) (or_chunk_index r) (or_first_key r, or_last_key r)
                                     (rb_chunks batch) \<rparr>) batches) rs }"

fun chunks_ascend :: "env \<Rightarrow> block_key option \<Rightarrow> (block_key \<times> block_key) list \<Rightarrow> bool" where
  "chunks_ascend E previous [] = True"
| "chunks_ascend E previous ((fk, lk) # cs) =
     ((case previous of None \<Rightarrow> True | Some p \<Rightarrow> block_key_less E p fk) \<and> chunks_ascend E (Some lk) cs)"

definition batch_complete :: "env \<Rightarrow> ref_batch \<Rightarrow> bool" where
  "batch_complete E b \<longleftrightarrow>
     \<not> (length (rb_chunks b) \<noteq> unat (rb_chunk_count b) \<or>
        \<not> list_all (\<lambda>i. map_of (rb_chunks b) (of_nat i) \<noteq> None) [0..<unat (rb_chunk_count b)]) \<and>
     chunks_ascend E None (bm_values (rb_chunks b))"

text \<open>The start and end counts per key, \<^verbatim>\<open>events.entry(key).or_default() += 1\<close>.\<close>

definition bump_start :: "env \<Rightarrow> block_key \<Rightarrow> (block_key, nat \<times> nat) btree_map \<Rightarrow> (block_key, nat \<times> nat) btree_map" where
  "bump_start E k m = (let (s, e) = (case map_of m k of Some p \<Rightarrow> p | None \<Rightarrow> (0, 0)) in
     bm_insert (block_key_less E) k (s + 1, e) m)"

definition bump_end :: "env \<Rightarrow> block_key \<Rightarrow> (block_key, nat \<times> nat) btree_map \<Rightarrow> (block_key, nat \<times> nat) btree_map" where
  "bump_end E k m = (let (s, e) = (case map_of m k of Some p \<Rightarrow> p | None \<Rightarrow> (0, 0)) in
     bm_insert (block_key_less E) k (s, e + 1) m)"

definition range_events :: "env \<Rightarrow> object_ref list \<Rightarrow> (block_key, nat \<times> nat) btree_map" where
  "range_events E rs = foldl (\<lambda>m r. bump_end E (or_last_key r) (bump_start E (or_first_key r) m)) [] rs"

fun overlap_sweep :: "nat option \<Rightarrow> nat \<Rightarrow> (block_key, nat \<times> nat) btree_map \<Rightarrow> nat option" where
  "overlap_sweep maximum overlapping [] = Some overlapping"
| "overlap_sweep maximum overlapping ((k, starts, ends) # es) =
     do { n \<leftarrow> usize_checked_add overlapping starts;
          guard_opt (\<not> ((case maximum of None \<Rightarrow> False | Some m \<Rightarrow> n > m) \<or> ends > n));
          overlap_sweep maximum (n - ends) es }"

definition validate_objects :: "env \<Rightarrow> object_ref list \<Rightarrow> nat option \<Rightarrow> unit option" where
  "validate_objects E rs maximum =
     do { batches \<leftarrow> collect_batches [] [] rs;
          guard_opt (list_all (batch_complete E) (bm_values batches));
          overlapping \<leftarrow> overlap_sweep maximum 0 (range_events E rs);
          guard_opt (overlapping = 0) }"

definition validate_object_refs :: "env \<Rightarrow> object_ref list \<Rightarrow> unit option" where
  "validate_object_refs E rs = validate_objects E rs (Some MAX_OVERLAPPING_FILES)"

definition validate_journal_object_refs :: "env \<Rightarrow> object_ref list \<Rightarrow> unit option" where
  "validate_journal_object_refs E rs = validate_objects E rs None"

fun max_sweep :: "nat \<Rightarrow> nat \<Rightarrow> (block_key, nat \<times> nat) btree_map \<Rightarrow> nat" where
  "max_sweep overlapping maximum [] = maximum"
| "max_sweep overlapping maximum ((k, starts, ends) # es) =
     (let n = min (overlapping + starts) usize_max in max_sweep (n - ends) (max maximum n) es)"

definition max_object_overlap :: "env \<Rightarrow> object_ref list \<Rightarrow> nat" where
  "max_object_overlap E rs = max_sweep 0 0 (range_events E rs)"

section \<open>Codecs\<close>

lemma dec_identity_iff [codec_simps]: "dec_identity d = Some (i, r) \<longleftrightarrow> d = enc_identity i @ r"
proof
  show "dec_identity d = Some (i, r) \<Longrightarrow> d = enc_identity i @ r"
    by (auto simp: dec_identity_def enc_identity_def codec_simps elim!: bind_SomeE)
qed (simp add: dec_identity_def enc_identity_def)

interpretation identityc: codec enc_identity dec_identity "\<lambda>_. True"
  by unfold_locales (simp add: dec_identity_iff)

lemma dec_enc_identity [simp]: "dec_identity (enc_identity i @ r) = Some (i, r)"
  by (simp add: dec_identity_iff)

lemma length_enc_identity [simp]: "length (enc_identity i) = 25"
  by (simp add: enc_identity_def)

lemma dec_object_ref_iff [codec_simps]:
  "dec_object_ref E d = Some (v, r) \<longleftrightarrow> object_ref_valid E v \<and> d = enc_object_ref v @ r"
proof
  show "dec_object_ref E d = Some (v, r) \<Longrightarrow> object_ref_valid E v \<and> d = enc_object_ref v @ r"
    by (auto simp: dec_object_ref_def enc_object_ref_def codec_simps Let_def elim!: bind_SomeE)
qed (cases v, simp add: dec_object_ref_def enc_object_ref_def Let_def)

interpretation object_refc: codec enc_object_ref "dec_object_ref E" "object_ref_valid E" for E
  by unfold_locales (rule dec_object_ref_iff)

lemma dec_enc_object_ref [simp]: "object_ref_valid E v \<Longrightarrow> dec_object_ref E (enc_object_ref v @ r) = Some (v, r)"
  by (simp add: dec_object_ref_iff)

lemma length_enc_object_ref [simp]: "length (enc_object_ref v) = 109"
  by (simp add: enc_object_ref_def)

section \<open>Orderings\<close>

lemma identity_rank_inj: "identity_rank a = identity_rank b \<Longrightarrow> a = b"
  by (cases a; cases b) (simp add: identity_rank_def)

interpretation identity_order: key_order identity_less
  unfolding identity_less_def [abs_def] by (rule key_order_of_rank) (rule identity_rank_inj)

interpretation batch_order: key_order batch_key_less
  unfolding batch_key_less_def [abs_def]
  by (rule key_order_of_rank) (auto dest: identity_rank_inj)

section \<open>The sweep over range end points\<close>

text \<open>How many references' key ranges contain a key.\<close>

definition covers :: "env \<Rightarrow> object_ref \<Rightarrow> block_key \<Rightarrow> bool" where
  "covers E r k \<longleftrightarrow> \<not> block_key_less E k (or_first_key r) \<and> \<not> block_key_less E (or_last_key r) k"

definition cover_count :: "env \<Rightarrow> object_ref list \<Rightarrow> block_key \<Rightarrow> nat" where
  "cover_count E rs k = length (filter (\<lambda>r. covers E r k) rs)"

text \<open>The references whose range has started but not ended within a set of keys.\<close>

definition open_count :: "object_ref list \<Rightarrow> block_key set \<Rightarrow> nat" where
  "open_count rs S = length (filter (\<lambda>r. or_first_key r \<in> S \<and> or_last_key r \<notin> S) rs)"

definition starts_at :: "object_ref list \<Rightarrow> block_key \<Rightarrow> nat" where
  "starts_at rs k = length (filter (\<lambda>r. or_first_key r = k) rs)"

definition ends_at :: "object_ref list \<Rightarrow> block_key \<Rightarrow> nat" where
  "ends_at rs k = length (filter (\<lambda>r. or_last_key r = k) rs)"

definition event_at :: "(block_key, nat \<times> nat) btree_map \<Rightarrow> block_key \<Rightarrow> nat \<times> nat" where
  "event_at m k = (case map_of m k of Some p \<Rightarrow> p | None \<Rightarrow> (0, 0))"

lemma bump_eq:
  "bump_start E k m = bm_insert (block_key_less E) k (fst (event_at m k) + 1, snd (event_at m k)) m"
  "bump_end E k m = bm_insert (block_key_less E) k (fst (event_at m k), snd (event_at m k) + 1) m"
  by (simp_all add: bump_start_def bump_end_def event_at_def split: prod.split option.split)

lemma event_at_bump:
  "event_at (bump_start E k m) k' = (if k' = k then (fst (event_at m k) + 1, snd (event_at m k)) else event_at m k')"
  "event_at (bump_end E k m) k' = (if k' = k then (fst (event_at m k), snd (event_at m k) + 1) else event_at m k')"
  unfolding bump_eq by (simp_all add: event_at_def [of "bm_insert _ _ _ _"] block_order.map_of_insert)
    (simp_all add: event_at_def)

lemma keys_bump:
  "fst ` set (bump_start E k m) = insert k (fst ` set m)" "fst ` set (bump_end E k m) = insert k (fst ` set m)"
  by (simp_all add: bump_eq block_order.keys_insert)

lemma ordered_bump:
  assumes "bm_ordered (block_key_less E) m"
  shows "bm_ordered (block_key_less E) (bump_start E k m)" "bm_ordered (block_key_less E) (bump_end E k m)"
  using assms by (simp_all add: bump_eq block_order.ordered_insert)

lemma range_events_snoc:
  "range_events E (rs @ [r]) = bump_end E (or_last_key r) (bump_start E (or_first_key r) (range_events E rs))"
  by (simp add: range_events_def)

lemma range_events_spec:
  "bm_ordered (block_key_less E) (range_events E rs) \<and>
   fst ` set (range_events E rs) = or_first_key ` set rs \<union> or_last_key ` set rs \<and>
   (\<forall>k. event_at (range_events E rs) k = (starts_at rs k, ends_at rs k))"
proof (induction rs rule: rev_induct)
  case Nil
  then show ?case by (simp add: range_events_def bm_ordered_def event_at_def starts_at_def ends_at_def)
next
  case (snoc r rs)
  then show ?case
    by (auto simp: range_events_snoc ordered_bump keys_bump event_at_bump starts_at_def ends_at_def)
qed

lemma range_event_counts:
  "(k, s, e) \<in> set (range_events E rs) \<Longrightarrow> s = starts_at rs k \<and> e = ends_at rs k"
proof -
  assume "(k, s, e) \<in> set (range_events E rs)"
  then have "map_of (range_events E rs) k = Some (s, e)"
    using block_order.get_iff_mem [OF conjunct1 [OF range_events_spec]] by blast
  then have "event_at (range_events E rs) k = (s, e)" by (simp add: event_at_def)
  then show ?thesis using range_events_spec [of E rs] by simp
qed

lemma open_count_step:
  assumes "k \<notin> S" "\<forall>r \<in> set rs. or_last_key r \<in> S \<longrightarrow> or_first_key r \<in> S"
    and "\<forall>r \<in> set rs. or_last_key r = k \<longrightarrow> or_first_key r \<in> insert k S"
  shows "open_count rs S + starts_at rs k =
      length (filter (\<lambda>r. or_first_key r \<in> insert k S \<and> or_last_key r \<notin> S) rs)"
    and "open_count rs (insert k S) + ends_at rs k =
      length (filter (\<lambda>r. or_first_key r \<in> insert k S \<and> or_last_key r \<notin> S) rs)"
  using assms by (induction rs) (auto simp: open_count_def starts_at_def ends_at_def)

definition ranges_ordered :: "env \<Rightarrow> object_ref list \<Rightarrow> bool" where
  "ranges_ordered E rs \<longleftrightarrow> (\<forall>r \<in> set rs. \<not> block_key_less E (or_last_key r) (or_first_key r))"

lemma sweep_at:
  assumes wf: "ranges_ordered E rs" and split: "range_events E rs = pre @ (k, s, e) # es"
  shows "open_count rs (fst ` set pre) + s = cover_count E rs k"
    and "open_count rs (insert k (fst ` set pre)) + e = cover_count E rs k"
proof -
  let ?S = "fst ` set pre"
  let ?less = "block_key_less E"
  have ord: "sorted_wrt ?less (map fst pre @ k # map fst es)"
    using range_events_spec [of E rs] by (simp add: split bm_ordered_def)
  have keys: "or_first_key r \<in> ?S \<or> or_first_key r = k \<or> or_first_key r \<in> fst ` set es"
    "or_last_key r \<in> ?S \<or> or_last_key r = k \<or> or_last_key r \<in> fst ` set es" if "r \<in> set rs" for r
  proof -
    have "fst ` set (pre @ (k, s, e) # es) = or_first_key ` set rs \<union> or_last_key ` set rs"
      using range_events_spec [of E rs] by (simp add: split)
    then have "?S \<union> {k} \<union> fst ` set es = or_first_key ` set rs \<union> or_last_key ` set rs"
      by (simp add: image_Un)
    with that show "or_first_key r \<in> ?S \<or> or_first_key r = k \<or> or_first_key r \<in> fst ` set es"
      "or_last_key r \<in> ?S \<or> or_last_key r = k \<or> or_last_key r \<in> fst ` set es"
      by blast+
  qed
  have lo: "?less x k" if "x \<in> ?S" for x using ord that by (auto simp: sorted_wrt_append)
  have hi: "?less k x" if "x \<in> fst ` set es" for x using ord that by (auto simp: sorted_wrt_append)
  have kS: "k \<notin> ?S" using lo block_order.irrefl by blast
  have below: "x \<in> ?S \<longleftrightarrow> ?less x k" if "x \<in> ?S \<or> x = k \<or> x \<in> fst ` set es" for x
    using that lo hi block_order.asym block_order.irrefl by blast
  have first: "or_first_key r \<in> insert k ?S \<longleftrightarrow> \<not> ?less k (or_first_key r)" if "r \<in> set rs" for r
    using keys(1) [OF that] lo hi block_order.asym block_order.irrefl by blast
  have last: "or_last_key r \<notin> ?S \<longleftrightarrow> \<not> ?less (or_last_key r) k" if "r \<in> set rs" for r
    using below keys(2) [OF that] by blast
  have wfr: "\<not> ?less (or_last_key r) (or_first_key r)" if "r \<in> set rs" for r
    using wf that by (simp add: ranges_ordered_def)
  have close1: "\<forall>r \<in> set rs. or_last_key r \<in> ?S \<longrightarrow> or_first_key r \<in> ?S"
  proof (intro ballI impI)
    fix r
    assume r: "r \<in> set rs" and l: "or_last_key r \<in> ?S"
    from l have "?less (or_last_key r) k" by (rule lo)
    then have "?less (or_first_key r) k"
      using wfr [OF r] block_order.total [of "or_first_key r" "or_last_key r"] block_order.trans by metis
    then show "or_first_key r \<in> ?S" using below keys(1) [OF r] by blast
  qed
  have close2: "\<forall>r \<in> set rs. or_last_key r = k \<longrightarrow> or_first_key r \<in> insert k ?S"
    using wfr first by blast
  have cov: "length (filter (\<lambda>r. or_first_key r \<in> insert k ?S \<and> or_last_key r \<notin> ?S) rs) = cover_count E rs k"
    unfolding cover_count_def covers_def using first last by (intro arg_cong [where f = length] filter_cong) auto
  have counts: "s = starts_at rs k" "e = ends_at rs k"
    using range_event_counts [of k s e E rs] by (simp_all add: split)
  show "open_count rs ?S + s = cover_count E rs k" "open_count rs (insert k ?S) + e = cover_count E rs k"
    using open_count_step [OF kS close1 close2] by (simp_all only: cov counts)
qed

lemma cover_count_le: "cover_count E rs k \<le> length rs"
  by (simp add: cover_count_def)

lemma open_count_all:
  assumes "range_events E rs = pre"
  shows "open_count rs (fst ` set pre) = 0"
  using range_events_spec [of E rs] by (simp add: assms open_count_def filter_empty_conv)

lemma open_count_none [simp]: "open_count rs {} = 0"
  by (simp add: open_count_def)

lemma max_sweep_spec:
  assumes "ranges_ordered E rs" "length rs \<le> usize_max"
  shows "range_events E rs = pre @ es \<Longrightarrow>
    max_sweep (open_count rs (fst ` set pre)) mx es = foldl max mx (map (\<lambda>x. cover_count E rs (fst x)) es)"
proof (induction es arbitrary: pre mx)
  case Nil
  then show ?case by simp
next
  case (Cons x es)
  obtain k s e where x: "x = (k, s, e)" by (metis prod_cases3)
  have split: "range_events E rs = pre @ (k, s, e) # es" using Cons.prems by (simp add: x)
  note at = sweep_at [OF assms(1) split]
  have min: "min (open_count rs (fst ` set pre) + s) usize_max = cover_count E rs k"
    using at(1) cover_count_le [of E rs k] assms(2) by simp
  have "cover_count E rs k - e = open_count rs (fst ` set (pre @ [x]))"
    using at(2) by (simp add: x)
  then show ?case using Cons.IH [of "pre @ [x]"] Cons.prems by (simp add: x min Let_def)
qed

lemma overlap_sweep_spec:
  assumes "ranges_ordered E rs" "length rs \<le> usize_max"
  shows "range_events E rs = pre @ es \<Longrightarrow>
    overlap_sweep maximum (open_count rs (fst ` set pre)) es =
    (if \<forall>x \<in> set es. case maximum of None \<Rightarrow> True | Some m \<Rightarrow> cover_count E rs (fst x) \<le> m then Some 0 else None)"
proof (induction es arbitrary: pre)
  case Nil
  then show ?case using open_count_all [of E rs pre] by simp
next
  case (Cons x es)
  obtain k s e where x: "x = (k, s, e)" by (metis prod_cases3)
  have split: "range_events E rs = pre @ (k, s, e) # es" using Cons.prems by (simp add: x)
  note at = sweep_at [OF assms(1) split]
  have add: "usize_checked_add (open_count rs (fst ` set pre)) s = Some (cover_count E rs k)"
    using at(1) cover_count_le [of E rs k] assms(2) by (simp add: usize_checked_add_def)
  have e: "\<not> cover_count E rs k < e" "cover_count E rs k - e = open_count rs (fst ` set (pre @ [x]))"
    using at(2) by (simp_all add: x)
  show ?case using Cons.IH [of "pre @ [x]"] Cons.prems e
    by (auto simp: x add guard_opt_def split: option.splits)
qed

text \<open>The count is largest at some range's first key.\<close>

lemma cover_count_at_event:
  assumes "0 < cover_count E rs k"
  shows "\<exists>k' \<in> fst ` set (range_events E rs). cover_count E rs k \<le> cover_count E rs k'"
proof -
  let ?cov = "filter (\<lambda>r. covers E r k) rs"
  have "map or_first_key ?cov \<noteq> []" using assms by (simp add: cover_count_def)
  then obtain m where m: "m \<in> set (map or_first_key ?cov)" "\<forall>x \<in> set (map or_first_key ?cov). \<not> block_key_less E m x"
    using block_order.greatest_exists by blast
  have mk: "\<not> block_key_less E k m" using m(1) by (auto simp: covers_def)
  have sub: "covers E r m" if "r \<in> set ?cov" for r
    using that m(2) mk block_order.total [of m k] block_order.trans by (auto simp: covers_def) metis
  have "cover_count E rs k \<le> cover_count E rs m"
  proof -
    have "filter (\<lambda>r. covers E r k) rs = filter (\<lambda>r. covers E r k) (filter (\<lambda>r. covers E r m) rs)"
      using sub by (auto intro!: filter_cong)
    then show ?thesis unfolding cover_count_def by (metis length_filter_le)
  qed
  moreover have "m \<in> fst ` set (range_events E rs)" using m(1) range_events_spec [of E rs] by auto
  ultimately show ?thesis by blast
qed

lemma foldl_max_ge: "(mx :: nat) \<le> foldl max mx xs \<and> (\<forall>x \<in> set xs. x \<le> foldl max mx xs)"
proof (induction xs arbitrary: mx)
  case (Cons x xs)
  have "max mx x \<le> foldl max (max mx x) xs" using Cons.IH by blast
  then show ?case using Cons.IH [of "max mx x"] by simp
qed simp

lemma foldl_max_in: "foldl max (mx :: nat) xs = mx \<or> foldl max mx xs \<in> set xs"
proof (induction xs arbitrary: mx)
  case (Cons x xs)
  then show ?case using Cons.IH [of "max mx x"] by (auto simp: max_def)
qed simp

text \<open>
  C24: \<^verbatim>\<open>max_object_overlap\<close> computes the maximal overlap: no key lies in the ranges of more
  references than it returns, and, unless it returns zero, some key lies in exactly that many.
\<close>

theorem max_object_overlap_exact:
  assumes "ranges_ordered E rs" "length rs \<le> usize_max"
  shows "(\<forall>k. cover_count E rs k \<le> max_object_overlap E rs) \<and>
    (max_object_overlap E rs = 0 \<or> (\<exists>k. cover_count E rs k = max_object_overlap E rs))"
proof -
  have eq: "max_object_overlap E rs = foldl max 0 (map (\<lambda>x. cover_count E rs (fst x)) (range_events E rs))"
    using max_sweep_spec [OF assms, of "[]" "range_events E rs" 0] by (simp add: max_object_overlap_def)
  have "cover_count E rs k \<le> max_object_overlap E rs" for k
  proof (cases "cover_count E rs k = 0")
    case False
    then obtain x where x: "x \<in> set (range_events E rs)" "cover_count E rs k \<le> cover_count E rs (fst x)"
      using cover_count_at_event [of E rs k] by auto
    then have "cover_count E rs (fst x) \<in> set (map (\<lambda>x. cover_count E rs (fst x)) (range_events E rs))" by simp
    then show ?thesis using x(2) foldl_max_ge [of 0 "map (\<lambda>x. cover_count E rs (fst x)) (range_events E rs)"]
      unfolding eq by (meson order_trans)
  qed simp
  moreover have "max_object_overlap E rs = 0 \<or> (\<exists>k. cover_count E rs k = max_object_overlap E rs)"
    using foldl_max_in [of 0 "map (\<lambda>x. cover_count E rs (fst x)) (range_events E rs)"] unfolding eq by auto
  ultimately show ?thesis by blast
qed

text \<open>Two overlapping references of one batch-free volume, for closed examples.\<close>

definition demo_ref :: "u64 \<Rightarrow> u32 \<Rightarrow> u32 \<Rightarrow> object_ref" where
  "demo_ref oid a b = \<lparr> or_identity = identity_volume 7 2 oid, or_min_seq = 1, or_max_seq = 1,
     or_batch_id = oid, or_chunk_index = 0, or_chunk_count = 1,
     or_first_key = \<lparr> bk_space = BS_Data, bk_block = a \<rparr>, or_last_key = \<lparr> bk_space = BS_Data, bk_block = b \<rparr>,
     or_pre_state_checksum = 3, or_post_state_checksum = 3, or_size = 400, or_footer_offset = 200,
     or_footer_length = 100, or_object_checksum = 17 \<rparr>"

lemma demo_less [simp]:
  "block_key_less demo_env \<lparr> bk_space = BS_Data, bk_block = a \<rparr> \<lparr> bk_space = BS_Data, bk_block = b \<rparr> \<longleftrightarrow>
   (a div 1024, a mod 1024) < (b div 1024, b mod 1024)"
  by (simp add: block_key_less_def block_rank_def namespace_rank_def blocks_per_file_partition_def
      NAMESPACES_PER_FILE_PARTITION_def TARGET_FILE_BYTES_def demo_env_def)

lemma demo_refs_ordered: "ranges_ordered demo_env [demo_ref 1 2 9, demo_ref 2 5 12]"
  by (simp add: ranges_ordered_def demo_ref_def)

theorem max_object_overlap_exact_witness:
  "cover_count demo_env [demo_ref 1 2 9, demo_ref 2 5 12] \<lparr> bk_space = BS_Data, bk_block = 7 \<rparr> \<le>
   max_object_overlap demo_env [demo_ref 1 2 9, demo_ref 2 5 12]"
  using max_object_overlap_exact [OF demo_refs_ordered] by (simp add: usize_max_def)

section \<open>Batches\<close>

definition headers_agree :: "object_ref \<Rightarrow> object_ref \<Rightarrow> bool" where
  "headers_agree r s \<longleftrightarrow> or_chunk_count r = or_chunk_count s \<and> or_min_seq r = or_min_seq s \<and>
     or_max_seq r = or_max_seq s \<and> or_pre_state_checksum r = or_pre_state_checksum s \<and>
     or_post_state_checksum r = or_post_state_checksum s"

definition chunks_compatible :: "object_ref \<Rightarrow> object_ref \<Rightarrow> bool" where
  "chunks_compatible r s \<longleftrightarrow> or_identity r \<noteq> or_identity s \<and>
     (batch_key r = batch_key s \<longrightarrow> headers_agree r s \<and> or_chunk_index r \<noteq> or_chunk_index s)"

text \<open>The chunk map and the batch that the loop holds for a group of references.\<close>

definition chunk_entry :: "object_ref \<Rightarrow> u32 \<times> block_key \<times> block_key" where
  "chunk_entry r = (or_chunk_index r, or_first_key r, or_last_key r)"

definition batch_of :: "object_ref list \<Rightarrow> ref_batch option" where
  "batch_of g = (case g of [] \<Rightarrow> None
     | r # _ \<Rightarrow> Some ((new_batch r)\<lparr> rb_chunks := bm_collect (<) (map chunk_entry g) \<rparr>))"

definition group_of :: "object_ref list \<Rightarrow> object_identity \<times> u64 \<Rightarrow> object_ref list" where
  "group_of rs key = filter (\<lambda>r. batch_key r = key) rs"

definition batches_for ::
  "(object_identity \<times> u64, ref_batch) btree_map \<Rightarrow> object_ref list \<Rightarrow> bool" where
  "batches_for batches rs \<longleftrightarrow> bm_ordered batch_key_less batches \<and>
     (\<forall>key. map_of batches key = batch_of (group_of rs key))"

lemma batches_for_Nil: "batches_for [] []"
  by (simp add: batches_for_def bm_ordered_def batch_of_def group_of_def)

lemma batches_forD: "batches_for batches rs \<Longrightarrow> map_of batches key = batch_of (group_of rs key)"
  unfolding batches_for_def by blast

lemma batches_forI:
  "bm_ordered batch_key_less batches \<Longrightarrow> (\<And>key. map_of batches key = batch_of (group_of rs key)) \<Longrightarrow>
   batches_for batches rs"
  unfolding batches_for_def by blast

lemma set_group_of [simp]: "set (group_of rs key) = {r \<in> set rs. batch_key r = key}"
  by (simp add: group_of_def)

lemma group_of_snoc: "group_of (ps @ [r]) key = group_of ps key @ (if batch_key r = key then [r] else [])"
  by (simp add: group_of_def)

lemma group_head_agree:
  assumes "sorted_wrt chunks_compatible (ps @ [r])" "group_of ps (batch_key r) = x # xs"
  shows "headers_agree x r"
proof -
  have "x \<in> set (group_of ps (batch_key r))" using assms(2) by simp
  then have "x \<in> set ps" "batch_key x = batch_key r" by (auto simp: group_of_def)
  then show ?thesis using assms(1) by (auto simp: sorted_wrt_append chunks_compatible_def)
qed

lemma collected_chunk_None:
  "map_of (bm_collect (<) (map chunk_entry g)) i = None \<longleftrightarrow> (\<forall>s \<in> set g. or_chunk_index s \<noteq> i)"
  by (auto simp: linear.map_of_collect map_of_eq_None_iff chunk_entry_def image_iff)

lemma batch_of_snoc:
  "batch_of (g @ [r]) = (let b = (case batch_of g of Some b \<Rightarrow> b | None \<Rightarrow> new_batch r) in
     Some (b\<lparr> rb_chunks := bm_insert (<) (or_chunk_index r) (or_first_key r, or_last_key r) (rb_chunks b) \<rparr>))"
proof (cases g)
  case Nil
  then show ?thesis by (simp add: batch_of_def new_batch_def chunk_entry_def bm_collect_def)
next
  case (Cons x xs)
  have "bm_collect (<) (map chunk_entry g @ [chunk_entry r]) =
      bm_insert (<) (or_chunk_index r) (or_first_key r, or_last_key r) (bm_collect (<) (map chunk_entry g))"
    by (simp add: chunk_entry_def linear.collect_snoc)
  then show ?thesis by (simp add: Cons batch_of_def)
qed

text \<open>The guard of one step of the loop says that the new reference is compatible with all earlier ones.\<close>

lemma collect_guard:
  assumes bs: "batches_for batches ps" and ids: "set identities = or_identity ` set ps"
    and compat: "sorted_wrt chunks_compatible ps"
    and b: "b = (case map_of batches (batch_key r) of Some b \<Rightarrow> b | None \<Rightarrow> new_batch r)"
  shows "(or_identity r \<notin> set identities \<and> rb_chunk_count b = or_chunk_count r \<and> rb_min_seq b = or_min_seq r \<and>
      rb_max_seq b = or_max_seq r \<and> rb_pre_state_checksum b = or_pre_state_checksum r \<and>
      rb_post_state_checksum b = or_post_state_checksum r \<and> map_of (rb_chunks b) (or_chunk_index r) = None) \<longleftrightarrow>
    sorted_wrt chunks_compatible (ps @ [r])"
proof (cases "group_of ps (batch_key r)")
  case Nil
  then have "b = new_batch r" using batches_forD [OF bs] by (simp add: b batch_of_def)
  moreover have "\<forall>s \<in> set ps. batch_key s \<noteq> batch_key r" using Nil by (simp add: group_of_def filter_empty_conv)
  ultimately show ?thesis using ids compat
    by (auto simp: new_batch_def sorted_wrt_append chunks_compatible_def) (metis image_eqI)
next
  case (Cons x xs)
  have mem: "set (x # xs) = {s \<in> set ps. batch_key s = batch_key r}"
    unfolding Cons [symmetric] by (rule set_group_of)
  then have x: "x \<in> set ps" "batch_key x = batch_key r" by auto
  have bb: "b = (new_batch x)\<lparr> rb_chunks := bm_collect (<) (map chunk_entry (x # xs)) \<rparr>"
    using batches_forD [OF bs] Cons by (simp add: b batch_of_def)
  have agree: "headers_agree s r" if "s \<in> set ps" "batch_key s = batch_key r" "headers_agree x r" for s
  proof -
    have "s \<in> set (x # xs)" using that(1,2) unfolding mem by simp
    moreover have "sorted_wrt chunks_compatible (x # xs)"
      using compat Cons by (metis group_of_def sorted_wrt_filter)
    ultimately have "s = x \<or> headers_agree x s"
      using that(2) x(2) by (auto simp: chunks_compatible_def)
    then show ?thesis using that(3) by (auto simp: headers_agree_def)
  qed
  have "(rb_chunk_count b = or_chunk_count r \<and> rb_min_seq b = or_min_seq r \<and>
      rb_max_seq b = or_max_seq r \<and> rb_pre_state_checksum b = or_pre_state_checksum r \<and>
      rb_post_state_checksum b = or_post_state_checksum r) \<longleftrightarrow> headers_agree x r"
    by (auto simp: bb new_batch_def headers_agree_def)
  moreover have "map_of (rb_chunks b) (or_chunk_index r) = None \<longleftrightarrow>
      (\<forall>s \<in> set ps. batch_key s = batch_key r \<longrightarrow> or_chunk_index s \<noteq> or_chunk_index r)"
    using mem by (simp add: bb collected_chunk_None del: list.set list.map) blast
  moreover have "sorted_wrt chunks_compatible (ps @ [r]) \<longleftrightarrow> or_identity r \<notin> set identities \<and>
      (\<forall>s \<in> set ps. batch_key s = batch_key r \<longrightarrow> headers_agree s r \<and> or_chunk_index s \<noteq> or_chunk_index r)"
    using ids compat by (auto simp: sorted_wrt_append chunks_compatible_def) (metis image_eqI)
  ultimately show ?thesis using agree x by blast
qed

lemma collect_batches_step:
  assumes "batches_for batches ps" "set identities = or_identity ` set ps" "sorted_wrt chunks_compatible ps"
  obtains identities' batches' where
    "collect_batches identities batches (r # rs) =
      (if sorted_wrt chunks_compatible (ps @ [r]) then collect_batches identities' batches' rs else None)"
    "batches_for batches' (ps @ [r])" "set identities' = or_identity ` set (ps @ [r])"
proof -
  define b where "b = (case map_of batches (batch_key r) of Some b \<Rightarrow> b | None \<Rightarrow> new_batch r)"
  define batches' where "batches' = bm_insert batch_key_less (batch_key r)
    (b\<lparr> rb_chunks := bm_insert (<) (or_chunk_index r) (or_first_key r, or_last_key r) (rb_chunks b) \<rparr>) batches"
  define identities' where "identities' = bs_insert identity_less (or_identity r) identities"
  have "collect_batches identities batches (r # rs) =
      (if or_identity r \<notin> set identities \<and> rb_chunk_count b = or_chunk_count r \<and> rb_min_seq b = or_min_seq r \<and>
          rb_max_seq b = or_max_seq r \<and> rb_pre_state_checksum b = or_pre_state_checksum r \<and>
          rb_post_state_checksum b = or_post_state_checksum r \<and> map_of (rb_chunks b) (or_chunk_index r) = None
       then collect_batches identities' batches' rs else None)"
    by (simp add: b_def [symmetric] batches'_def identities'_def guard_opt_def Let_def)
  then have step: "collect_batches identities batches (r # rs) =
      (if sorted_wrt chunks_compatible (ps @ [r]) then collect_batches identities' batches' rs else None)"
    by (simp only: collect_guard [OF assms b_def])
  have "map_of batches' key = batch_of (group_of (ps @ [r]) key)" for key
  proof (cases "key = batch_key r")
    case True
    then show ?thesis using batches_forD [OF assms(1)]
      by (simp add: batches'_def b_def batch_order.map_of_insert group_of_snoc batch_of_snoc Let_def)
  next
    case False
    then show ?thesis using batches_forD [OF assms(1)]
      by (simp add: batches'_def batch_order.map_of_insert group_of_snoc)
  qed
  moreover have "bm_ordered batch_key_less batches'"
    using assms(1) unfolding batches_for_def batches'_def by (blast intro: batch_order.ordered_insert)
  ultimately have "batches_for batches' (ps @ [r])" by (blast intro: batches_forI)
  moreover have "set identities' = or_identity ` set (ps @ [r])"
    using assms(2) by (simp add: identities'_def identity_order.set_bs_insert)
  ultimately show thesis using step that by blast
qed

lemma collect_batches_spec:
  assumes "batches_for batches ps" "set identities = or_identity ` set ps" "sorted_wrt chunks_compatible ps"
  shows "((\<exists>out. collect_batches identities batches rs = Some out) \<longleftrightarrow> sorted_wrt chunks_compatible (ps @ rs)) \<and>
    (\<forall>out. collect_batches identities batches rs = Some out \<longrightarrow> batches_for out (ps @ rs))"
  using assms
proof (induction rs arbitrary: identities batches ps)
  case Nil
  then show ?case by simp
next
  case (Cons r rs)
  obtain identities' batches' where
    st: "collect_batches identities batches (r # rs) =
      (if sorted_wrt chunks_compatible (ps @ [r]) then collect_batches identities' batches' rs else None)"
    and nx: "batches_for batches' (ps @ [r])" "set identities' = or_identity ` set (ps @ [r])"
    using collect_batches_step [OF Cons.prems] by blast
  show ?case
  proof (cases "sorted_wrt chunks_compatible (ps @ [r])")
    case True
    then show ?thesis using Cons.IH [OF nx True] st by simp
  next
    case False
    then have "\<not> sorted_wrt chunks_compatible (ps @ r # rs)" by (auto simp: sorted_wrt_append)
    then show ?thesis using st False by simp
  qed
qed

lemma chunks_ascend_iff:
  assumes "\<forall>c \<in> set cs. \<not> block_key_less E (snd c) (fst c)"
  shows "chunks_ascend E previous cs \<longleftrightarrow>
    sorted_wrt (\<lambda>c d. block_key_less E (snd c) (fst d)) cs \<and>
    (case previous of None \<Rightarrow> True | Some p \<Rightarrow> \<forall>c \<in> set cs. block_key_less E p (fst c))"
  using assms
proof (induction cs arbitrary: previous)
  case Nil
  then show ?case by (simp split: option.split)
next
  case (Cons c cs)
  obtain f l where c: "c = (f, l)" by (meson surj_pair)
  have fl: "f = l \<or> block_key_less E f l" using Cons.prems block_order.total [of f l E] by (auto simp: c)
  have chain: "block_key_less E p x" if "block_key_less E p f" "block_key_less E l x" for p x
    using that fl block_order.trans by blast
  have "chunks_ascend E (Some l) cs \<longleftrightarrow> sorted_wrt (\<lambda>c d. block_key_less E (snd c) (fst d)) cs \<and>
      (\<forall>c \<in> set cs. block_key_less E l (fst c))"
    using Cons by simp
  then show ?case using chain by (auto simp: c split: option.split)
qed

text \<open>
  The specification of a valid reference list: identities are distinct; references of one batch
  agree on their header fields, have distinct chunk numbers covering every number below the chunk
  count, and ascend with the chunk number; and no key lies in more ranges than the limit allows.
\<close>

definition refs_ok :: "env \<Rightarrow> object_ref list \<Rightarrow> nat option \<Rightarrow> bool" where
  "refs_ok E rs maximum \<longleftrightarrow>
     sorted_wrt chunks_compatible rs \<and>
     (\<forall>r \<in> set rs. (\<forall>i < unat (or_chunk_count r). \<exists>s \<in> set rs. batch_key s = batch_key r \<and> unat (or_chunk_index s) = i) \<and>
       (\<forall>s \<in> set rs. batch_key s = batch_key r \<and> or_chunk_index r < or_chunk_index s \<longrightarrow>
         block_key_less E (or_last_key r) (or_first_key s))) \<and>
     (\<forall>m k. maximum = Some m \<longrightarrow> cover_count E rs k \<le> m)"

lemma group_chunks:
  assumes "sorted_wrt chunks_compatible rs"
  shows "bm_ordered (<) (bm_collect (<) (map chunk_entry (group_of rs key)))"
    and "set (bm_collect (<) (map chunk_entry (group_of rs key))) = chunk_entry ` set (group_of rs key)"
    and "length (bm_collect (<) (map chunk_entry (group_of rs key))) = length (group_of rs key)"
proof -
  have "sorted_wrt (\<lambda>r s. or_chunk_index r \<noteq> or_chunk_index s) (group_of rs key)"
  proof (rule sorted_wrt_mono_rel)
    show "sorted_wrt chunks_compatible (group_of rs key)"
      using assms unfolding group_of_def by (rule sorted_wrt_filter)
    show "or_chunk_index r \<noteq> or_chunk_index s"
      if "r \<in> set (group_of rs key)" "s \<in> set (group_of rs key)" "chunks_compatible r s" for r s
      using that by (auto simp: chunks_compatible_def)
  qed
  then have "distinct (map fst (map chunk_entry (group_of rs key)))"
    by (simp add: distinct_conv_nth sorted_wrt_iff_nth_less chunk_entry_def comp_def) (metis linorder_neqE_nat)
  note d = this
  show "bm_ordered (<) (bm_collect (<) (map chunk_entry (group_of rs key)))" by (rule linear.ordered_collect)
  show "set (bm_collect (<) (map chunk_entry (group_of rs key))) = chunk_entry ` set (group_of rs key)"
    using linear.collect_distinct_set [OF d] by simp
  show "length (bm_collect (<) (map chunk_entry (group_of rs key))) = length (group_of rs key)"
    using linear.collect_distinct_length [OF d] by simp
qed

lemma compatible_agree:
  assumes "sorted_wrt chunks_compatible rs" "r \<in> set rs" "s \<in> set rs" "batch_key r = batch_key s"
  shows "or_chunk_count r = or_chunk_count s"
proof (cases "r = s")
  case False
  from assms(2,3) obtain i j where ij: "i < length rs" "j < length rs" "r = rs ! i" "s = rs ! j"
    by (auto simp: in_set_conv_nth)
  with False have "i \<noteq> j" by blast
  then have "chunks_compatible r s \<or> chunks_compatible s r"
    using assms(1) ij by (auto simp: sorted_wrt_iff_nth_less neq_iff)
  then show ?thesis using assms(4) by (auto simp: chunks_compatible_def headers_agree_def)
qed simp

lemma group_length:
  assumes compat: "sorted_wrt chunks_compatible rs" and valid: "\<forall>r \<in> set rs. object_ref_valid E r" and r: "r \<in> set rs"
    and all: "\<forall>i < unat (or_chunk_count r). \<exists>s \<in> set rs. batch_key s = batch_key r \<and> unat (or_chunk_index s) = i"
  shows "length (group_of rs (batch_key r)) = unat (or_chunk_count r)"
proof -
  let ?g = "group_of rs (batch_key r)"
  have "sorted_wrt chunks_compatible ?g" using compat unfolding group_of_def by (rule sorted_wrt_filter)
  then have "chunks_compatible (?g ! i) (?g ! j)" if "i < j" "j < length ?g" for i j
    using that by (simp add: sorted_wrt_iff_nth_less)
  moreover have "batch_key (?g ! i) = batch_key r" if "i < length ?g" for i
    using nth_mem [OF that] by simp
  ultimately have neq: "or_chunk_index (?g ! i) \<noteq> or_chunk_index (?g ! j)" if "i < j" "j < length ?g" for i j
    using that by (metis chunks_compatible_def less_trans)
  have dist: "distinct (map (\<lambda>s. unat (or_chunk_index s)) ?g)"
    using neq by (auto simp: distinct_conv_nth dest!: unsigned_word_eqI) (metis linorder_neqE_nat)
  have "unat (or_chunk_index s) < unat (or_chunk_count r)" if "s \<in> set ?g" for s
  proof -
    have s: "s \<in> set rs" "batch_key s = batch_key r" using that by simp_all
    then have "or_chunk_index s < or_chunk_count s" using valid by (auto simp: object_ref_valid_def not_le)
    moreover have "or_chunk_count s = or_chunk_count r" by (rule compatible_agree [OF compat s(1) r s(2)])
    ultimately show ?thesis by (simp add: word_less_nat_alt)
  qed
  then have "set (map (\<lambda>s. unat (or_chunk_index s)) ?g) = {..<unat (or_chunk_count r)}"
    using all by (auto simp: image_iff)
  then show ?thesis using distinct_card [OF dist] by simp
qed

lemma batch_complete_iff:
  assumes compat: "sorted_wrt chunks_compatible rs" and valid: "\<forall>r \<in> set rs. object_ref_valid E r" and r: "r \<in> set rs"
    and b: "batch_of (group_of rs (batch_key r)) = Some b"
  shows "batch_complete E b \<longleftrightarrow>
    (\<forall>i < unat (or_chunk_count r). \<exists>s \<in> set rs. batch_key s = batch_key r \<and> unat (or_chunk_index s) = i) \<and>
    (\<forall>s \<in> set rs. \<forall>t \<in> set rs. batch_key s = batch_key r \<and> batch_key t = batch_key r \<and>
      or_chunk_index s < or_chunk_index t \<longrightarrow> block_key_less E (or_last_key s) (or_first_key t))"
proof -
  let ?g = "group_of rs (batch_key r)"
  let ?m = "bm_collect (<) (map chunk_entry ?g)"
  note chunks = group_chunks [OF compat, of "batch_key r"]
  obtain x xs where g: "?g = x # xs" using b by (cases ?g) (simp_all add: batch_of_def)
  have x: "x \<in> set rs" "batch_key x = batch_key r" using set_group_of [of rs "batch_key r"] unfolding g by auto
  have bm: "rb_chunks b = ?m" using b g by (auto simp: batch_of_def)
  have bc: "rb_chunk_count b = or_chunk_count r"
    using b g compatible_agree [OF compat x(1) r x(2)] by (auto simp: batch_of_def new_batch_def)
  have present: "map_of ?m (of_nat i) \<noteq> None \<longleftrightarrow> (\<exists>s \<in> set rs. batch_key s = batch_key r \<and> unat (or_chunk_index s) = i)"
    if "i < unat (or_chunk_count r)" for i
  proof -
    have "fits_u32 i" using that fits_u32_unat [of "or_chunk_count r"] by (simp add: fits_u32_def)
    then have "or_chunk_index s = of_nat i \<longleftrightarrow> unat (or_chunk_index s) = i" for s
      by (auto simp: unat_of_nat_u32)
    then show ?thesis using collected_chunk_None [of ?g "of_nat i"] by auto
  qed
  have wf: "\<forall>c \<in> set (bm_values ?m). \<not> block_key_less E (snd c) (fst c)"
    using chunks(2) valid by (auto simp: bm_values_def chunk_entry_def object_ref_valid_def)
  have asc: "chunks_ascend E None (bm_values ?m) \<longleftrightarrow>
      (\<forall>s \<in> set rs. \<forall>t \<in> set rs. batch_key s = batch_key r \<and> batch_key t = batch_key r \<and>
        or_chunk_index s < or_chunk_index t \<longrightarrow> block_key_less E (or_last_key s) (or_first_key t))"
    using chunks_ascend_iff [OF wf, of None] linear.sorted_values_iff [OF chunks(1)] chunks(2)
    by (auto simp: chunk_entry_def)
  have "batch_complete E b \<longleftrightarrow> length ?g = unat (or_chunk_count r) \<and>
      (\<forall>i < unat (or_chunk_count r). map_of ?m (of_nat i) \<noteq> None) \<and> chunks_ascend E None (bm_values ?m)"
    by (auto simp: batch_complete_def bm bc chunks(3) list_all_iff)
  also have "\<dots> \<longleftrightarrow> (\<forall>i < unat (or_chunk_count r). map_of ?m (of_nat i) \<noteq> None) \<and> chunks_ascend E None (bm_values ?m)"
    using group_length [OF compat valid r] present by blast
  finally show ?thesis using present asc by blast
qed

lemma validate_objects_unfold:
  assumes valid: "\<forall>r \<in> set rs. object_ref_valid E r" and len: "length rs \<le> usize_max"
  shows "validate_objects E rs maximum = Some () \<longleftrightarrow> refs_ok E rs maximum"
proof -
  have ordered: "ranges_ordered E rs" using valid by (auto simp: ranges_ordered_def object_ref_valid_def)
  have init: "batches_for [] []" "set ([] :: object_identity list) = or_identity ` set []"
    "sorted_wrt chunks_compatible []"
    by (simp_all add: batches_for_Nil)
  note coll = collect_batches_spec [OF init, of rs, simplified]
  have sweep: "overlap_sweep maximum 0 (range_events E rs) = Some n \<and> n = 0 \<longleftrightarrow>
      n = 0 \<and> (\<forall>m k. maximum = Some m \<longrightarrow> cover_count E rs k \<le> m)" for n
  proof -
    have "(\<forall>x \<in> set (range_events E rs). cover_count E rs (fst x) \<le> m) \<longleftrightarrow> (\<forall>k. cover_count E rs k \<le> m)" for m
      using cover_count_at_event [of E rs] by (metis (no_types, lifting) gr0I imageE le_trans zero_le)
    then show ?thesis
      using overlap_sweep_spec [OF ordered len, of "[]" "range_events E rs" maximum]
      by (auto split: option.splits if_splits)
  qed
  show ?thesis
  proof (cases "sorted_wrt chunks_compatible rs")
    case False
    then have "collect_batches [] [] rs = None" using coll by (metis option.exhaust)
    then show ?thesis using False by (simp add: validate_objects_def refs_ok_def)
  next
    case compat: True
    then obtain out where out: "collect_batches [] [] rs = Some out" and bf: "batches_for out rs"
      using coll by blast
    have bord: "bm_ordered batch_key_less out" using bf unfolding batches_for_def by blast
    have vals: "list_all (batch_complete E) (bm_values out) \<longleftrightarrow>
        (\<forall>r \<in> set rs. batch_complete E (the (batch_of (group_of rs (batch_key r)))))"
    proof
      assume all: "list_all (batch_complete E) (bm_values out)"
      show "\<forall>r \<in> set rs. batch_complete E (the (batch_of (group_of rs (batch_key r))))"
      proof
        fix r
        assume "r \<in> set rs"
        then have "group_of rs (batch_key r) \<noteq> []" by (auto simp: group_of_def filter_empty_conv)
        then obtain b where b: "batch_of (group_of rs (batch_key r)) = Some b"
          by (cases "group_of rs (batch_key r)") (simp_all add: batch_of_def)
        then have "(batch_key r, b) \<in> set out"
          using batches_forD [OF bf, of "batch_key r"] by (simp add: map_of_SomeD)
        then have "b \<in> set (bm_values out)" by (force simp: bm_values_def)
        then show "batch_complete E (the (batch_of (group_of rs (batch_key r))))"
          using all b by (simp add: list_all_iff)
      qed
    next
      assume all: "\<forall>r \<in> set rs. batch_complete E (the (batch_of (group_of rs (batch_key r))))"
      have "batch_complete E b" if "(key, b) \<in> set out" for key b
      proof -
        have b: "batch_of (group_of rs key) = Some b"
          using that unfolding batches_forD [OF bf, of key, symmetric] batch_order.get_iff_mem [OF bord] .
        then obtain r where "r \<in> set (group_of rs key)"
          by (cases "group_of rs key") (auto simp: batch_of_def)
        then show ?thesis using all b by auto
      qed
      then show "list_all (batch_complete E) (bm_values out)" by (auto simp: list_all_iff bm_values_def)
    qed
    have complete: "batch_complete E (the (batch_of (group_of rs (batch_key r)))) \<longleftrightarrow>
        (\<forall>i < unat (or_chunk_count r). \<exists>s \<in> set rs. batch_key s = batch_key r \<and> unat (or_chunk_index s) = i) \<and>
        (\<forall>s \<in> set rs. \<forall>t \<in> set rs. batch_key s = batch_key r \<and> batch_key t = batch_key r \<and>
          or_chunk_index s < or_chunk_index t \<longrightarrow> block_key_less E (or_last_key s) (or_first_key t))"
      if "r \<in> set rs" for r
    proof -
      have "group_of rs (batch_key r) \<noteq> []" using that by (auto simp: group_of_def filter_empty_conv)
      then obtain b where "batch_of (group_of rs (batch_key r)) = Some b"
        by (cases "group_of rs (batch_key r)") (simp_all add: batch_of_def)
      then show ?thesis using batch_complete_iff [OF compat valid that] by simp
    qed
    have "list_all (batch_complete E) (bm_values out) \<longleftrightarrow>
        (\<forall>r \<in> set rs. (\<forall>i < unat (or_chunk_count r). \<exists>s \<in> set rs. batch_key s = batch_key r \<and> unat (or_chunk_index s) = i) \<and>
         (\<forall>s \<in> set rs. batch_key s = batch_key r \<and> or_chunk_index r < or_chunk_index s \<longrightarrow>
           block_key_less E (or_last_key r) (or_first_key s)))"
      unfolding vals
    proof (intro iffI ballI conjI)
      fix r
      assume "\<forall>r \<in> set rs. batch_complete E (the (batch_of (group_of rs (batch_key r))))" and r: "r \<in> set rs"
      with complete [OF r] show
        "\<forall>i < unat (or_chunk_count r). \<exists>s \<in> set rs. batch_key s = batch_key r \<and> unat (or_chunk_index s) = i"
        by blast
    next
      fix r s
      assume "\<forall>r \<in> set rs. batch_complete E (the (batch_of (group_of rs (batch_key r))))"
        and r: "r \<in> set rs" and s: "s \<in> set rs"
      with complete [OF r] show "batch_key s = batch_key r \<and> or_chunk_index r < or_chunk_index s \<longrightarrow>
          block_key_less E (or_last_key r) (or_first_key s)"
        by blast
    next
      fix r
      assume all: "\<forall>r \<in> set rs. (\<forall>i < unat (or_chunk_count r). \<exists>s \<in> set rs. batch_key s = batch_key r \<and> unat (or_chunk_index s) = i) \<and>
         (\<forall>s \<in> set rs. batch_key s = batch_key r \<and> or_chunk_index r < or_chunk_index s \<longrightarrow>
           block_key_less E (or_last_key r) (or_first_key s))" and r: "r \<in> set rs"
      have "block_key_less E (or_last_key s) (or_first_key t)"
        if "s \<in> set rs" "t \<in> set rs" "batch_key s = batch_key r" "batch_key t = batch_key r"
          "or_chunk_index s < or_chunk_index t" for s t
        using bspec [OF all that(1)] that by simp
      then show "batch_complete E (the (batch_of (group_of rs (batch_key r))))"
        using complete [OF r] bspec [OF all r] by blast
    qed
    then show ?thesis
      using compat sweep by (auto simp: validate_objects_def out refs_ok_def bind_eq_Some_conv)
  qed
qed

text \<open>
  C20: The validation of a reference list decides its specification: on decoded references it
  accepts exactly the lists with distinct identities, complete and ascending batches with agreeing
  headers, and no key in more ranges than the limit.  For archives the limit is eight; for local
  journals there is none.
\<close>

theorem validate_objects_iff_refs_ok:
  assumes "\<forall>r \<in> set rs. object_ref_valid E r" "length rs \<le> usize_max"
  shows "(validate_object_refs E rs = Some () \<longleftrightarrow> refs_ok E rs (Some 8)) \<and>
    (validate_journal_object_refs E rs = Some () \<longleftrightarrow> refs_ok E rs None)"
  using validate_objects_unfold [OF assms]
  by (simp add: validate_object_refs_def validate_journal_object_refs_def MAX_OVERLAPPING_FILES_def)

lemma demo_refs_valid: "\<forall>r \<in> set [demo_ref 1 2 9, demo_ref 2 5 12]. object_ref_valid demo_env r"
  by (simp add: demo_ref_def object_ref_valid_def checked_add_def)

lemma demo_refs_accepted: "validate_object_refs demo_env [demo_ref 1 2 9, demo_ref 2 5 12] = Some ()"
  by (simp add: validate_object_refs_def validate_objects_def demo_ref_def identity_volume_def batch_key_def new_batch_def
      batch_key_less_def identity_rank_def batch_complete_def bm_values_def range_events_def bump_eq event_at_def
      usize_checked_add_def usize_max_def MAX_OVERLAPPING_FILES_def)

theorem validate_objects_iff_refs_ok_witness:
  "refs_ok demo_env [demo_ref 1 2 9, demo_ref 2 5 12] (Some 8)"
  using validate_objects_iff_refs_ok [OF demo_refs_valid] demo_refs_accepted by (simp add: usize_max_def)

end
