(* ===== verification/Manifest.thy ===== *)
theory Manifest
  imports Object_Refs
begin

text \<open>
  Archive metadata (\<^verbatim>\<open>crates/core/src/manifest.rs\<close>): the complete file list, the manifest that
  adds to and removes from it, the state-checksum chain, imported bases, and the rule that keeps a
  manifest below 256 KiB.  Encoding and decoding are shown to be inverse relations, the current
  file set is characterised, and bounding a manifest is shown to preserve it.

  \<^verbatim>\<open>encode\<close> asserts the shape of its argument, so the encoders here are three-valued: a panic, the
  error \<^verbatim>\<open>ManifestTooLarge\<close>, or the bytes.
\<close>

definition MAGIC_FILE_LIST :: u32 where
  "MAGIC_FILE_LIST = magic ''BLFL''"

definition MAGIC_MANIFEST :: u32 where
  "MAGIC_MANIFEST = magic ''BLMF''"

definition MAGIC_BASE_MANIFEST :: u32 where
  "MAGIC_BASE_MANIFEST = magic ''BLBM''"

definition MAGIC_BASE_ROOT :: u32 where
  "MAGIC_BASE_ROOT = magic ''BLBR''"

definition MAX_MANIFEST_BYTES :: nat where
  "MAX_MANIFEST_BYTES = 256 * 1024"

definition MAX_METADATA_OBJECT_BYTES :: nat where
  "MAX_METADATA_OBJECT_BYTES = 64 * 1024 * 1024"

definition FORMAT_VERSION :: u16 where
  "FORMAT_VERSION = 1"

section \<open>Data\<close>

text \<open>The configuration of \<^verbatim>\<open>crates/core/src/journal.rs\<close> and the pointer of \<^verbatim>\<open>crates/core/src/head.rs\<close>.\<close>

record volume_config =
  vc_kind :: volume_kind
  vc_pages :: u32

record manifest_ptr =
  mp_fence :: u64
  mp_journal_seq :: journal_seq
  mp_seq :: journal_seq
  mp_capture_seq :: u64
  mp_checksum :: u64

record base_ref =
  br_base_id :: u64
  br_manifest_id :: u64
  br_manifest_checksum :: u64
  br_post_state_checksum :: u64

record file_list_ref =
  lr_writer_fence :: u64
  lr_list_id :: u64
  lr_checksum :: u64

datatype recovery_kind = RK_Whole | RK_Disk_Only

fun recovery_kind_tag :: "recovery_kind \<Rightarrow> u8" where
  "recovery_kind_tag RK_Whole = 0"
| "recovery_kind_tag RK_Disk_Only = 1"

definition recovery_kind_decode :: "u8 \<Rightarrow> recovery_kind option" where
  "recovery_kind_decode t = (if t = 0 then Some RK_Whole else if t = 1 then Some RK_Disk_Only else None)"

record complete_file_list =
  fl_volume :: volume_id
  fl_writer_fence :: u64
  fl_list_id :: u64
  fl_objects :: "object_ref list"

record manifest =
  mf_volume :: volume_id
  mf_writer_fence :: u64
  mf_journal_seq :: u64
  mf_archive_seq :: u64
  mf_capture_seq :: u64
  mf_sync_covered_through :: u64
  mf_recovery_kind :: recovery_kind
  mf_checkpoint_epoch :: epoch_id
  mf_config :: volume_config
  mf_vmstate_logical_length :: u64
  mf_base :: "base_ref option"
  mf_complete_list :: "file_list_ref option"
  mf_post_state_checksum :: u64
  mf_metadata_checksum :: u64
  mf_added :: "object_ref list"
  mf_removed :: "object_identity list"

section \<open>The complete file list\<close>

definition file_list_store_key :: "complete_file_list \<Rightarrow> string" where
  "file_list_store_key l = complete_file_list_key (fl_volume l) (fl_writer_fence l) (fl_list_id l)"

definition list_ref_store_key :: "file_list_ref \<Rightarrow> volume_id \<Rightarrow> string" where
  "list_ref_store_key r volume = complete_file_list_key volume (lr_writer_fence r) (lr_list_id r)"

definition enc_file_list_content :: "complete_file_list \<Rightarrow> bytes" where
  "enc_file_list_content l =
     enc_u16 FORMAT_VERSION @ enc_u64 (fl_volume l) @ enc_u64 (fl_writer_fence l) @ enc_u64 (fl_list_id l) @
     enc_u32 (of_nat (length (fl_objects l))) @ enc_many enc_object_ref (fl_objects l)"

definition file_list_encode :: "env \<Rightarrow> complete_file_list \<Rightarrow> bytes option" where
  "file_list_encode E l =
     do { validate_object_refs E (fl_objects l);
          guard_opt (fits_u32 (length (fl_objects l)));
          let content = enc_file_list_content l;
          bs \<leftarrow> seal_frame E MAGIC_FILE_LIST (content @ enc_u64 (checksum64 E content));
          guard_opt (length bs \<le> MAX_METADATA_OBJECT_BYTES);
          Some bs }"

definition file_list_decode :: "env \<Rightarrow> file_list_ref \<Rightarrow> volume_id \<Rightarrow> bytes \<Rightarrow> complete_file_list option" where
  "file_list_decode E expected volume bs =
     do { guard_opt (\<not> (length bs > MAX_METADATA_OBJECT_BYTES \<or> checksum64 E bs \<noteq> lr_checksum expected));
          payload \<leftarrow> open_frame E MAGIC_FILE_LIST bs;
          (version, d) \<leftarrow> dec_u16 payload;
          guard_opt (version = FORMAT_VERSION);
          (v, d) \<leftarrow> dec_u64 d;
          guard_opt (v = volume);
          (writer_fence, d) \<leftarrow> dec_u64 d;
          (list_id, d) \<leftarrow> dec_u64 d;
          guard_opt ((writer_fence, list_id) = (lr_writer_fence expected, lr_list_id expected));
          (n, d) \<leftarrow> dec_u32 d;
          (objects, d) \<leftarrow> dec_many (dec_object_ref E) (unat n) d;
          (stored, d) \<leftarrow> dec_u64 d;
          dec_finish d;
          let l = \<lparr> fl_volume = volume, fl_writer_fence = writer_fence, fl_list_id = list_id, fl_objects = objects \<rparr>;
          guard_opt (checksum64 E (enc_file_list_content l) = stored);
          validate_object_refs E objects;
          Some l }"

definition file_list_reference :: "env \<Rightarrow> complete_file_list \<Rightarrow> file_list_ref option" where
  "file_list_reference E l =
     do { bs \<leftarrow> file_list_encode E l;
          Some \<lparr> lr_writer_fence = fl_writer_fence l, lr_list_id = fl_list_id l, lr_checksum = checksum64 E bs \<rparr> }"

section \<open>The manifest\<close>

definition enc_config :: "volume_config \<Rightarrow> bytes" where
  "enc_config c = enc_u8 (volume_kind_tag (vc_kind c)) @ enc_u8 0 @ enc_u32 (vc_pages c)"

definition dec_config :: "bytes \<Rightarrow> (volume_config \<times> bytes) option" where
  "dec_config d =
     do { (t, d) \<leftarrow> dec_u8 d;
          kind \<leftarrow> volume_kind_decode t;
          (z, d) \<leftarrow> dec_u8 d;
          guard_opt (z = 0);
          (pages, d) \<leftarrow> dec_u32 d;
          guard_opt (pages \<noteq> 0);
          Some (\<lparr> vc_kind = kind, vc_pages = pages \<rparr>, d) }"

definition enc_base_ref :: "base_ref option \<Rightarrow> bytes" where
  "enc_base_ref v =
     (case v of
        None \<Rightarrow> enc_u8 0 @ enc_u64 0 @ enc_u64 0 @ enc_u64 0 @ enc_u64 0
      | Some b \<Rightarrow> enc_u8 1 @ enc_u64 (br_base_id b) @ enc_u64 (br_manifest_id b) @
          enc_u64 (br_manifest_checksum b) @ enc_u64 (br_post_state_checksum b))"

definition dec_base_ref :: "bytes \<Rightarrow> (base_ref option \<times> bytes) option" where
  "dec_base_ref d =
     do { (present, d) \<leftarrow> dec_u8 d;
          (base_id, d) \<leftarrow> dec_u64 d;
          (manifest_id, d) \<leftarrow> dec_u64 d;
          (manifest_checksum, d) \<leftarrow> dec_u64 d;
          (post, d) \<leftarrow> dec_u64 d;
          let v = \<lparr> br_base_id = base_id, br_manifest_id = manifest_id,
                    br_manifest_checksum = manifest_checksum, br_post_state_checksum = post \<rparr>;
          if present = 0 \<and> v = \<lparr> br_base_id = 0, br_manifest_id = 0, br_manifest_checksum = 0,
                                 br_post_state_checksum = 0 \<rparr> then Some (None, d)
          else if present = 1 then Some (Some v, d) else None }"

definition enc_list_ref :: "file_list_ref option \<Rightarrow> bytes" where
  "enc_list_ref v =
     (case v of
        None \<Rightarrow> enc_u8 0 @ enc_u64 0 @ enc_u64 0 @ enc_u64 0
      | Some l \<Rightarrow> enc_u8 1 @ enc_u64 (lr_writer_fence l) @ enc_u64 (lr_list_id l) @ enc_u64 (lr_checksum l))"

definition dec_list_ref :: "bytes \<Rightarrow> (file_list_ref option \<times> bytes) option" where
  "dec_list_ref d =
     do { (present, d) \<leftarrow> dec_u8 d;
          (writer_fence, d) \<leftarrow> dec_u64 d;
          (list_id, d) \<leftarrow> dec_u64 d;
          (checksum, d) \<leftarrow> dec_u64 d;
          let v = \<lparr> lr_writer_fence = writer_fence, lr_list_id = list_id, lr_checksum = checksum \<rparr>;
          if present = 0 \<and> v = \<lparr> lr_writer_fence = 0, lr_list_id = 0, lr_checksum = 0 \<rparr> then Some (None, d)
          else if present = 1 then Some (Some v, d) else None }"

definition enc_manifest_prefix :: "env \<Rightarrow> manifest \<Rightarrow> bytes" where
  "enc_manifest_prefix E m =
     enc_u16 FORMAT_VERSION @ enc_u64 (mf_volume m) @ enc_u64 (mf_writer_fence m) @ enc_u64 (mf_journal_seq m) @
     enc_u64 (mf_archive_seq m) @ enc_u64 (mf_capture_seq m) @ enc_u64 (mf_sync_covered_through m) @
     enc_u8 (recovery_kind_tag (mf_recovery_kind m)) @ enc_u64 (mf_checkpoint_epoch m) @
     enc_u32 (of_nat (env_page_size E)) @ enc_config (mf_config m) @ enc_u64 (mf_vmstate_logical_length m) @
     enc_base_ref (mf_base m) @ enc_list_ref (mf_complete_list m) @ enc_u64 (mf_post_state_checksum m) @
     enc_u64 (mf_metadata_checksum m)"

definition dec_manifest_prefix :: "env \<Rightarrow> volume_id \<Rightarrow> bytes \<Rightarrow> (manifest \<times> bytes) option" where
  "dec_manifest_prefix E volume d =
     do { (version, d) \<leftarrow> dec_u16 d;
          guard_opt (version = FORMAT_VERSION);
          (v, d) \<leftarrow> dec_u64 d;
          guard_opt (v = volume);
          (writer_fence, d) \<leftarrow> dec_u64 d;
          (journal_seq, d) \<leftarrow> dec_u64 d;
          (archive_seq, d) \<leftarrow> dec_u64 d;
          (capture_seq, d) \<leftarrow> dec_u64 d;
          (sync_covered, d) \<leftarrow> dec_u64 d;
          (t, d) \<leftarrow> dec_u8 d;
          kind \<leftarrow> recovery_kind_decode t;
          (epoch, d) \<leftarrow> dec_u64 d;
          (ps, d) \<leftarrow> dec_u32 d;
          guard_opt (ps = of_nat (env_page_size E));
          (config, d) \<leftarrow> dec_config d;
          (vmstate, d) \<leftarrow> dec_u64 d;
          (base, d) \<leftarrow> dec_base_ref d;
          (complete_list, d) \<leftarrow> dec_list_ref d;
          (post, d) \<leftarrow> dec_u64 d;
          (metadata, d) \<leftarrow> dec_u64 d;
          Some (\<lparr> mf_volume = volume, mf_writer_fence = writer_fence, mf_journal_seq = journal_seq,
                  mf_archive_seq = archive_seq, mf_capture_seq = capture_seq,
                  mf_sync_covered_through = sync_covered, mf_recovery_kind = kind,
                  mf_checkpoint_epoch = epoch, mf_config = config, mf_vmstate_logical_length = vmstate,
                  mf_base = base, mf_complete_list = complete_list, mf_post_state_checksum = post,
                  mf_metadata_checksum = metadata, mf_added = [], mf_removed = [] \<rparr>, d) }"

definition validate_manifest_shape :: "env \<Rightarrow> manifest \<Rightarrow> unit option" where
  "validate_manifest_shape E m =
     do { guard_opt (\<not> (mf_sync_covered_through m > mf_capture_seq m \<or>
                       (mf_complete_list m = None \<and> mf_removed m \<noteq> [])));
          validate_object_refs E (mf_added m);
          let added = foldl (\<lambda>s r. bs_insert identity_less (or_identity r) s) [] (mf_added m);
          let removed = foldl (\<lambda>s i. bs_insert identity_less i s) [] (mf_removed m);
          guard_opt (\<not> (length added \<noteq> length (mf_added m) \<or> length removed \<noteq> length (mf_removed m) \<or>
                        list_ex (\<lambda>i. i \<in> set removed) added)) }"

definition enc_manifest_payload :: "env \<Rightarrow> manifest \<Rightarrow> bytes" where
  "enc_manifest_payload E m =
     enc_manifest_prefix E m @ enc_u32 (of_nat (length (mf_added m))) @ enc_many enc_object_ref (mf_added m) @
     enc_u32 (of_nat (length (mf_removed m))) @ enc_many enc_identity (mf_removed m)"

definition manifest_encode :: "env \<Rightarrow> manifest \<Rightarrow> (unit, bytes) outcome" where
  "manifest_encode E m =
     (if validate_manifest_shape E m = None \<or> \<not> fits_u32 (env_page_size E) \<or>
         \<not> fits_u32 (length (mf_added m)) \<or> \<not> fits_u32 (length (mf_removed m)) then Panicked
      else case seal_frame E MAGIC_MANIFEST (enc_manifest_payload E m) of
        None \<Rightarrow> Panicked
      | Some bs \<Rightarrow> if length bs > MAX_MANIFEST_BYTES then Failed () else Returned bs)"

definition manifest_decode :: "env \<Rightarrow> volume_id \<Rightarrow> bytes \<Rightarrow> manifest option" where
  "manifest_decode E volume bs =
     do { guard_opt (\<not> length bs > MAX_MANIFEST_BYTES);
          payload \<leftarrow> open_frame E MAGIC_MANIFEST bs;
          (m, d) \<leftarrow> dec_manifest_prefix E volume payload;
          (added_count, d) \<leftarrow> dec_u32 d;
          (added, d) \<leftarrow> dec_many (dec_object_ref E) (unat added_count) d;
          (removed_count, d) \<leftarrow> dec_u32 d;
          (removed, d) \<leftarrow> dec_many dec_identity (unat removed_count) d;
          dec_finish d;
          let m = m\<lparr> mf_added := added, mf_removed := removed \<rparr>;
          validate_manifest_shape E m;
          Some m }"

definition manifest_pointer :: "env \<Rightarrow> manifest \<Rightarrow> bytes \<Rightarrow> manifest_ptr" where
  "manifest_pointer E m encoded =
     \<lparr> mp_fence = mf_writer_fence m, mp_journal_seq = mf_journal_seq m, mp_seq = mf_archive_seq m,
       mp_capture_seq = mf_capture_seq m, mp_checksum = checksum64 E encoded \<rparr>"

section \<open>The state chain and the current files\<close>

definition file_batch :: "object_ref \<Rightarrow> u64 \<times> u64" where
  "file_batch f = (or_max_seq f, or_batch_id f)"

definition file_state :: "object_ref \<Rightarrow> u64 \<times> u64" where
  "file_state f = (or_pre_state_checksum f, or_post_state_checksum f)"

fun state_batches ::
  "object_ref list \<Rightarrow> (u64 \<times> u64, u64 \<times> u64) btree_map \<Rightarrow> (u64 \<times> u64, u64 \<times> u64) btree_map option" where
  "state_batches [] batches = Some batches"
| "state_batches (f # fs) batches =
     do { guard_opt (case map_of batches (file_batch f) of None \<Rightarrow> True | Some old \<Rightarrow> old = file_state f);
          state_batches fs (bm_insert (<) (file_batch f) (file_state f) batches) }"

fun follow_chain :: "u64 \<Rightarrow> (u64 \<times> u64) list \<Rightarrow> u64 option" where
  "follow_chain checksum [] = Some checksum"
| "follow_chain checksum ((pre, post) # bs) = (if pre \<noteq> checksum then None else follow_chain post bs)"

definition validate_file_state_chain :: "u64 \<Rightarrow> u64 \<Rightarrow> object_ref list \<Rightarrow> unit option" where
  "validate_file_state_chain base_checksum post_state_checksum files =
     do { batches \<leftarrow> state_batches files [];
          (case bm_values batches of
             [] \<Rightarrow> guard_opt (post_state_checksum = base_checksum)
           | (first_pre, first_post) # rest \<Rightarrow>
               if length batches = 1 \<and> first_pre = first_post \<and> first_post = post_state_checksum then Some ()
               else do { guard_opt (first_pre = first_post \<or> first_pre = base_checksum);
                         checksum \<leftarrow> follow_chain first_post rest;
                         guard_opt (checksum = post_state_checksum) }) }"

definition validate_state_chain :: "manifest \<Rightarrow> object_ref list \<Rightarrow> unit option" where
  "validate_state_chain m files =
     validate_file_state_chain (case mf_base m of None \<Rightarrow> 0 | Some b \<Rightarrow> br_post_state_checksum b)
       (mf_post_state_checksum m) files"

fun remove_files ::
  "object_identity list \<Rightarrow> (object_identity, object_ref) btree_map \<Rightarrow> (object_identity, object_ref) btree_map option" where
  "remove_files [] files = Some files"
| "remove_files (i # is) files =
     do { guard_opt (map_of files i \<noteq> None); remove_files is (bm_remove i files) }"

fun insert_files ::
  "object_ref list \<Rightarrow> (object_identity, object_ref) btree_map \<Rightarrow> (object_identity, object_ref) btree_map option" where
  "insert_files [] files = Some files"
| "insert_files (r # rs) files =
     do { guard_opt (map_of files (or_identity r) = None);
          insert_files rs (bm_insert identity_less (or_identity r) r files) }"

text \<open>The part of \<^verbatim>\<open>current_files\<close> after the file list has been checked against its reference.\<close>

definition files_after :: "env \<Rightarrow> manifest \<Rightarrow> object_ref list \<Rightarrow> object_ref list option" where
  "files_after E m listed =
     do { files \<leftarrow> remove_files (mf_removed m)
                    (bm_collect identity_less (map (\<lambda>r. (or_identity r, r)) listed));
          files \<leftarrow> insert_files (mf_added m) files;
          let files = bm_values files;
          validate_object_refs E files;
          validate_state_chain m files;
          Some files }"

definition of_option :: "'a option \<Rightarrow> (unit, 'a) outcome" where
  "of_option x = (case x of None \<Rightarrow> Failed () | Some v \<Rightarrow> Returned v)"

definition current_files :: "env \<Rightarrow> manifest \<Rightarrow> complete_file_list option \<Rightarrow> (unit, object_ref list) outcome" where
  "current_files E m complete_list =
     (case (mf_complete_list m, complete_list) of
        (None, None) \<Rightarrow> of_option (files_after E m [])
      | (Some expected, Some l) \<Rightarrow>
          (case file_list_reference E l of
             None \<Rightarrow> Panicked
           | Some r \<Rightarrow> if r = expected then of_option (files_after E m (fl_objects l)) else Failed ())
      | _ \<Rightarrow> Failed ())"

record manifest_closure =
  mc_manifest :: manifest
  mc_complete_list :: "complete_file_list option"
  mc_files :: "object_ref list"

definition closure_decode ::
  "env \<Rightarrow> volume_id \<Rightarrow> manifest_ptr \<Rightarrow> bytes \<Rightarrow> bytes option \<Rightarrow> (unit, manifest_closure) outcome" where
  "closure_decode E volume pointer manifest_bytes complete_list_bytes =
     (if checksum64 E manifest_bytes \<noteq> mp_checksum pointer then Failed ()
      else case manifest_decode E volume manifest_bytes of
        None \<Rightarrow> Failed ()
      | Some m \<Rightarrow>
          if (mf_writer_fence m, mf_journal_seq m, mf_archive_seq m, mf_capture_seq m) \<noteq>
             (mp_fence pointer, mp_journal_seq pointer, mp_seq pointer, mp_capture_seq pointer) then Failed ()
          else outcome_bind
            (case (mf_complete_list m, complete_list_bytes) of
               (None, None) \<Rightarrow> Returned None
             | (Some r, Some bs) \<Rightarrow> of_option (map_option Some (file_list_decode E r volume bs))
             | _ \<Rightarrow> Failed ())
            (\<lambda>l. outcome_bind (current_files E m l)
              (\<lambda>files. Returned \<lparr> mc_manifest = m, mc_complete_list = l, mc_files = files \<rparr>)))"

section \<open>Bounding a manifest\<close>

record bounded_manifest =
  bd_manifest :: manifest
  bd_new_complete_list :: "complete_file_list option"

definition bound_manifest ::
  "env \<Rightarrow> manifest \<Rightarrow> complete_file_list option \<Rightarrow> u64 \<Rightarrow> (unit, bounded_manifest) outcome" where
  "bound_manifest E m current_complete_list new_list_id =
     (case manifest_encode E m of
        Panicked \<Rightarrow> Panicked
      | Returned _ \<Rightarrow> Returned \<lparr> bd_manifest = m, bd_new_complete_list = None \<rparr>
      | Failed _ \<Rightarrow>
          outcome_bind (current_files E m current_complete_list)
            (\<lambda>objects.
               let l = \<lparr> fl_volume = mf_volume m, fl_writer_fence = mf_writer_fence m,
                         fl_list_id = new_list_id, fl_objects = objects \<rparr> in
               case file_list_reference E l of
                 None \<Rightarrow> Panicked
               | Some r \<Rightarrow>
                   let m' = m\<lparr> mf_complete_list := Some r, mf_added := [], mf_removed := [] \<rparr> in
                   outcome_bind (manifest_encode E m')
                     (\<lambda>_. Returned \<lparr> bd_manifest = m', bd_new_complete_list = Some l \<rparr>)))"

section \<open>Imported bases\<close>

record base_root =
  bt_base_id :: u64
  bt_manifest_id :: u64
  bt_manifest_checksum :: u64
  bt_post_state_checksum :: u64

definition base_root_encode :: "env \<Rightarrow> base_root \<Rightarrow> bytes option" where
  "base_root_encode E b =
     seal_frame E MAGIC_BASE_ROOT
       (enc_u16 FORMAT_VERSION @ enc_u64 (bt_base_id b) @ enc_u64 (bt_manifest_id b) @
        enc_u64 (bt_manifest_checksum b) @ enc_u64 (bt_post_state_checksum b))"

definition base_root_decode :: "env \<Rightarrow> u64 \<Rightarrow> bytes \<Rightarrow> base_root option" where
  "base_root_decode E base_id bs =
     do { payload \<leftarrow> open_frame E MAGIC_BASE_ROOT bs;
          (version, d) \<leftarrow> dec_u16 payload;
          guard_opt (version = FORMAT_VERSION);
          (b, d) \<leftarrow> dec_u64 d;
          guard_opt (b = base_id);
          (manifest_id, d) \<leftarrow> dec_u64 d;
          (manifest_checksum, d) \<leftarrow> dec_u64 d;
          (post, d) \<leftarrow> dec_u64 d;
          dec_finish d;
          Some \<lparr> bt_base_id = base_id, bt_manifest_id = manifest_id,
                 bt_manifest_checksum = manifest_checksum, bt_post_state_checksum = post \<rparr> }"

definition as_base_ref :: "base_root \<Rightarrow> base_ref" where
  "as_base_ref b = \<lparr> br_base_id = bt_base_id b, br_manifest_id = bt_manifest_id b,
     br_manifest_checksum = bt_manifest_checksum b, br_post_state_checksum = bt_post_state_checksum b \<rparr>"

record base_manifest =
  bs_base_id :: u64
  bs_manifest_id :: u64
  bs_capture_seq :: u64
  bs_sync_covered_through :: u64
  bs_recovery_kind :: recovery_kind
  bs_checkpoint_epoch :: epoch_id
  bs_config :: volume_config
  bs_vmstate_logical_length :: u64
  bs_post_state_checksum :: u64
  bs_metadata_checksum :: u64
  bs_objects :: "object_ref list"

definition enc_base_manifest_payload :: "env \<Rightarrow> base_manifest \<Rightarrow> bytes" where
  "enc_base_manifest_payload E b =
     enc_u16 FORMAT_VERSION @ enc_u64 (bs_base_id b) @ enc_u64 (bs_manifest_id b) @ enc_u64 (bs_capture_seq b) @
     enc_u64 (bs_sync_covered_through b) @ enc_u8 (recovery_kind_tag (bs_recovery_kind b)) @
     enc_u64 (bs_checkpoint_epoch b) @ enc_u32 (of_nat (env_page_size E)) @ enc_config (bs_config b) @
     enc_u64 (bs_vmstate_logical_length b) @ enc_u64 (bs_post_state_checksum b) @
     enc_u64 (bs_metadata_checksum b) @ enc_u32 (of_nat (length (bs_objects b))) @
     enc_many enc_object_ref (bs_objects b)"

definition base_manifest_encode :: "env \<Rightarrow> base_manifest \<Rightarrow> bytes option" where
  "base_manifest_encode E b =
     do { validate_object_refs E (bs_objects b);
          guard_opt (bs_sync_covered_through b \<le> bs_capture_seq b);
          guard_opt (fits_u32 (env_page_size E) \<and> fits_u32 (length (bs_objects b)));
          bs \<leftarrow> seal_frame E MAGIC_BASE_MANIFEST (enc_base_manifest_payload E b);
          guard_opt (length bs \<le> MAX_METADATA_OBJECT_BYTES);
          Some bs }"

definition base_manifest_decode :: "env \<Rightarrow> base_root \<Rightarrow> bytes \<Rightarrow> base_manifest option" where
  "base_manifest_decode E root bs =
     do { guard_opt (\<not> (length bs > MAX_METADATA_OBJECT_BYTES \<or> checksum64 E bs \<noteq> bt_manifest_checksum root));
          payload \<leftarrow> open_frame E MAGIC_BASE_MANIFEST bs;
          (version, d) \<leftarrow> dec_u16 payload;
          guard_opt (version = FORMAT_VERSION);
          (base_id, d) \<leftarrow> dec_u64 d;
          guard_opt (base_id = bt_base_id root);
          (manifest_id, d) \<leftarrow> dec_u64 d;
          guard_opt (manifest_id = bt_manifest_id root);
          (capture_seq, d) \<leftarrow> dec_u64 d;
          (sync_covered, d) \<leftarrow> dec_u64 d;
          (t, d) \<leftarrow> dec_u8 d;
          kind \<leftarrow> recovery_kind_decode t;
          (epoch, d) \<leftarrow> dec_u64 d;
          (ps, d) \<leftarrow> dec_u32 d;
          guard_opt (ps = of_nat (env_page_size E));
          (config, d) \<leftarrow> dec_config d;
          (vmstate, d) \<leftarrow> dec_u64 d;
          (post, d) \<leftarrow> dec_u64 d;
          (metadata, d) \<leftarrow> dec_u64 d;
          (n, d) \<leftarrow> dec_u32 d;
          (objects, d) \<leftarrow> dec_many (dec_object_ref E) (unat n) d;
          dec_finish d;
          guard_opt (\<not> (sync_covered > capture_seq \<or> post \<noteq> bt_post_state_checksum root));
          validate_object_refs E objects;
          Some \<lparr> bs_base_id = bt_base_id root, bs_manifest_id = bt_manifest_id root,
                 bs_capture_seq = capture_seq, bs_sync_covered_through = sync_covered,
                 bs_recovery_kind = kind, bs_checkpoint_epoch = epoch, bs_config = config,
                 bs_vmstate_logical_length = vmstate, bs_post_state_checksum = post,
                 bs_metadata_checksum = metadata, bs_objects = objects \<rparr> }"

definition base_manifest_root :: "env \<Rightarrow> base_manifest \<Rightarrow> base_root option" where
  "base_manifest_root E b =
     do { bs \<leftarrow> base_manifest_encode E b;
          Some \<lparr> bt_base_id = bs_base_id b, bt_manifest_id = bs_manifest_id b,
                 bt_manifest_checksum = checksum64 E bs, bt_post_state_checksum = bs_post_state_checksum b \<rparr> }"

section \<open>Codecs\<close>

lemmas [codec_simps] = object_refc.many_iff identityc.many_iff

lemma recovery_kind_decode_iff [codec_simps]: "recovery_kind_decode t = Some k \<longleftrightarrow> t = recovery_kind_tag k"
  by (cases k) (auto simp: recovery_kind_decode_def)

lemma dec_config_iff [codec_simps]: "dec_config d = Some (c, r) \<longleftrightarrow> vc_pages c \<noteq> 0 \<and> d = enc_config c @ r"
proof
  show "dec_config d = Some (c, r) \<Longrightarrow> vc_pages c \<noteq> 0 \<and> d = enc_config c @ r"
    by (auto simp: dec_config_def enc_config_def codec_simps elim!: bind_SomeE)
qed (cases c, simp add: dec_config_def enc_config_def)

interpretation configc: codec enc_config dec_config "\<lambda>c. vc_pages c \<noteq> 0"
  by unfold_locales (rule dec_config_iff)

lemma dec_base_ref_iff [codec_simps]: "dec_base_ref d = Some (v, r) \<longleftrightarrow> d = enc_base_ref v @ r"
proof
  show "dec_base_ref d = Some (v, r) \<Longrightarrow> d = enc_base_ref v @ r"
    by (auto simp: dec_base_ref_def enc_base_ref_def codec_simps Let_def split: if_splits elim!: bind_SomeE)
qed (cases v, simp_all add: dec_base_ref_def enc_base_ref_def)

interpretation base_refc: codec enc_base_ref dec_base_ref "\<lambda>_. True"
  by unfold_locales (simp add: dec_base_ref_iff)

lemma dec_list_ref_iff [codec_simps]: "dec_list_ref d = Some (v, r) \<longleftrightarrow> d = enc_list_ref v @ r"
proof
  show "dec_list_ref d = Some (v, r) \<Longrightarrow> d = enc_list_ref v @ r"
    by (auto simp: dec_list_ref_def enc_list_ref_def codec_simps Let_def split: if_splits elim!: bind_SomeE)
qed (cases v, simp_all add: dec_list_ref_def enc_list_ref_def)

interpretation list_refc: codec enc_list_ref dec_list_ref "\<lambda>_. True"
  by unfold_locales (simp add: dec_list_ref_iff)

lemma dec_enc_manifest_parts [simp]:
  "recovery_kind_decode (recovery_kind_tag k) = Some k"
  "vc_pages c \<noteq> 0 \<Longrightarrow> dec_config (enc_config c @ r) = Some (c, r)"
  "dec_base_ref (enc_base_ref b @ r) = Some (b, r)" "dec_list_ref (enc_list_ref l @ r) = Some (l, r)"
  by (simp_all add: codec_simps)

lemma dec_manifest_prefix_iff [codec_simps]:
  "dec_manifest_prefix E volume d = Some (m, r) \<longleftrightarrow>
   mf_volume m = volume \<and> mf_added m = [] \<and> mf_removed m = [] \<and> vc_pages (mf_config m) \<noteq> 0 \<and>
   d = enc_manifest_prefix E m @ r"
proof
  show "dec_manifest_prefix E volume d = Some (m, r) \<Longrightarrow> mf_volume m = volume \<and> mf_added m = [] \<and>
      mf_removed m = [] \<and> vc_pages (mf_config m) \<noteq> 0 \<and> d = enc_manifest_prefix E m @ r"
    by (auto simp: dec_manifest_prefix_def enc_manifest_prefix_def codec_simps elim!: bind_SomeE)
qed (simp add: dec_manifest_prefix_def enc_manifest_prefix_def)

text \<open>What the field types and the decoders guarantee of a manifest beyond its asserted shape.\<close>

definition manifest_fields_ok :: "env \<Rightarrow> manifest \<Rightarrow> bool" where
  "manifest_fields_ok E m \<longleftrightarrow> vc_pages (mf_config m) \<noteq> 0 \<and> list_all (object_ref_valid E) (mf_added m)"

lemma enc_manifest_prefix_update [simp]:
  "enc_manifest_prefix E (m\<lparr> mf_added := a, mf_removed := b \<rparr>) = enc_manifest_prefix E m"
  by (simp add: enc_manifest_prefix_def)

lemma manifest_encode_Returned:
  "manifest_encode E m = Returned bs \<longleftrightarrow> validate_manifest_shape E m = Some () \<and> fits_u32 (env_page_size E) \<and>
   fits_u32 (length (mf_added m)) \<and> fits_u32 (length (mf_removed m)) \<and>
   seal_frame E MAGIC_MANIFEST (enc_manifest_payload E m) = Some bs \<and> length bs \<le> MAX_MANIFEST_BYTES"
  by (auto simp: manifest_encode_def not_less split: option.splits)

lemma manifest_decode_iff:
  assumes ps: "fits_u32 (env_page_size E)"
  shows "manifest_decode E volume bs = Some m \<longleftrightarrow>
    manifest_encode E m = Returned bs \<and> mf_volume m = volume \<and> manifest_fields_ok E m"
proof
  assume "manifest_decode E volume bs = Some m"
  then obtain m0 added removed na nr where
    len: "length bs \<le> MAX_MANIFEST_BYTES"
    and fr: "open_frame E MAGIC_MANIFEST bs = Some (enc_manifest_prefix E m0 @ enc_u32 na @ enc_many enc_object_ref added @
      enc_u32 nr @ enc_many enc_identity removed)"
    and m0: "mf_volume m0 = volume" "vc_pages (mf_config m0) \<noteq> 0"
    and n: "length added = unat na" "length removed = unat nr" and ok: "list_all (object_ref_valid E) added"
    and m: "m = m0\<lparr> mf_added := added, mf_removed := removed \<rparr>" and shape: "validate_manifest_shape E m = Some ()"
    by (auto simp: manifest_decode_def codec_simps not_less Let_def elim!: bind_SomeE)
  have "na = of_nat (length added)" "nr = of_nat (length removed)" using n by simp_all
  then have "open_frame E MAGIC_MANIFEST bs = Some (enc_manifest_payload E m)"
    using fr by (simp add: enc_manifest_payload_def m)
  then show "manifest_encode E m = Returned bs \<and> mf_volume m = volume \<and> manifest_fields_ok E m"
    using shape len m0 n ok ps by (simp add: manifest_encode_Returned frame_open_seal manifest_fields_ok_def m)
next
  assume "manifest_encode E m = Returned bs \<and> mf_volume m = volume \<and> manifest_fields_ok E m"
  then have shape: "validate_manifest_shape E m = Some ()" and fits: "fits_u32 (length (mf_added m))" "fits_u32 (length (mf_removed m))"
    and fr: "open_frame E MAGIC_MANIFEST bs = Some (enc_manifest_payload E m)" and len: "length bs \<le> MAX_MANIFEST_BYTES"
    and vol: "mf_volume m = volume" and ok: "vc_pages (mf_config m) \<noteq> 0" "list_all (object_ref_valid E) (mf_added m)"
    by (auto simp: manifest_encode_Returned manifest_fields_ok_def frame_open_seal)
  let ?m0 = "m\<lparr> mf_added := [], mf_removed := [] \<rparr>"
  have "dec_manifest_prefix E volume (enc_manifest_payload E m) =
      Some (?m0, enc_u32 (of_nat (length (mf_added m))) @ enc_many enc_object_ref (mf_added m) @
        enc_u32 (of_nat (length (mf_removed m))) @ enc_many enc_identity (mf_removed m))"
    using vol ok by (simp add: dec_manifest_prefix_iff enc_manifest_payload_def)
  moreover have "dec_many (dec_object_ref E) (length (mf_added m)) (enc_many enc_object_ref (mf_added m) @ r) =
      Some (mf_added m, r)" for r
    using ok(2) by (simp add: object_refc.many_iff)
  moreover have "dec_many dec_identity (length (mf_removed m)) (enc_many enc_identity (mf_removed m)) = Some (mf_removed m, [])"
    by (simp add: identityc.many_iff list_all_iff)
  ultimately show "manifest_decode E volume bs = Some m"
    using fits shape len by (simp add: manifest_decode_def fr unat_of_nat_u32)
qed

lemma file_list_decode_iff:
  "file_list_decode E expected volume bs = Some l \<longleftrightarrow>
   file_list_encode E l = Some bs \<and> file_list_reference E l = Some expected \<and> fl_volume l = volume \<and>
   list_all (object_ref_valid E) (fl_objects l)"
proof
  assume "file_list_decode E expected volume bs = Some l"
  then obtain n stored where
    len: "length bs \<le> MAX_METADATA_OBJECT_BYTES" and ck: "checksum64 E bs = lr_checksum expected"
    and fr: "open_frame E MAGIC_FILE_LIST bs = Some (enc_u16 FORMAT_VERSION @ enc_u64 volume @ enc_u64 (fl_writer_fence l) @
      enc_u64 (fl_list_id l) @ enc_u32 n @ enc_many enc_object_ref (fl_objects l) @ enc_u64 stored)"
    and ex: "fl_writer_fence l = lr_writer_fence expected" "fl_list_id l = lr_list_id expected"
    and n: "length (fl_objects l) = unat n" and ok: "list_all (object_ref_valid E) (fl_objects l)"
    and st: "checksum64 E (enc_file_list_content l) = stored" and vol: "fl_volume l = volume"
    and val: "validate_object_refs E (fl_objects l) = Some ()"
    by (auto simp: file_list_decode_def codec_simps not_less Let_def elim!: bind_SomeE)
  have "n = of_nat (length (fl_objects l))" using n by simp
  then have "open_frame E MAGIC_FILE_LIST bs =
      Some (enc_file_list_content l @ enc_u64 (checksum64 E (enc_file_list_content l)))"
    using fr by (simp add: enc_file_list_content_def vol st [symmetric])
  then have "file_list_encode E l = Some bs" using val len n by (simp add: file_list_encode_def frame_open_seal)
  then show "file_list_encode E l = Some bs \<and> file_list_reference E l = Some expected \<and> fl_volume l = volume \<and>
      list_all (object_ref_valid E) (fl_objects l)"
    using ck ex vol ok by (simp add: file_list_reference_def)
next
  assume "file_list_encode E l = Some bs \<and> file_list_reference E l = Some expected \<and> fl_volume l = volume \<and>
      list_all (object_ref_valid E) (fl_objects l)"
  then have enc: "file_list_encode E l = Some bs" and rf: "file_list_reference E l = Some expected"
    and vol: "fl_volume l = volume" and ok: "list_all (object_ref_valid E) (fl_objects l)" by simp_all
  from enc have val: "validate_object_refs E (fl_objects l) = Some ()" and fits: "fits_u32 (length (fl_objects l))"
    and fr: "open_frame E MAGIC_FILE_LIST bs = Some (enc_file_list_content l @ enc_u64 (checksum64 E (enc_file_list_content l)))"
    and len: "length bs \<le> MAX_METADATA_OBJECT_BYTES"
    by (auto simp: file_list_encode_def frame_open_seal Let_def elim!: bind_SomeE)
  have ex: "expected = \<lparr> lr_writer_fence = fl_writer_fence l, lr_list_id = fl_list_id l, lr_checksum = checksum64 E bs \<rparr>"
    using rf enc by (simp add: file_list_reference_def)
  have dm: "dec_many (dec_object_ref E) (length (fl_objects l)) (enc_many enc_object_ref (fl_objects l) @ r) =
      Some (fl_objects l, r)" for r
    using ok by (simp add: object_refc.many_iff)
  have l: "\<lparr> fl_volume = volume, fl_writer_fence = fl_writer_fence l, fl_list_id = fl_list_id l, fl_objects = fl_objects l \<rparr> = l"
    using vol by (cases l) simp
  have payload: "enc_file_list_content l @ r = enc_u16 FORMAT_VERSION @ enc_u64 volume @ enc_u64 (fl_writer_fence l) @
      enc_u64 (fl_list_id l) @ enc_u32 (of_nat (length (fl_objects l))) @ enc_many enc_object_ref (fl_objects l) @ r" for r
    by (simp add: enc_file_list_content_def vol)
  show "file_list_decode E expected volume bs = Some l"
    using val len
    by (simp add: file_list_decode_def ex fr payload unat_of_nat_u32 [OF fits] dm l Let_def)
qed

lemma base_root_decode_iff:
  "base_root_decode E base_id bs = Some b \<longleftrightarrow> base_root_encode E b = Some bs \<and> bt_base_id b = base_id"
proof
  show "base_root_decode E base_id bs = Some b \<Longrightarrow> base_root_encode E b = Some bs \<and> bt_base_id b = base_id"
    by (auto simp: base_root_decode_def base_root_encode_def frame_open_seal codec_simps elim!: bind_SomeE)
qed (auto simp: base_root_decode_def base_root_encode_def)

lemma base_manifest_decode_iff:
  assumes ps: "fits_u32 (env_page_size E)"
  shows "base_manifest_decode E root bs = Some b \<longleftrightarrow>
    base_manifest_encode E b = Some bs \<and> base_manifest_root E b = Some root \<and>
    vc_pages (bs_config b) \<noteq> 0 \<and> list_all (object_ref_valid E) (bs_objects b)"
proof
  assume "base_manifest_decode E root bs = Some b"
  then obtain n where
    len: "length bs \<le> MAX_METADATA_OBJECT_BYTES" and ck: "checksum64 E bs = bt_manifest_checksum root"
    and fr: "open_frame E MAGIC_BASE_MANIFEST bs = Some (
      enc_u16 FORMAT_VERSION @ enc_u64 (bs_base_id b) @ enc_u64 (bs_manifest_id b) @ enc_u64 (bs_capture_seq b) @
      enc_u64 (bs_sync_covered_through b) @ enc_u8 (recovery_kind_tag (bs_recovery_kind b)) @
      enc_u64 (bs_checkpoint_epoch b) @ enc_u32 (of_nat (env_page_size E)) @ enc_config (bs_config b) @
      enc_u64 (bs_vmstate_logical_length b) @ enc_u64 (bs_post_state_checksum b) @
      enc_u64 (bs_metadata_checksum b) @ enc_u32 n @ enc_many enc_object_ref (bs_objects b))"
    and ids: "bs_base_id b = bt_base_id root" "bs_manifest_id b = bt_manifest_id root"
      "bs_post_state_checksum b = bt_post_state_checksum root"
    and n: "length (bs_objects b) = unat n" and ok: "list_all (object_ref_valid E) (bs_objects b)" "vc_pages (bs_config b) \<noteq> 0"
    and val: "validate_object_refs E (bs_objects b) = Some ()" "bs_sync_covered_through b \<le> bs_capture_seq b"
    by (auto simp: base_manifest_decode_def codec_simps not_less Let_def elim!: bind_SomeE)
  have "n = of_nat (length (bs_objects b))" using n by simp
  then have "open_frame E MAGIC_BASE_MANIFEST bs = Some (enc_base_manifest_payload E b)"
    using fr by (simp add: enc_base_manifest_payload_def)
  then have "base_manifest_encode E b = Some bs"
    using val len n ps by (simp add: base_manifest_encode_def frame_open_seal)
  then show "base_manifest_encode E b = Some bs \<and> base_manifest_root E b = Some root \<and>
      vc_pages (bs_config b) \<noteq> 0 \<and> list_all (object_ref_valid E) (bs_objects b)"
    using ck ids ok by (simp add: base_manifest_root_def)
next
  assume asm: "base_manifest_encode E b = Some bs \<and> base_manifest_root E b = Some root \<and>
      vc_pages (bs_config b) \<noteq> 0 \<and> list_all (object_ref_valid E) (bs_objects b)"
  then have val: "validate_object_refs E (bs_objects b) = Some ()" "bs_sync_covered_through b \<le> bs_capture_seq b"
    and fits: "fits_u32 (length (bs_objects b))"
    and fr: "open_frame E MAGIC_BASE_MANIFEST bs = Some (enc_base_manifest_payload E b)"
    and len: "length bs \<le> MAX_METADATA_OBJECT_BYTES"
    by (auto simp: base_manifest_encode_def frame_open_seal elim!: bind_SomeE)
  have rt: "root = \<lparr> bt_base_id = bs_base_id b, bt_manifest_id = bs_manifest_id b,
      bt_manifest_checksum = checksum64 E bs, bt_post_state_checksum = bs_post_state_checksum b \<rparr>"
    using asm by (auto simp: base_manifest_root_def)
  have dm: "dec_many (dec_object_ref E) (length (bs_objects b)) (enc_many enc_object_ref (bs_objects b)) =
      Some (bs_objects b, [])"
    using asm by (simp add: object_refc.many_iff)
  show "base_manifest_decode E root bs = Some b"
    using val len asm
    by (simp add: base_manifest_decode_def rt fr enc_base_manifest_payload_def unat_of_nat_u32 [OF fits] dm not_less)
qed

text \<open>
  C30: The archive metadata formats are canonical: for manifests, complete file lists, base
  manifests and base roots alike, a byte string decodes to a value exactly when encoding that value
  produces that byte string, its reference or root matches, and its references and configuration
  are valid ones.
\<close>

theorem archive_metadata_canonical:
  assumes "validate_page_size (env_page_size E)"
  shows "(manifest_decode E volume bs = Some m \<longleftrightarrow>
      manifest_encode E m = Returned bs \<and> mf_volume m = volume \<and> manifest_fields_ok E m) \<and>
    (file_list_decode E expected volume bs = Some l \<longleftrightarrow>
      file_list_encode E l = Some bs \<and> file_list_reference E l = Some expected \<and> fl_volume l = volume \<and>
      list_all (object_ref_valid E) (fl_objects l)) \<and>
    (base_manifest_decode E root bs = Some b \<longleftrightarrow>
      base_manifest_encode E b = Some bs \<and> base_manifest_root E b = Some root \<and>
      vc_pages (bs_config b) \<noteq> 0 \<and> list_all (object_ref_valid E) (bs_objects b)) \<and>
    (base_root_decode E base_id bs = Some rt \<longleftrightarrow> base_root_encode E rt = Some bs \<and> bt_base_id rt = base_id)"
  using assms
  by (simp add: validate_page_size_def manifest_decode_iff file_list_decode_iff base_manifest_decode_iff base_root_decode_iff)

section \<open>The state chain\<close>

lemma option_eqI: "(\<And>v. x = Some v \<longleftrightarrow> y = Some v) \<Longrightarrow> x = y"
  by (cases x; cases y) auto

text \<open>
  The specification of a state chain: each batch starts where the previous one ended, the first one
  starts at the base or is a materialized state of its own, and the last one ends at the manifest's
  checksum.
\<close>

fun chain_links :: "(u64 \<times> u64) list \<Rightarrow> bool" where
  "chain_links [] = True"
| "chain_links [b] = True"
| "chain_links (a # b # bs) = (snd a = fst b \<and> chain_links (b # bs))"

definition chain_ok :: "u64 \<Rightarrow> u64 \<Rightarrow> (u64 \<times> u64) list \<Rightarrow> bool" where
  "chain_ok base post bs \<longleftrightarrow>
     (if bs = [] then post = base
      else (fst (hd bs) = snd (hd bs) \<or> fst (hd bs) = base) \<and> chain_links bs \<and> snd (last bs) = post)"

lemma follow_chain_links:
  "follow_chain q bs = Some c \<longleftrightarrow> chain_links ((p, q) # bs) \<and> c = snd (last ((p, q) # bs))"
proof (induction bs arbitrary: p q)
  case (Cons b bs)
  obtain x y where "b = (x, y)" by (meson surj_pair)
  then show ?case using Cons.IH [of y x] by auto
qed auto

lemma validate_file_state_chain_iff:
  "validate_file_state_chain base post files = Some () \<longleftrightarrow>
   (\<exists>batches. state_batches files [] = Some batches \<and> chain_ok base post (bm_values batches))"
proof -
  have "(case bm_values batches of [] \<Rightarrow> guard_opt (post = base)
      | (p, q) # rest \<Rightarrow> if length batches = 1 \<and> p = q \<and> q = post then Some ()
          else do { guard_opt (p = q \<or> p = base); c \<leftarrow> follow_chain q rest; guard_opt (c = post) }) = Some () \<longleftrightarrow>
    chain_ok base post (bm_values batches)" for batches :: "(u64 \<times> u64, u64 \<times> u64) btree_map"
  proof (cases "bm_values batches")
    case Nil
    then show ?thesis by (simp add: chain_ok_def)
  next
    case (Cons b rest)
    obtain p q where b: "b = (p, q)" by (meson surj_pair)
    have one: "rest = []" if "length batches = 1" using that Cons by (cases batches) (auto simp: bm_values_def)
    have "do { guard_opt (p = q \<or> p = base); c \<leftarrow> follow_chain q rest; guard_opt (c = post) } = Some () \<longleftrightarrow>
        chain_ok base post (bm_values batches)"
      using follow_chain_links [of q rest _ p] by (auto simp: Cons b chain_ok_def bind_eq_Some_conv)
    moreover have "chain_ok base post (bm_values batches)" if "length batches = 1" "p = q" "q = post"
      using one [OF that(1)] that by (simp add: Cons b chain_ok_def)
    ultimately show ?thesis by (auto simp: Cons b)
  qed
  then show ?thesis by (auto simp: validate_file_state_chain_def bind_eq_Some_conv)
qed

text \<open>What the grouped states of a file list are.\<close>

definition batches_of_files :: "(u64 \<times> u64, u64 \<times> u64) btree_map \<Rightarrow> object_ref list \<Rightarrow> bool" where
  "batches_of_files batches files \<longleftrightarrow> bm_ordered (<) batches \<and>
     (\<forall>k v. map_of batches k = Some v \<longleftrightarrow> (\<exists>f \<in> set files. file_batch f = k \<and> file_state f = v))"

lemma state_batches_spec:
  "state_batches files m = Some out \<Longrightarrow> bm_ordered (<) m \<Longrightarrow>
   bm_ordered (<) out \<and>
   (map_of out k = Some v \<longleftrightarrow> map_of m k = Some v \<or> (\<exists>f \<in> set files. file_batch f = k \<and> file_state f = v))"
proof (induction files arbitrary: m)
  case Nil
  then show ?case by simp
next
  case (Cons f fs)
  from Cons.prems(1) have old: "map_of m (file_batch f) = None \<or> map_of m (file_batch f) = Some (file_state f)"
    and rest: "state_batches fs (bm_insert (<) (file_batch f) (file_state f) m) = Some out"
    by (auto split: option.splits elim!: bind_SomeE)
  have "bm_ordered (<) (bm_insert (<) (file_batch f) (file_state f) m)"
    using Cons.prems(2) by (rule linear.ordered_insert)
  from Cons.IH [OF rest this] old show ?case by (auto simp: linear.map_of_insert)
qed

lemma state_batches_of_files:
  assumes "state_batches files [] = Some out"
  shows "batches_of_files out files"
proof -
  have "bm_ordered (<) ([] :: (u64 \<times> u64, u64 \<times> u64) btree_map)" by (simp add: bm_ordered_def)
  from state_batches_spec [OF assms this] show ?thesis unfolding batches_of_files_def by simp
qed

lemma state_batches_total:
  "\<forall>f \<in> set files. \<forall>g \<in> set files. file_batch f = file_batch g \<longrightarrow> file_state f = file_state g \<Longrightarrow>
   \<forall>f \<in> set files. map_of m (file_batch f) = None \<or> map_of m (file_batch f) = Some (file_state f) \<Longrightarrow>
   \<exists>out. state_batches files m = Some out"
proof (induction files arbitrary: m)
  case Nil
  then show ?case by simp
next
  case (Cons f fs)
  let ?m = "bm_insert (<) (file_batch f) (file_state f) m"
  have "map_of ?m (file_batch g) = None \<or> map_of ?m (file_batch g) = Some (file_state g)" if g: "g \<in> set fs" for g
  proof (cases "file_batch g = file_batch f")
    case True
    then have "file_state f = file_state g" using Cons.prems(1) g by (metis list.set_intros)
    then show ?thesis using True by (simp add: linear.map_of_insert)
  next
    case False
    then show ?thesis using Cons.prems(2) g by (simp add: linear.map_of_insert)
  qed
  then have "\<exists>out. state_batches fs ?m = Some out"
    using Cons.prems(1) by (intro Cons.IH ballI) (metis list.set_intros(2), blast)
  moreover have "state_batches (f # fs) m = state_batches fs ?m" using Cons.prems(2) by auto
  ultimately show ?case by (simp only: )
qed

text \<open>
  C23: The state-chain check decides its specification: it accepts exactly when the files, grouped
  by capture sequence and batch, agree within each group, and the groups, read in that order, form a
  chain: each starts at the checksum where the previous one ended, the first starts at the base's
  checksum or is a materialized state, and the last ends at the manifest's checksum.
\<close>

theorem validate_file_state_chain_exact:
  "validate_file_state_chain base post files = Some () \<longleftrightarrow>
   (\<exists>batches. batches_of_files batches files \<and> chain_ok base post (bm_values batches))"
proof
  assume "validate_file_state_chain base post files = Some ()"
  then show "\<exists>batches. batches_of_files batches files \<and> chain_ok base post (bm_values batches)"
    unfolding validate_file_state_chain_iff using state_batches_of_files by blast
next
  assume "\<exists>batches. batches_of_files batches files \<and> chain_ok base post (bm_values batches)"
  then obtain batches where of: "batches_of_files batches files" and ok: "chain_ok base post (bm_values batches)"
    by blast
  have get: "map_of batches k = Some v \<longleftrightarrow> (\<exists>f \<in> set files. file_batch f = k \<and> file_state f = v)" for k v
    using of unfolding batches_of_files_def by blast
  have same: "file_state f = file_state g" if "f \<in> set files" "g \<in> set files" "file_batch f = file_batch g" for f g
    using get [of "file_batch f" "file_state f"] get [of "file_batch f" "file_state g"] that by auto
  have "\<exists>out. state_batches files [] = Some out"
    by (rule state_batches_total) (intro ballI impI, erule (2) same, simp)
  then obtain out where st: "state_batches files [] = Some out" by blast
  have out: "batches_of_files out files" by (rule state_batches_of_files [OF st])
  have "map_of out k = Some v \<longleftrightarrow> map_of batches k = Some v" for k v
    using out get [of k v] unfolding batches_of_files_def by blast
  then have "map_of out = map_of batches" by (intro ext option_eqI)
  moreover have "bm_ordered (<) out" "bm_ordered (<) batches" using out of unfolding batches_of_files_def by blast+
  ultimately have "out = batches" by (blast intro: linear.ordered_ext)
  then show "validate_file_state_chain base post files = Some ()"
    unfolding validate_file_state_chain_iff using st ok by blast
qed

section \<open>The current files\<close>

lemma validate_distinct: "validate_objects E rs mx = Some () \<Longrightarrow> distinct (map or_identity rs)"
proof -
  assume "validate_objects E rs mx = Some ()"
  then obtain out where "collect_batches [] [] rs = Some out" by (auto simp: validate_objects_def elim!: bind_SomeE)
  then have "sorted_wrt chunks_compatible rs"
    using collect_batches_spec [OF batches_for_Nil, of "[]" rs] by auto
  then have "sorted_wrt (\<lambda>r s. or_identity r \<noteq> or_identity s) rs"
    by (rule sorted_wrt_mono_rel [rotated]) (simp add: chunks_compatible_def)
  then show ?thesis
    by (simp add: distinct_conv_nth sorted_wrt_iff_nth_less) (metis linorder_neqE_nat)
qed

lemma remove_files_spec:
  "remove_files is m = Some out \<Longrightarrow> bm_ordered identity_less m \<Longrightarrow>
   bm_ordered identity_less out \<and> set is \<subseteq> dom (map_of m) \<and> distinct is \<and>
   (\<forall>k. map_of out k = (if k \<in> set is then None else map_of m k))"
proof (induction "is" arbitrary: m)
  case Nil
  then show ?case by simp
next
  case (Cons i "is")
  from Cons.prems(1) have i: "map_of m i \<noteq> None" and rest: "remove_files is (bm_remove i m) = Some out"
    by (auto elim!: bind_SomeE)
  have "bm_ordered identity_less (bm_remove i m)" using Cons.prems(2) by (rule identity_order.ordered_remove)
  from Cons.IH [OF rest this] i show ?case by (auto simp: identity_order.map_of_remove split: if_splits)
qed

lemma insert_files_spec:
  "insert_files rs m = Some out \<Longrightarrow> bm_ordered identity_less m \<Longrightarrow>
   bm_ordered identity_less out \<and> or_identity ` set rs \<inter> dom (map_of m) = {} \<and> distinct (map or_identity rs) \<and>
   (\<forall>k v. map_of out k = Some v \<longleftrightarrow> map_of m k = Some v \<or> (v \<in> set rs \<and> or_identity v = k))"
proof (induction rs arbitrary: m)
  case Nil
  then show ?case by simp
next
  case (Cons r rs)
  let ?m = "bm_insert identity_less (or_identity r) r m"
  from Cons.prems(1) have new: "map_of m (or_identity r) = None" and rest: "insert_files rs ?m = Some out"
    by (auto elim!: bind_SomeE)
  have "bm_ordered identity_less ?m" using Cons.prems(2) by (rule identity_order.ordered_insert)
  note IH = Cons.IH [OF rest this]
  have dom: "dom (map_of ?m) = insert (or_identity r) (dom (map_of m))"
    by (simp add: identity_order.map_of_insert)
  have "map_of out k = Some v \<longleftrightarrow> map_of m k = Some v \<or> (v \<in> set (r # rs) \<and> or_identity v = k)" for k v
    using IH new by (auto simp: identity_order.map_of_insert)
  moreover have "or_identity r \<notin> or_identity ` set rs" "or_identity ` set rs \<inter> dom (map_of m) = {}"
    "distinct (map or_identity rs)" "bm_ordered identity_less out"
    using IH unfolding dom by auto
  ultimately show ?case using new by (auto simp: domIff)
qed

lemma remove_files_total:
  "set is \<subseteq> dom (map_of m) \<Longrightarrow> distinct is \<Longrightarrow> \<exists>out. remove_files is m = Some out"
proof (induction "is" arbitrary: m)
  case (Cons i "is")
  then have "set is \<subseteq> dom (map_of (bm_remove i m))" by (auto simp: identity_order.map_of_remove)
  with Cons show ?case by (auto simp: domIff)
qed simp

lemma insert_files_total:
  "or_identity ` set rs \<inter> dom (map_of m) = {} \<Longrightarrow> distinct (map or_identity rs) \<Longrightarrow> \<exists>out. insert_files rs m = Some out"
proof (induction rs arbitrary: m)
  case (Cons r rs)
  let ?m = "bm_insert identity_less (or_identity r) r m"
  have "or_identity ` set rs \<inter> dom (map_of ?m) = {}"
    using Cons.prems by (auto simp: identity_order.map_of_insert)
  then have "\<exists>out. insert_files rs ?m = Some out" using Cons by simp
  moreover have "map_of m (or_identity r) = None" using Cons.prems(1) by (auto simp: domIff)
  ultimately show ?case by simp
qed simp

text \<open>A list of references sorted by identity is determined by its elements.\<close>

lemma sorted_refs_unique:
  assumes "sorted_wrt identity_less (map or_identity xs)" "sorted_wrt identity_less (map or_identity ys)" "set xs = set ys"
  shows "xs = ys"
proof -
  have ord: "bm_ordered identity_less (map (\<lambda>r. (or_identity r, r)) zs)"
    if "sorted_wrt identity_less (map or_identity zs)" for zs
    using that by (simp add: bm_ordered_def comp_def)
  have "map_of (map (\<lambda>r. (or_identity r, r)) xs) = map_of (map (\<lambda>r. (or_identity r, r)) ys)"
    using assms(3) by (intro ext option_eqI) (simp add: identity_order.get_iff_mem ord assms(1,2) image_iff)
  then have "map (\<lambda>r. (or_identity r, r)) xs = map (\<lambda>r. (or_identity r, r)) ys"
    by (rule identity_order.ordered_ext [OF ord [OF assms(1)] ord [OF assms(2)]])
  from arg_cong [OF this, of "map snd"] show ?thesis by (simp add: comp_def)
qed

text \<open>
  What the merge of a listed set of files with the removals and additions of a manifest demands, and
  what it yields: every removed identity is listed and removed once, every added identity is new, and
  the result holds the remaining and the added files in identity order.
\<close>

definition remaining_files :: "manifest \<Rightarrow> object_ref list \<Rightarrow> object_ref set" where
  "remaining_files m listed = {r \<in> set listed. or_identity r \<notin> set (mf_removed m)}"

definition merge_ok :: "manifest \<Rightarrow> object_ref list \<Rightarrow> bool" where
  "merge_ok m listed \<longleftrightarrow> distinct (mf_removed m) \<and> set (mf_removed m) \<subseteq> or_identity ` set listed \<and>
     distinct (map or_identity (mf_added m)) \<and>
     or_identity ` set (mf_added m) \<inter> or_identity ` remaining_files m listed = {}"

definition merged_files :: "manifest \<Rightarrow> object_ref list \<Rightarrow> object_ref list option" where
  "merged_files m listed =
     do { files \<leftarrow> remove_files (mf_removed m) (bm_collect identity_less (map (\<lambda>r. (or_identity r, r)) listed));
          files \<leftarrow> insert_files (mf_added m) files;
          Some (bm_values files) }"

lemma files_after_merged:
  "files_after E m listed = Some files \<longleftrightarrow> merged_files m listed = Some files \<and>
   validate_object_refs E files = Some () \<and> validate_state_chain m files = Some ()"
  by (auto simp: files_after_def merged_files_def Let_def bind_eq_Some_conv)

lemma merged_files_iff:
  assumes dist: "distinct (map or_identity listed)"
  shows "merged_files m listed = Some files \<longleftrightarrow> merge_ok m listed \<and>
    set files = remaining_files m listed \<union> set (mf_added m) \<and> sorted_wrt identity_less (map or_identity files)"
proof -
  let ?m0 = "bm_collect identity_less (map (\<lambda>r. (or_identity r, r)) listed)"
  have o0: "bm_ordered identity_less ?m0" by (rule identity_order.ordered_collect)
  have d0: "distinct (map fst (map (\<lambda>r. (or_identity r, r)) listed))" using dist by (simp add: comp_def)
  have m0: "map_of ?m0 k = Some v \<longleftrightarrow> v \<in> set listed \<and> or_identity v = k" for k v
    using identity_order.get_iff_mem [OF o0] identity_order.collect_distinct_set [OF d0] by auto
  have dom0: "dom (map_of ?m0) = or_identity ` set listed" using m0 by (auto simp: dom_def)
  have sound: "merge_ok m listed \<and> set out = remaining_files m listed \<union> set (mf_added m) \<and>
      sorted_wrt identity_less (map or_identity out)" if merged: "merged_files m listed = Some out" for out
  proof -
    from merged obtain m1 m2 where rm: "remove_files (mf_removed m) ?m0 = Some m1"
      and ins: "insert_files (mf_added m) m1 = Some m2" and out: "out = bm_values m2"
      by (auto simp: merged_files_def bind_eq_Some_conv)
    note rm' = remove_files_spec [OF rm o0]
    then have o1: "bm_ordered identity_less m1" by simp
    have m1: "map_of m1 k = Some v \<longleftrightarrow> v \<in> remaining_files m listed \<and> or_identity v = k" for k v
      using rm' m0 by (auto simp: remaining_files_def)
    have dom1: "dom (map_of m1) = or_identity ` remaining_files m listed" using m1 by (auto simp: dom_def)
    note ins' = insert_files_spec [OF ins o1]
    have o2: "bm_ordered identity_less m2" using ins' by simp
    have m2: "(k, v) \<in> set m2 \<longleftrightarrow> or_identity v = k \<and> (v \<in> remaining_files m listed \<or> v \<in> set (mf_added m))" for k v
      using ins' m1 identity_order.get_iff_mem [OF o2, of k v] by auto
    have "v \<in> set out \<longleftrightarrow> (\<exists>k. (k, v) \<in> set m2)" for v by (force simp: out bm_values_def)
    then have "set out = remaining_files m listed \<union> set (mf_added m)" using m2 by auto
    moreover have "map or_identity out = map fst m2" using m2 by (auto simp: out bm_values_def)
    ultimately show ?thesis
      using o2 rm' ins' by (simp add: merge_ok_def dom0 dom1 bm_ordered_def)
  qed
  have "\<exists>out. merged_files m listed = Some out" if ok: "merge_ok m listed"
  proof -
    from ok obtain m1 where rm: "remove_files (mf_removed m) ?m0 = Some m1"
      using remove_files_total [of "mf_removed m" ?m0] by (auto simp: merge_ok_def dom0)
    have "dom (map_of m1) = or_identity ` remaining_files m listed"
      using remove_files_spec [OF rm o0] m0 by (auto simp: dom_def remaining_files_def)
    then show ?thesis
      using insert_files_total [of "mf_added m" m1] ok rm by (auto simp: merge_ok_def merged_files_def)
  qed
  with sound show ?thesis by (metis sorted_refs_unique)
qed

text \<open>The files a list contributes.\<close>

definition listed_objects :: "complete_file_list option \<Rightarrow> object_ref list" where
  "listed_objects l = (case l of None \<Rightarrow> [] | Some l \<Rightarrow> fl_objects l)"

lemma reference_distinct: "file_list_reference E l = Some r \<Longrightarrow> distinct (map or_identity (fl_objects l))"
  by (auto simp: file_list_reference_def file_list_encode_def validate_object_refs_def dest: validate_distinct
      elim!: bind_SomeE)

lemma current_files_ReturnedD:
  assumes "current_files E m l = Returned files"
  shows "files_after E m (listed_objects l) = Some files" "distinct (map or_identity (listed_objects l))"
    "(mf_complete_list m = None \<and> l = None) \<or> (\<exists>l' r. l = Some l' \<and> file_list_reference E l' = Some r \<and> mf_complete_list m = Some r)"
  using assms
  by (auto simp: current_files_def of_option_def listed_objects_def dest: reference_distinct
      split: option.splits if_splits)

text \<open>
  The specification of \<^verbatim>\<open>current_files\<close>: the list that was passed is the one the manifest references,
  or neither is there; the merge is possible; and the files are its result and pass both validations.
\<close>

definition list_matches :: "env \<Rightarrow> manifest \<Rightarrow> complete_file_list option \<Rightarrow> bool" where
  "list_matches E m l \<longleftrightarrow>
     (case l of None \<Rightarrow> mf_complete_list m = None
      | Some l' \<Rightarrow> mf_complete_list m \<noteq> None \<and> file_list_reference E l' = mf_complete_list m)"

definition current_files_spec :: "env \<Rightarrow> manifest \<Rightarrow> complete_file_list option \<Rightarrow> object_ref list \<Rightarrow> bool" where
  "current_files_spec E m l files \<longleftrightarrow>
     list_matches E m l \<and> merge_ok m (listed_objects l) \<and>
     set files = remaining_files m (listed_objects l) \<union> set (mf_added m) \<and>
     sorted_wrt identity_less (map or_identity files) \<and>
     validate_object_refs E files = Some () \<and> validate_state_chain m files = Some ()"

lemma list_matches_distinct: "list_matches E m l \<Longrightarrow> distinct (map or_identity (listed_objects l))"
  by (auto simp: list_matches_def listed_objects_def dest: reference_distinct split: option.splits)

lemma current_files_Returned: "current_files E m l = Returned files \<longleftrightarrow> current_files_spec E m l files"
proof -
  have "current_files E m l = Returned files \<longleftrightarrow> list_matches E m l \<and> files_after E m (listed_objects l) = Some files"
    by (auto simp: current_files_def list_matches_def listed_objects_def of_option_def split: option.splits if_splits)
  also have "\<dots> \<longleftrightarrow> current_files_spec E m l files"
    using merged_files_iff [OF list_matches_distinct, of E m l m files]
    by (auto simp: files_after_merged current_files_spec_def)
  finally show ?thesis .
qed

lemma current_files_Panicked:
  "current_files E m l = Panicked \<longleftrightarrow>
   mf_complete_list m \<noteq> None \<and> (\<exists>l'. l = Some l' \<and> file_list_reference E l' = None)"
  by (auto simp: current_files_def of_option_def split: option.splits)

text \<open>
  C22: The current files of a manifest, on every branch.  They are returned exactly when the list
  that was passed is the one the manifest references (or neither exists), every removed identity is
  listed and removed once, no added identity occurs twice or is that of a remaining file, and the
  remaining and added files, sorted by identity, pass both validations; the result is then that sorted
  list.  The computation panics exactly when the manifest references a list and the list passed has no
  encoding, and in every other case it reports a decode error.
\<close>

theorem current_files_exact:
  "(current_files E m l = Returned files \<longleftrightarrow>
     list_matches E m l \<and> distinct (mf_removed m) \<and>
     set (mf_removed m) \<subseteq> or_identity ` set (listed_objects l) \<and>
     distinct (map or_identity (mf_added m)) \<and>
     or_identity ` set (mf_added m) \<inter> or_identity ` {r \<in> set (listed_objects l). or_identity r \<notin> set (mf_removed m)} = {} \<and>
     set files = {r \<in> set (listed_objects l). or_identity r \<notin> set (mf_removed m)} \<union> set (mf_added m) \<and>
     sorted_wrt identity_less (map or_identity files) \<and> distinct (map or_identity files) \<and>
     validate_object_refs E files = Some () \<and> validate_state_chain m files = Some ()) \<and>
   (current_files E m l = Panicked \<longleftrightarrow>
     mf_complete_list m \<noteq> None \<and> (\<exists>l'. l = Some l' \<and> file_list_reference E l' = None)) \<and>
   (current_files E m l = Failed () \<longleftrightarrow>
     \<not> (mf_complete_list m \<noteq> None \<and> (\<exists>l'. l = Some l' \<and> file_list_reference E l' = None)) \<and>
     \<not> (\<exists>files. current_files_spec E m l files))"
proof -
  have "current_files E m l = Failed () \<longleftrightarrow>
      current_files E m l \<noteq> Panicked \<and> \<not> (\<exists>files. current_files E m l = Returned files)"
    by (cases "current_files E m l") simp_all
  moreover have "distinct (map or_identity files)" if "validate_object_refs E files = Some ()"
    using that by (auto simp: validate_object_refs_def dest: validate_distinct)
  ultimately show ?thesis
    unfolding current_files_Returned current_files_Panicked
    by (auto simp: current_files_spec_def merge_ok_def remaining_files_def)
qed

section \<open>Bounding keeps the current files\<close>

lemma collect_sorted_refs:
  assumes "sorted_wrt identity_less (map or_identity files)"
  shows "bm_values (bm_collect identity_less (map (\<lambda>r. (or_identity r, r)) files)) = files"
proof -
  let ?m = "map (\<lambda>r. (or_identity r, r)) files"
  have ord: "bm_ordered identity_less ?m" using assms by (simp add: bm_ordered_def comp_def)
  have dist: "distinct (map fst ?m)" by (rule identity_order.distinct_keys [OF ord])
  have "map_of (bm_collect identity_less ?m) = map_of ?m"
    by (intro ext option_eqI)
      (simp only: identity_order.get_iff_mem [OF ord] identity_order.get_iff_mem [OF identity_order.ordered_collect]
        identity_order.collect_distinct_set [OF dist])
  then have "bm_collect identity_less ?m = ?m"
    by (rule identity_order.ordered_ext [OF identity_order.ordered_collect ord])
  then show ?thesis by (simp add: bm_values_def comp_def)
qed

lemma files_after_reset:
  assumes "validate_object_refs E files = Some ()" "validate_state_chain m files = Some ()"
    and "sorted_wrt identity_less (map or_identity files)"
  shows "files_after E (m\<lparr> mf_complete_list := r, mf_added := [], mf_removed := [] \<rparr>) files = Some files"
  using assms by (simp add: files_after_def collect_sorted_refs validate_state_chain_def)

lemma length_enc_object_refs [simp]: "length (enc_many enc_object_ref rs) = 109 * length rs"
  by (induction rs) (simp_all add: enc_many_def)

text \<open>A list of valid references encodes exactly when its frame fits in 64 MiB.\<close>

lemma file_list_reference_total:
  assumes "validate_object_refs E (fl_objects l) = Some ()"
  shows "(\<exists>r. file_list_reference E l = Some r) \<longleftrightarrow> 50 + 109 * length (fl_objects l) \<le> MAX_METADATA_OBJECT_BYTES"
  using assms
  by (auto simp: file_list_reference_def file_list_encode_def enc_file_list_content_def seal_frame_def fits_u32_def
      MAX_METADATA_OBJECT_BYTES_def Let_def elim!: bind_SomeE)

text \<open>Without additions and removals a manifest is a few hundred bytes.\<close>

lemma manifest_encode_reset:
  assumes "manifest_encode E m \<noteq> Panicked"
  shows "\<exists>bs. manifest_encode E (m\<lparr> mf_complete_list := Some r, mf_added := [], mf_removed := [] \<rparr>) = Returned bs \<and>
    length bs < 300"
proof -
  let ?m = "m\<lparr> mf_complete_list := Some r, mf_added := [], mf_removed := [] \<rparr>"
  from assms have shape: "validate_manifest_shape E m = Some ()" and ps: "fits_u32 (env_page_size E)"
    by (auto simp: manifest_encode_def split: if_splits)
  have "validate_object_refs E [] = Some ()"
    by (simp add: validate_object_refs_def validate_objects_def bm_values_def range_events_def)
  then have "validate_manifest_shape E ?m = Some ()"
    using shape by (auto simp: validate_manifest_shape_def bind_eq_Some_conv)
  moreover have "length (enc_manifest_payload E ?m) < 280"
    by (simp add: enc_manifest_payload_def enc_manifest_prefix_def enc_config_def enc_base_ref_def enc_list_ref_def
        enc_many_def split: option.split)
  ultimately show ?thesis
    using ps by (simp add: manifest_encode_Returned frame_shape MAX_MANIFEST_BYTES_def fits_u32_def)
qed

text \<open>The complete list that \<^verbatim>\<open>bound_manifest\<close> rolls the files into.\<close>

definition rolled_list :: "manifest \<Rightarrow> u64 \<Rightarrow> object_ref list \<Rightarrow> complete_file_list" where
  "rolled_list m new_list_id files =
     \<lparr> fl_volume = mf_volume m, fl_writer_fence = mf_writer_fence m, fl_list_id = new_list_id, fl_objects = files \<rparr>"

lemma bound_manifest_rolls:
  assumes "manifest_encode E m = Failed ()" "current_files E m l = Returned files"
    "file_list_reference E (rolled_list m new_list_id files) = Some r"
  shows "bound_manifest E m l new_list_id =
      Returned \<lparr> bd_manifest = m\<lparr> mf_complete_list := Some r, mf_added := [], mf_removed := [] \<rparr>,
        bd_new_complete_list = Some (rolled_list m new_list_id files) \<rparr>"
    and "current_files E (m\<lparr> mf_complete_list := Some r, mf_added := [], mf_removed := [] \<rparr>)
      (Some (rolled_list m new_list_id files)) = Returned files"
proof -
  obtain bs where "manifest_encode E (m\<lparr> mf_complete_list := Some r, mf_added := [], mf_removed := [] \<rparr>) = Returned bs"
    using manifest_encode_reset [of E m r] assms(1) by auto
  then show "bound_manifest E m l new_list_id =
      Returned \<lparr> bd_manifest = m\<lparr> mf_complete_list := Some r, mf_added := [], mf_removed := [] \<rparr>,
        bd_new_complete_list = Some (rolled_list m new_list_id files) \<rparr>"
    using assms by (simp add: bound_manifest_def rolled_list_def)
  have "files_after E (m\<lparr> mf_complete_list := Some r, mf_added := [], mf_removed := [] \<rparr>) files = Some files"
    using assms(2) unfolding current_files_Returned current_files_spec_def by (intro files_after_reset) blast+
  then show "current_files E (m\<lparr> mf_complete_list := Some r, mf_added := [], mf_removed := [] \<rparr>)
      (Some (rolled_list m new_list_id files)) = Returned files"
    using assms(3) by (simp add: current_files_def of_option_def rolled_list_def)
qed

lemma bound_manifest_fits:
  "manifest_encode E m = Returned bs \<Longrightarrow>
   bound_manifest E m l new_list_id = Returned \<lparr> bd_manifest = m, bd_new_complete_list = None \<rparr>"
  by (simp add: bound_manifest_def)

lemma rolled_list_total:
  assumes "current_files E m l = Returned files"
  shows "(\<exists>r. file_list_reference E (rolled_list m new_list_id files) = Some r) \<longleftrightarrow>
    50 + 109 * length files \<le> MAX_METADATA_OBJECT_BYTES"
  using assms file_list_reference_total [of E "rolled_list m new_list_id files"]
  by (simp add: current_files_Returned current_files_spec_def rolled_list_def)

lemma bound_manifest_errors:
  "bound_manifest E m l new_list_id = Failed () \<longleftrightarrow> manifest_encode E m = Failed () \<and> current_files E m l = Failed ()"
  "bound_manifest E m l new_list_id = Panicked \<longleftrightarrow> manifest_encode E m = Panicked \<or>
     manifest_encode E m = Failed () \<and> (current_files E m l = Panicked \<or>
       (\<exists>files. current_files E m l = Returned files \<and> MAX_METADATA_OBJECT_BYTES < 50 + 109 * length files))"
proof -
  have "(bound_manifest E m l new_list_id = Failed () \<longleftrightarrow> False) \<and>
      (bound_manifest E m l new_list_id = Panicked \<longleftrightarrow> MAX_METADATA_OBJECT_BYTES < 50 + 109 * length files)"
    if enc: "manifest_encode E m = Failed ()" and cf: "current_files E m l = Returned files" for files
  proof (cases "file_list_reference E (rolled_list m new_list_id files)")
    case None
    then have "bound_manifest E m l new_list_id = Panicked"
      using enc cf by (simp add: bound_manifest_def rolled_list_def)
    then show ?thesis using rolled_list_total [OF cf, of new_list_id] None by auto
  next
    case (Some r)
    then show ?thesis using bound_manifest_rolls(1) [OF enc cf Some] rolled_list_total [OF cf, of new_list_id] by auto
  qed
  note oversized = this
  show "bound_manifest E m l new_list_id = Failed () \<longleftrightarrow> manifest_encode E m = Failed () \<and> current_files E m l = Failed ()"
    "bound_manifest E m l new_list_id = Panicked \<longleftrightarrow> manifest_encode E m = Panicked \<or>
       manifest_encode E m = Failed () \<and> (current_files E m l = Panicked \<or>
         (\<exists>files. current_files E m l = Returned files \<and> MAX_METADATA_OBJECT_BYTES < 50 + 109 * length files))"
    using oversized by (cases "manifest_encode E m"; cases "current_files E m l"; simp add: bound_manifest_def)+
qed

lemma bound_manifest_returns:
  assumes "current_files E m l = Returned files" "manifest_encode E m \<noteq> Panicked"
    and "manifest_encode E m = Failed () \<longrightarrow> 50 + 109 * length files \<le> MAX_METADATA_OBJECT_BYTES"
  shows "\<exists>b. bound_manifest E m l new_list_id = Returned b \<and>
    current_files E (bd_manifest b) (case bd_new_complete_list b of None \<Rightarrow> l | Some l' \<Rightarrow> Some l') = Returned files \<and>
    (\<exists>bs. manifest_encode E (bd_manifest b) = Returned bs \<and> length bs \<le> MAX_MANIFEST_BYTES) \<and>
    (manifest_encode E m \<noteq> Failed () \<longrightarrow> b = \<lparr> bd_manifest = m, bd_new_complete_list = None \<rparr>) \<and>
    (manifest_encode E m = Failed () \<longrightarrow>
      bd_new_complete_list b = Some (rolled_list m new_list_id files) \<and>
      bd_manifest b = m\<lparr> mf_complete_list := file_list_reference E (rolled_list m new_list_id files),
        mf_added := [], mf_removed := [] \<rparr>)"
proof (cases "manifest_encode E m")
  case (Returned bs)
  then have "length bs \<le> MAX_MANIFEST_BYTES" by (simp add: manifest_encode_Returned)
  then show ?thesis using assms(1) bound_manifest_fits [OF Returned] Returned by simp
next
  case (Failed u)
  then have enc: "manifest_encode E m = Failed ()" by simp
  obtain r where r: "file_list_reference E (rolled_list m new_list_id files) = Some r"
    using rolled_list_total [OF assms(1), of new_list_id] assms(3) enc by auto
  obtain bs where "manifest_encode E (m\<lparr> mf_complete_list := Some r, mf_added := [], mf_removed := [] \<rparr>) = Returned bs"
    "length bs < 300"
    using manifest_encode_reset [OF assms(2), of r] by blast
  then show ?thesis using bound_manifest_rolls [OF enc assms(1) r] r enc by (simp add: MAX_MANIFEST_BYTES_def)
next
  case Panicked
  then show ?thesis using assms(2) by simp
qed


section \<open>Reading back a published manifest\<close>

text \<open>
  C25: A published archive reads back: following the pointer of an encoded manifest, with the bytes
  of the file list it references, if any, yields that manifest, that list and its current files.
\<close>

theorem closure_reads_back:
  assumes "validate_page_size (env_page_size E)" "manifest_encode E m = Returned bs" "manifest_fields_ok E m"
    and "current_files E m l = Returned files"
    and "\<forall>l'. l = Some l' \<longrightarrow> fl_volume l' = mf_volume m \<and> list_all (object_ref_valid E) (fl_objects l')"
  shows "closure_decode E (mf_volume m) (manifest_pointer E m bs) bs
      (case l of None \<Rightarrow> None | Some l' \<Rightarrow> file_list_encode E l') =
    Returned \<lparr> mc_manifest = m, mc_complete_list = l, mc_files = files \<rparr>"
proof -
  have ps: "fits_u32 (env_page_size E)" using assms(1) by (simp add: validate_page_size_def)
  have dec: "manifest_decode E (mf_volume m) bs = Some m"
    using assms(2,3) by (simp add: manifest_decode_iff [OF ps])
  show ?thesis
  proof (cases l)
    case None
    then have "mf_complete_list m = None" using current_files_ReturnedD(3) [OF assms(4)] by simp
    then show ?thesis using dec assms(4) None by (simp add: closure_decode_def manifest_pointer_def)
  next
    case (Some l')
    then obtain r where r: "file_list_reference E l' = Some r" "mf_complete_list m = Some r"
      using current_files_ReturnedD(3) [OF assms(4)] by auto
    then obtain lbs where lbs: "file_list_encode E l' = Some lbs" by (auto simp: file_list_reference_def elim!: bind_SomeE)
    have "file_list_decode E r (mf_volume m) lbs = Some l'"
      using lbs r(1) assms(5) Some by (simp add: file_list_decode_iff)
    then show ?thesis using dec assms(4) Some lbs r(2)
      by (simp add: closure_decode_def manifest_pointer_def of_option_def)
  qed
qed

section \<open>A concrete manifest\<close>

definition demo_manifest :: manifest where
  "demo_manifest = \<lparr> mf_volume = 7, mf_writer_fence = 2, mf_journal_seq = 4, mf_archive_seq = 4,
     mf_capture_seq = 4, mf_sync_covered_through = 3, mf_recovery_kind = RK_Whole, mf_checkpoint_epoch = 1,
     mf_config = \<lparr> vc_kind = VK_Data, vc_pages = 64 \<rparr>, mf_vmstate_logical_length = 0, mf_base = None,
     mf_complete_list = None, mf_post_state_checksum = 3, mf_metadata_checksum = 0,
     mf_added = [demo_ref 1 2 9], mf_removed = [] \<rparr>"

lemma demo_single_ref_accepted: "validate_object_refs demo_env [demo_ref 1 2 9] = Some ()"
  by (simp add: validate_object_refs_def validate_objects_def demo_ref_def identity_volume_def batch_key_def new_batch_def
      batch_key_less_def identity_rank_def batch_complete_def bm_values_def range_events_def bump_eq event_at_def
      usize_checked_add_def usize_max_def MAX_OVERLAPPING_FILES_def)

lemma demo_manifest_files: "current_files demo_env demo_manifest None = Returned [demo_ref 1 2 9]"
proof -
  have "validate_state_chain demo_manifest [demo_ref 1 2 9] = Some ()"
    by (simp add: validate_state_chain_def validate_file_state_chain_def demo_ref_def demo_manifest_def bm_values_def
        file_batch_def file_state_def)
  then show ?thesis
    by (simp add: current_files_def files_after_def of_option_def demo_manifest_def bm_collect_def bm_values_def
        demo_single_ref_accepted)
qed

lemma demo_manifest_encodes: "\<exists>bs. manifest_encode demo_env demo_manifest = Returned bs"
proof -
  have "validate_manifest_shape demo_env demo_manifest = Some ()"
    by (simp add: validate_manifest_shape_def demo_manifest_def demo_single_ref_accepted)
  moreover have "fits_u32 (env_page_size demo_env)" using demo_env_page_size by (simp add: validate_page_size_def)
  moreover have "length (enc_manifest_payload demo_env demo_manifest) < 300"
    by (simp add: enc_manifest_payload_def enc_manifest_prefix_def enc_config_def enc_base_ref_def enc_list_ref_def
        demo_manifest_def enc_many_def)
  ultimately show ?thesis
    by (simp add: manifest_encode_Returned frame_shape MAX_MANIFEST_BYTES_def fits_u32_def demo_manifest_def)
qed

lemma demo_manifest_fields: "manifest_fields_ok demo_env demo_manifest"
  using demo_refs_valid by (simp add: manifest_fields_ok_def demo_manifest_def)

theorem archive_metadata_canonical_witness:
  "\<exists>bs. manifest_encode demo_env demo_manifest = Returned bs \<and> manifest_decode demo_env 7 bs = Some demo_manifest"
proof -
  obtain bs where bs: "manifest_encode demo_env demo_manifest = Returned bs" using demo_manifest_encodes by blast
  then have "manifest_decode demo_env 7 bs = Some demo_manifest"
    using archive_metadata_canonical [OF demo_env_page_size, of 7 bs demo_manifest] demo_manifest_fields
    by (simp add: demo_manifest_def)
  with bs show ?thesis by blast
qed

text \<open>A manifest of single-block files, so many that they do not fit in 256 KiB.\<close>

definition single_block_refs :: "nat \<Rightarrow> object_ref list" where
  "single_block_refs n = map (\<lambda>i. demo_ref (of_nat i) (of_nat i) (of_nat i)) [0..<n]"

definition large_manifest :: manifest where
  "large_manifest = demo_manifest\<lparr> mf_added := single_block_refs 2600 \<rparr>"

lemma demo_ref_sel [simp]:
  "or_identity (demo_ref i a b) = identity_volume 7 2 i" "or_batch_id (demo_ref i a b) = i"
  "or_chunk_index (demo_ref i a b) = 0" "or_chunk_count (demo_ref i a b) = 1"
  "or_first_key (demo_ref i a b) = \<lparr> bk_space = BS_Data, bk_block = a \<rparr>"
  "or_last_key (demo_ref i a b) = \<lparr> bk_space = BS_Data, bk_block = b \<rparr>"
  "file_batch (demo_ref i a b) = (1, i)" "file_state (demo_ref i a b) = (3, 3)"
  by (simp_all add: demo_ref_def file_batch_def file_state_def)

lemma identity_volume_simps [simp]:
  "identity_volume v f a = identity_volume v f b \<longleftrightarrow> a = b"
  "identity_less (identity_volume v f a) (identity_volume v f b) \<longleftrightarrow> a < b"
  by (simp_all add: identity_volume_def identity_less_def identity_rank_def)

lemma small_u64: "i < 2600 \<Longrightarrow> j < 2600 \<Longrightarrow> (of_nat i :: u64) < of_nat j \<longleftrightarrow> i < j"
  "i < 2600 \<Longrightarrow> j < 2600 \<Longrightarrow> (of_nat i :: u64) = of_nat j \<longleftrightarrow> i = j"
  "i < 2600 \<Longrightarrow> j < 2600 \<Longrightarrow> (of_nat i :: u32) = of_nat j \<longleftrightarrow> i = j"
  by (simp_all add: word_less_nat_alt unat_of_nat take_bit_nat_def word_unat_eq_iff)

lemma single_block_refs_valid: "\<forall>r \<in> set (single_block_refs n). object_ref_valid demo_env r"
  by (auto simp: single_block_refs_def demo_ref_def object_ref_valid_def checked_add_def)

lemma single_block_refs_sorted: "n \<le> 2600 \<Longrightarrow> sorted_wrt identity_less (map or_identity (single_block_refs n))"
  by (auto simp: single_block_refs_def comp_def sorted_wrt_map sorted_wrt_iff_nth_less small_u64)

lemma single_block_cover: "n \<le> 2600 \<Longrightarrow> cover_count demo_env (single_block_refs n) k \<le> 1"
proof -
  assume n: "n \<le> 2600"
  have one: "covers demo_env (demo_ref i a a) k \<longleftrightarrow> k = \<lparr> bk_space = BS_Data, bk_block = a \<rparr>" for i a
    using block_order.total [of k "\<lparr> bk_space = BS_Data, bk_block = a \<rparr>" demo_env] block_order.irrefl
    by (auto simp: covers_def)
  let ?is = "filter (\<lambda>i. k = \<lparr> bk_space = BS_Data, bk_block = of_nat i \<rparr>) [0..<n]"
  have "cover_count demo_env (single_block_refs n) k = length ?is"
    by (simp add: cover_count_def single_block_refs_def filter_map comp_def one)
  also have "\<dots> = card (set ?is)" by (rule distinct_card [symmetric]) simp
  also have "\<dots> \<le> 1"
  proof (rule card_le_Suc0_iff_eq [THEN iffD2, unfolded One_nat_def [symmetric]])
    show "\<forall>i \<in> set ?is. \<forall>j \<in> set ?is. i = j" using n by (auto simp: small_u64)
  qed simp
  finally show ?thesis .
qed

lemma single_block_refs_accepted: "n \<le> 2600 \<Longrightarrow> validate_object_refs demo_env (single_block_refs n) = Some ()"
proof -
  assume n: "n \<le> 2600"
  have "length (single_block_refs n) \<le> usize_max" using n by (simp add: single_block_refs_def usize_max_def)
  moreover have "refs_ok demo_env (single_block_refs n) (Some MAX_OVERLAPPING_FILES)"
    unfolding refs_ok_def
  proof (intro conjI)
    show "sorted_wrt chunks_compatible (single_block_refs n)"
      using n by (auto simp: single_block_refs_def sorted_wrt_map sorted_wrt_iff_nth_less chunks_compatible_def
          batch_key_def small_u64)
    show "\<forall>m k. Some MAX_OVERLAPPING_FILES = Some m \<longrightarrow> cover_count demo_env (single_block_refs n) k \<le> m"
      by (auto simp: MAX_OVERLAPPING_FILES_def intro: order_trans [OF single_block_cover [OF n]])
  qed (auto simp: single_block_refs_def)
  ultimately show ?thesis
    using validate_objects_unfold [OF single_block_refs_valid] by (simp add: validate_object_refs_def)
qed

lemma single_block_chain:
  assumes "0 < n"
  shows "validate_file_state_chain base 3 (single_block_refs n) = Some ()"
proof -
  have st: "file_state f = (3, 3)" if "f \<in> set (single_block_refs n)" for f
    using that by (auto simp: single_block_refs_def)
  obtain out where out: "state_batches (single_block_refs n) [] = Some out"
    using state_batches_total [of "single_block_refs n" "[]"] st by auto
  have all: "\<forall>v \<in> set (bm_values out). v = (3, 3)"
  proof
    fix v assume "v \<in> set (bm_values out)"
    then obtain k where "(k, v) \<in> set out" by (auto simp: bm_values_def)
    then show "v = (3, 3)"
      using state_batches_of_files [OF out] st unfolding batches_of_files_def
      by (metis linear.get_iff_mem)
  qed
  have "map_of out (1, 0) = Some (3, 3)"
    using state_batches_of_files [OF out] assms
    by (auto simp: batches_of_files_def single_block_refs_def intro!: bexI [of _ 0])
  then have ne: "bm_values out \<noteq> []" by (auto simp: bm_values_def)
  have links: "chain_links vs" if "\<forall>v \<in> set vs. v = (3, 3)" for vs
    using that by (induction vs rule: chain_links.induct) simp_all
  have "chain_ok base 3 (bm_values out)"
    using ne links [OF all] all [rule_format, OF hd_in_set [OF ne]] all [rule_format, OF last_in_set [OF ne]]
    by (simp add: chain_ok_def)
  then show ?thesis using out by (auto simp: validate_file_state_chain_iff)
qed

lemma large_manifest_files: "current_files demo_env large_manifest None = Returned (single_block_refs 2600)"
proof -
  have "distinct (map or_identity (single_block_refs 2600))"
    using single_block_refs_sorted [of 2600] identity_order.sorted_distinct by blast
  moreover have "validate_state_chain large_manifest (single_block_refs 2600) = Some ()"
    by (simp add: validate_state_chain_def large_manifest_def demo_manifest_def single_block_chain)
  ultimately show ?thesis
    using single_block_refs_sorted [of 2600] single_block_refs_accepted [of 2600]
    by (simp add: current_files_Returned current_files_spec_def list_matches_def merge_ok_def remaining_files_def
        listed_objects_def large_manifest_def demo_manifest_def)
qed

text \<open>The set of identities that \<^verbatim>\<open>validate_manifest_shape\<close> collects.\<close>

lemma collect_identities:
  "sorted_wrt identity_less s \<Longrightarrow>
   sorted_wrt identity_less (foldl (\<lambda>s i. bs_insert identity_less i s) s is) \<and>
   set (foldl (\<lambda>s i. bs_insert identity_less i s) s is) = set s \<union> set is"
  by (induction "is" arbitrary: s) (simp_all add: identity_order.sorted_bs_insert identity_order.set_bs_insert)

lemma length_collect_identities: "length (foldl (\<lambda>s i. bs_insert identity_less i s) [] is) = card (set is)"
  using collect_identities [of "[]" "is"] distinct_card [OF identity_order.sorted_distinct] by fastforce

lemma large_manifest_oversized: "manifest_encode demo_env large_manifest = Failed ()"
proof -
  let ?rs = "single_block_refs 2600"
  have "distinct (map or_identity ?rs)"
    using single_block_refs_sorted [of 2600] identity_order.sorted_distinct by blast
  then have "length (foldl (\<lambda>s r. bs_insert identity_less (or_identity r) s) [] ?rs) = length ?rs"
    using length_collect_identities [of "map or_identity ?rs"] distinct_card by (fastforce simp: foldl_map)
  then have "validate_manifest_shape demo_env large_manifest = Some ()"
    by (simp add: validate_manifest_shape_def large_manifest_def demo_manifest_def single_block_refs_accepted Let_def
        list_ex_iff)
  moreover have "fits_u32 (env_page_size demo_env)" using demo_env_page_size by (simp add: validate_page_size_def)
  moreover have len: "length ?rs = 2600" by (simp add: single_block_refs_def)
  moreover have "enc_many enc_identity [] = []" by (simp add: enc_many_def)
  then have "length (enc_manifest_payload demo_env large_manifest) = 159 + 109 * 2600"
    by (simp add: enc_manifest_payload_def enc_manifest_prefix_def enc_config_def enc_base_ref_def enc_list_ref_def
        large_manifest_def demo_manifest_def len)
  ultimately show ?thesis
    by (simp add: manifest_encode_def seal_frame_def MAX_MANIFEST_BYTES_def fits_u32_def large_manifest_def demo_manifest_def)
qed


text \<open>A manifest with a complete list of two files, one of them removed, and one file added.\<close>

definition demo_list :: complete_file_list where
  "demo_list = \<lparr> fl_volume = 7, fl_writer_fence = 2, fl_list_id = 5, fl_objects = [demo_ref 1 2 9, demo_ref 2 5 12] \<rparr>"

definition demo_listed_manifest :: manifest where
  "demo_listed_manifest = demo_manifest\<lparr> mf_complete_list := file_list_reference demo_env demo_list,
     mf_added := [demo_ref 3 20 30], mf_removed := [identity_volume 7 2 1] \<rparr>"

lemma demo_list_reference: "\<exists>r. file_list_reference demo_env demo_list = Some r"
  by (subst file_list_reference_total) (simp_all add: demo_list_def demo_refs_accepted MAX_METADATA_OBJECT_BYTES_def)

lemma demo_listed_accepted: "validate_object_refs demo_env [demo_ref 2 5 12, demo_ref 3 20 30] = Some ()"
  by (simp add: validate_object_refs_def validate_objects_def demo_ref_def identity_volume_def batch_key_def new_batch_def
      batch_key_less_def identity_rank_def batch_complete_def bm_values_def range_events_def bump_eq event_at_def
      usize_checked_add_def usize_max_def MAX_OVERLAPPING_FILES_def)

lemma demo_listed_chain: "validate_state_chain demo_listed_manifest [demo_ref 2 5 12, demo_ref 3 20 30] = Some ()"
  by (simp add: validate_state_chain_def validate_file_state_chain_def demo_ref_def demo_listed_manifest_def
      demo_manifest_def bm_values_def file_batch_def file_state_def)

theorem current_files_exact_witness:
  "current_files demo_env demo_listed_manifest (Some demo_list) = Returned [demo_ref 2 5 12, demo_ref 3 20 30] \<and>
   current_files demo_env demo_listed_manifest None = Failed ()"
proof -
  obtain r where r: "file_list_reference demo_env demo_list = Some r" using demo_list_reference by blast
  have "{x \<in> set (fl_objects demo_list). or_identity x \<notin> set (mf_removed demo_listed_manifest)} = {demo_ref 2 5 12}"
    by (auto simp: demo_list_def demo_listed_manifest_def)
  moreover have "or_identity ` set (fl_objects demo_list) = {identity_volume 7 2 1, identity_volume 7 2 2}"
    by (simp add: demo_list_def)
  moreover have "mf_added demo_listed_manifest = [demo_ref 3 20 30]" "mf_removed demo_listed_manifest = [identity_volume 7 2 1]"
    "list_matches demo_env demo_listed_manifest (Some demo_list)" "\<not> list_matches demo_env demo_listed_manifest None"
    by (simp_all add: demo_listed_manifest_def list_matches_def r)
  ultimately show ?thesis
    using current_files_exact [of demo_env demo_listed_manifest "Some demo_list" "[demo_ref 2 5 12, demo_ref 3 20 30]"]
      current_files_exact [of demo_env demo_listed_manifest None] demo_listed_accepted demo_listed_chain
    by (simp add: listed_objects_def current_files_spec_def insert_commute)
qed


theorem closure_reads_back_witness:
  "\<exists>bs. closure_decode demo_env 7 (manifest_pointer demo_env demo_manifest bs) bs None =
     Returned \<lparr> mc_manifest = demo_manifest, mc_complete_list = None, mc_files = [demo_ref 1 2 9] \<rparr>"
proof -
  obtain bs where bs: "manifest_encode demo_env demo_manifest = Returned bs" using demo_manifest_encodes by blast
  from closure_reads_back [OF demo_env_page_size bs demo_manifest_fields demo_manifest_files]
  show ?thesis by (auto simp: demo_manifest_def)
qed

end
