(* ===== verification/Page_File.thy ===== *)
theory Page_File
  imports Manifest
begin

text \<open>
  Runtime page locations and capture batches over BLX objects
  (\<^verbatim>\<open>crates/core/src/page_file.rs\<close>).  The properties tie a capture to the fault path: the
  locations a finished batch reports are those a later scan finds, and a ranged read at a location
  yields the page, generation and bytes that were added.
\<close>

record page_file_loc =
  pl_base :: u64
  pl_fence :: u64
  pl_object :: object_id
  pl_offset :: u32
  pl_len :: u32

definition loc_identity :: "page_file_loc \<Rightarrow> volume_id \<Rightarrow> object_identity" where
  "loc_identity l volume = identity_volume volume (pl_fence l) (pl_object l)"

type_synonym page_file_entries = "(page_id \<times> gen_no \<times> page_file_loc) list"

record page_batch_builder =
  pb_kind :: volume_kind
  pb_volume :: volume_id
  pb_fence :: u64
  pb_builder :: batch_builder

definition page_batch_new_with_checksums ::
  "volume_kind \<Rightarrow> volume_id \<Rightarrow> u64 \<Rightarrow> object_id \<Rightarrow> u64 \<Rightarrow> u64 \<Rightarrow> u64 \<Rightarrow> page_batch_builder option" where
  "page_batch_new_with_checksums kind volume fence first_object sequence pre post =
     do { b \<leftarrow> builder_new_partitioned
              \<lparr> bm_namespace_kind = NS_Volume, bm_namespace_id = volume, bm_writer_fence = fence,
                bm_first_object_id = first_object, bm_min_seq = sequence, bm_max_seq = sequence,
                bm_batch_id = sequence, bm_pre_state_checksum = pre, bm_post_state_checksum = post \<rparr>;
          Some \<lparr> pb_kind = kind, pb_volume = volume, pb_fence = fence, pb_builder = b \<rparr> }"

definition page_batch_new :: "volume_id \<Rightarrow> u64 \<Rightarrow> object_id \<Rightarrow> page_batch_builder option" where
  "page_batch_new volume fence first_object =
     page_batch_new_with_checksums VK_Data volume fence first_object 0 0 0"

text \<open>
  \<^verbatim>\<open>try_add\<close> mutates the builder and then reports whether the object identifiers still fit; the
  result is the new builder and that report, \<open>None\<close> a failed assertion.
\<close>

definition try_add ::
  "env \<Rightarrow> page_id \<Rightarrow> gen_no \<Rightarrow> bytes \<Rightarrow> page_batch_builder \<Rightarrow> (page_batch_builder \<times> bool) option" where
  "try_add E page generation page_bytes p =
     do { guard_opt (length page_bytes = env_page_size E);
          guard_opt (fst page = pb_volume p);
          b \<leftarrow> add_data E (from_page (pb_kind p) page) generation page_bytes (pb_builder p);
          Some (p\<lparr> pb_builder := b \<rparr>, object_ids_fit E b) }"

definition page_add :: "env \<Rightarrow> page_id \<Rightarrow> gen_no \<Rightarrow> bytes \<Rightarrow> page_batch_builder \<Rightarrow> page_batch_builder option" where
  "page_add E page generation page_bytes p =
     do { (p, fits) \<leftarrow> try_add E page generation page_bytes p; guard_opt fits; Some p }"

definition try_add_tombstone ::
  "env \<Rightarrow> page_id \<Rightarrow> gen_no \<Rightarrow> page_batch_builder \<Rightarrow> (page_batch_builder \<times> bool) option" where
  "try_add_tombstone E page generation p =
     do { guard_opt (fst page = pb_volume p);
          let b = add_tombstone E (from_page (pb_kind p) page) generation (pb_builder p);
          Some (p\<lparr> pb_builder := b \<rparr>, object_ids_fit E b) }"

definition add_vmm_block :: "env \<Rightarrow> u32 \<Rightarrow> gen_no \<Rightarrow> bytes \<Rightarrow> page_batch_builder \<Rightarrow> page_batch_builder option" where
  "add_vmm_block E block generation bs p =
     do { guard_opt (length bs = env_page_size E);
          b \<leftarrow> add_data E \<lparr> bk_space = BS_Vmm, bk_block = block \<rparr> generation bs (pb_builder p);
          Some (p\<lparr> pb_builder := b \<rparr>) }"

definition add_vmm_tombstone :: "env \<Rightarrow> u32 \<Rightarrow> gen_no \<Rightarrow> page_batch_builder \<Rightarrow> page_batch_builder" where
  "add_vmm_tombstone E block generation p =
     p\<lparr> pb_builder := add_tombstone E \<lparr> bk_space = BS_Vmm, bk_block = block \<rparr> generation (pb_builder p) \<rparr>"

fun add_blocks :: "env \<Rightarrow> gen_no \<Rightarrow> (block_key \<times> bytes) list \<Rightarrow> batch_builder \<Rightarrow> batch_builder option" where
  "add_blocks E generation [] b = Some b"
| "add_blocks E generation ((key, padded) # bs) b =
     do { b \<leftarrow> add_data E key generation padded b; add_blocks E generation bs b }"

definition add_vmm_snapshot :: "env \<Rightarrow> gen_no \<Rightarrow> bytes \<Rightarrow> page_batch_builder \<Rightarrow> page_batch_builder option" where
  "add_vmm_snapshot E generation bs p =
     do { blocks \<leftarrow> vmm_snapshot_blocks E bs;
          b \<leftarrow> add_blocks E generation blocks (pb_builder p);
          Some (p\<lparr> pb_builder := b \<rparr>) }"

text \<open>The locations of an object's data pages, in footer order.\<close>

fun page_locations :: "volume_id \<Rightarrow> u64 \<Rightarrow> object_id \<Rightarrow> footer_entry list \<Rightarrow> page_file_entries" where
  "page_locations volume fence oid [] = []"
| "page_locations volume fence oid (f # fs) =
     (case (fe_kind f, to_page_id (fe_key f) volume) of
        (EK_Data, Some page) \<Rightarrow>
          (page, fe_generation f,
           \<lparr> pl_base = 0, pl_fence = fence, pl_object = oid, pl_offset = fe_offset f, pl_len = fe_length f \<rparr>)
          # page_locations volume fence oid fs
      | _ \<Rightarrow> page_locations volume fence oid fs)"

definition page_batch_finish ::
  "env \<Rightarrow> page_batch_builder \<Rightarrow> (object_id \<times> bytes \<times> page_file_entries) list option" where
  "page_batch_finish E p =
     do { objs \<leftarrow> builder_finish E (pb_builder p);
          Some (map (\<lambda>obj. let oid = bh_object_id (bo_header obj) in
                 (oid, bo_bytes obj, page_locations (pb_volume p) (pb_fence p) oid (bo_footer obj))) objs) }"

definition open_page_entry :: "env \<Rightarrow> volume_id \<Rightarrow> bytes \<Rightarrow> (page_id \<times> gen_no \<times> bytes) option" where
  "open_page_entry E volume bs =
     do { e \<leftarrow> open_entry E bs;
          case e of
            Data_Entry key generation raw \<Rightarrow>
              do { page \<leftarrow> to_page_id key volume; Some (page, generation, raw) }
          | Tombstone_Entry _ _ \<Rightarrow> None }"

text \<open>The filtering collector of \<^verbatim>\<open>scan_page_file\<close>; \<open>None\<close> is its decode error.\<close>

fun scan_locations :: "volume_id \<Rightarrow> u64 \<Rightarrow> object_id \<Rightarrow> footer_entry list \<Rightarrow> page_file_entries option" where
  "scan_locations volume fence oid [] = Some []"
| "scan_locations volume fence oid (f # fs) =
     (if fe_kind f \<noteq> EK_Data then scan_locations volume fence oid fs
      else case to_page_id (fe_key f) volume of
        Some page \<Rightarrow>
          do { rest \<leftarrow> scan_locations volume fence oid fs;
               Some ((page, fe_generation f,
                 \<lparr> pl_base = 0, pl_fence = fence, pl_object = oid, pl_offset = fe_offset f, pl_len = fe_length f \<rparr>)
                 # rest) }
      | None \<Rightarrow> if bk_space (fe_key f) = BS_Vmm then scan_locations volume fence oid fs else None)"

definition scan_page_file :: "env \<Rightarrow> bytes \<Rightarrow> (volume_id \<times> u64 \<times> object_id \<times> page_file_entries) option" where
  "scan_page_file E bs =
     do { (header, footer) \<leftarrow> scan_object E bs;
          guard_opt (bh_namespace_kind header = NS_Volume);
          let volume = bh_namespace_id header;
          let fence = bh_writer_fence header;
          let oid = bh_object_id header;
          entries \<leftarrow> scan_locations volume fence oid footer;
          Some (volume, fence, oid, entries) }"

section \<open>Locations\<close>

lemma to_page_id_None: "to_page_id k volume = None \<longleftrightarrow> bk_space k = BS_Vmm"
  by (simp add: to_page_id_def split: block_space.splits)

lemma scan_locations_total: "scan_locations volume fence oid fs = Some (page_locations volume fence oid fs)"
proof (induction fs)
  case (Cons f fs)
  then show ?case
    using to_page_id_None [of "fe_key f" volume]
    by (cases "fe_kind f"; cases "to_page_id (fe_key f) volume") auto
qed simp

lemma page_locations_iff:
  "(page, g, l) \<in> set (page_locations volume fence oid fs) \<longleftrightarrow>
   (\<exists>f \<in> set fs. fe_kind f = EK_Data \<and> to_page_id (fe_key f) volume = Some page \<and> g = fe_generation f \<and>
     l = \<lparr> pl_base = 0, pl_fence = fence, pl_object = oid, pl_offset = fe_offset f, pl_len = fe_length f \<rparr>)"
  by (induction fs) (auto split: entry_kind.splits option.splits)

text \<open>The batch's namespace is its volume and fence; capture objects are partitioned.\<close>

definition page_batch_ok :: "env \<Rightarrow> page_batch_builder \<Rightarrow> bool" where
  "page_batch_ok E p \<longleftrightarrow> builder_ok E (pb_builder p) \<and>
     bm_namespace_kind (bb_meta (pb_builder p)) = NS_Volume \<and>
     bm_namespace_id (bb_meta (pb_builder p)) = pb_volume p \<and> bm_writer_fence (bb_meta (pb_builder p)) = pb_fence p \<and>
     bb_split_at_file_partitions (pb_builder p)"

lemma builder_insert_meta [simp]:
  "bb_meta (builder_insert E e b) = bb_meta b"
  "bb_split_at_file_partitions (builder_insert E e b) = bb_split_at_file_partitions b"
  by (simp_all add: builder_insert_def)

lemma add_data_insert:
  "add_data E k g bs b = Some b' \<longleftrightarrow> length bs = env_page_size E \<and> b' = builder_insert E (Data_Entry k g bs) b"
  by (auto simp: add_data_def bind_eq_Some_conv)

lemma page_batch_new_ok:
  "page_batch_new_with_checksums kind volume fence first_object sequence pre post = Some p \<Longrightarrow> page_batch_ok E p"
  by (auto simp: page_batch_new_with_checksums_def page_batch_ok_def builder_new_partitioned_def builder_new_def
      builder_ok_def bm_values_def elim!: bind_SomeE)

lemma try_add_ok: "page_batch_ok E p \<Longrightarrow> try_add E page g bs p = Some (p', fits) \<Longrightarrow> page_batch_ok E p'"
  by (auto simp: try_add_def page_batch_ok_def add_data_insert entry_ok_def intro!: builder_insert_ok elim!: bind_SomeE)

lemma try_add_tombstone_ok:
  "page_batch_ok E p \<Longrightarrow> try_add_tombstone E page g p = Some (p', fits) \<Longrightarrow> page_batch_ok E p'"
  by (auto simp: try_add_tombstone_def page_batch_ok_def add_tombstone_def entry_ok_def Let_def
      intro!: builder_insert_ok elim!: bind_SomeE)

lemma add_vmm_ok:
  "page_batch_ok E p \<Longrightarrow> add_vmm_block E block g bs p = Some p' \<Longrightarrow> page_batch_ok E p'"
  "page_batch_ok E p \<Longrightarrow> page_batch_ok E (add_vmm_tombstone E block g p)"
  by (auto simp: add_vmm_block_def add_vmm_tombstone_def page_batch_ok_def add_data_insert add_tombstone_def
      entry_ok_def intro!: builder_insert_ok elim!: bind_SomeE)

section \<open>A finished capture\<close>

lemma scan_object_opens:
  assumes "scan_object E bs = Some (h, fs)" "f \<in> set fs"
  obtains e where "open_entry E (entry_bytes bs f) = Some e" "entry_key e = fe_key f"
    "entry_generation e = fe_generation f" "kind_of_entry e = fe_kind f"
proof -
  from assms(1) obtain off :: u32 and start where "scan_entries E bs (unat off) start fs = Some (unat off)"
    unfolding scan_object_def
    by (clarsimp simp: Let_def usize_checked_add_def split: if_splits elim!: bind_SomeE)
  from scan_entries_sound [OF this, THEN conjunct1] assms(2) that show ?thesis by blast
qed

lemma finished_object_header:
  assumes "builder_ok E b" "builder_finish E b = Some objs" "lz4_roundtrips E" "obj \<in> set objs"
  shows "scan_object E (bo_bytes obj) = Some (bo_header obj, bo_footer obj)"
    "bh_namespace_kind (bo_header obj) = bm_namespace_kind (bb_meta b)"
    "bh_namespace_id (bo_header obj) = bm_namespace_id (bb_meta b)"
    "bh_writer_fence (bo_header obj) = bm_writer_fence (bb_meta b)"
proof -
  let ?cs = "batch_chunks E (bb_split_at_file_partitions b) (bm_values (bb_entries b))"
  from assms(2,4) have n: "fits_u32 (length ?cs)"
    and enc: "encode_chunks E (bb_meta b) (of_nat (length ?cs)) 0 ?cs = Some objs"
    by (auto simp: builder_finish_def Let_def bind_eq_Some_conv split: if_splits)
  have len: "length objs = length ?cs"
    and objs: "\<forall>j < length ?cs. object_of_chunk E (bb_meta b) (of_nat (length ?cs)) j (?cs ! j) (objs ! j)"
    using encode_chunks_objects [OF enc] by simp_all
  obtain j where j: "j < length objs" "obj = objs ! j" using assms(4) by (auto simp: in_set_conv_nth)
  show "scan_object E (bo_bytes obj) = Some (bo_header obj, bo_footer obj)"
    unfolding j(2) by (rule finished_objects(3) [OF assms(1-3) refl len n objs j(1)])
  have "object_of_chunk E (bb_meta b) (of_nat (length ?cs)) j (?cs ! j) obj" using objs j len by simp
  then obtain oid ci cc c where "bo_header obj = object_header E (bb_meta b) oid ci cc c"
    unfolding object_of_chunk_def by (rule encode_object_shape)
  then show "bh_namespace_kind (bo_header obj) = bm_namespace_kind (bb_meta b)"
    "bh_namespace_id (bo_header obj) = bm_namespace_id (bb_meta b)"
    "bh_writer_fence (bo_header obj) = bm_writer_fence (bb_meta b)"
    by (simp_all add: object_header_def)
qed

lemma finished_entries:
  assumes "builder_ok E b" "builder_finish E b = Some objs" "lz4_roundtrips E"
  shows "e \<in> set (bm_values (bb_entries b)) \<longleftrightarrow>
    (\<exists>obj \<in> set objs. \<exists>f \<in> set (bo_footer obj). open_entry E (entry_bytes (bo_bytes obj) f) = Some e)"
proof -
  have "read_objects E objs = Some (bm_values (bb_entries b))" by (rule builder_finish_reads_back [OF assms])
  then obtain ess where ess: "map (\<lambda>obj. object_entries E (bo_bytes obj)) objs = map Some ess"
    and vals: "bm_values (bb_entries b) = concat ess"
    by (auto simp: read_objects_def those_Some_iff)
  have "length ess = length objs" using arg_cong [OF ess, of length] by simp
  have each: "map (\<lambda>f. open_entry E (entry_bytes (bo_bytes (objs ! j)) f)) (bo_footer (objs ! j)) = map Some (ess ! j)"
    if j: "j < length objs" for j
  proof -
    have "object_entries E (bo_bytes (objs ! j)) = Some (ess ! j)"
      using arg_cong [OF ess, of "\<lambda>xs. xs ! j"] j \<open>length ess = length objs\<close> by simp
    then show ?thesis
      using finished_object_header(1) [OF assms nth_mem [OF j]] by (simp add: object_entries_def those_Some_iff)
  qed
  have mem: "e \<in> set (ess ! j) \<longleftrightarrow>
      (\<exists>f \<in> set (bo_footer (objs ! j)). open_entry E (entry_bytes (bo_bytes (objs ! j)) f) = Some e)"
    if "j < length objs" for j
  proof -
    have "e \<in> set (ess ! j) \<longleftrightarrow> Some e \<in> set (map Some (ess ! j))" by auto
    then show ?thesis unfolding each [OF that, symmetric] by (simp add: image_iff eq_commute)
  qed
  have "e \<in> set (bm_values (bb_entries b)) \<longleftrightarrow> (\<exists>j < length objs. e \<in> set (ess ! j))"
    using \<open>length ess = length objs\<close> by (simp add: vals) (metis in_set_conv_nth)
  then show ?thesis using mem by (metis in_set_conv_nth)
qed

text \<open>The ranged read of the fault path.\<close>

definition read_location :: "bytes \<Rightarrow> page_file_loc \<Rightarrow> bytes" where
  "read_location bs l = byte_slice (unat (pl_offset l)) (unat (pl_offset l) + unat (pl_len l)) bs"

definition page_readable ::
  "env \<Rightarrow> volume_id \<Rightarrow> (object_id \<times> bytes \<times> page_file_entries) list \<Rightarrow> page_id \<Rightarrow> gen_no \<Rightarrow> bytes \<Rightarrow> bool" where
  "page_readable E volume files page g raw \<longleftrightarrow>
     (\<exists>(oid, bs, locs) \<in> set files. \<exists>(page', g', l) \<in> set locs. page' = page \<and> g' = g \<and> pl_object l = oid \<and>
        open_page_entry E volume (read_location bs l) = Some (page, g, raw))"

lemma open_page_entry_iff:
  "open_page_entry E volume bs = Some (page, g, raw) \<longleftrightarrow>
   (\<exists>k. open_entry E bs = Some (Data_Entry k g raw) \<and> to_page_id k volume = Some page)"
proof (cases "open_entry E bs")
  case (Some e)
  then show ?thesis by (cases e; cases page) (auto simp: open_page_entry_def bind_eq_Some_conv)
qed (simp add: open_page_entry_def)

lemma scan_page_file_finished:
  assumes "page_batch_ok E p" "builder_finish E (pb_builder p) = Some objs" "lz4_roundtrips E" "obj \<in> set objs"
    and oid: "oid = bh_object_id (bo_header obj)"
  shows "scan_page_file E (bo_bytes obj) =
    Some (pb_volume p, pb_fence p, oid, page_locations (pb_volume p) (pb_fence p) oid (bo_footer obj))"
  using assms(1) finished_object_header [OF _ assms(2-4)]
  by (simp add: page_batch_ok_def scan_page_file_def scan_locations_total Let_def oid)

text \<open>
  C26: A capture reads back.  Every object a finished capture batch reports scans to the batch's
  volume, fence and object identifier with exactly the reported page locations, and the pages that
  a ranged read at some reported location returns are exactly the data pages of the batch, with
  their generations and bytes.
\<close>

theorem finished_capture_reads_back:
  assumes "page_batch_ok E p" "page_batch_finish E p = Some files" "lz4_roundtrips E"
  shows "(\<forall>(oid, bs, locs) \<in> set files. scan_page_file E bs = Some (pb_volume p, pb_fence p, oid, locs)) \<and>
    (\<forall>page g raw. page_readable E (pb_volume p) files page g raw \<longleftrightarrow>
      (\<exists>k. to_page_id k (pb_volume p) = Some page \<and>
        Data_Entry k g raw \<in> set (bm_values (bb_entries (pb_builder p)))))"
proof -
  let ?loc = "\<lambda>obj. page_locations (pb_volume p) (pb_fence p) (bh_object_id (bo_header obj)) (bo_footer obj)"
  have ok: "builder_ok E (pb_builder p)" using assms(1) by (simp add: page_batch_ok_def)
  from assms(2) obtain objs where fin: "builder_finish E (pb_builder p) = Some objs"
    and files: "files = map (\<lambda>obj. (bh_object_id (bo_header obj), bo_bytes obj, ?loc obj)) objs"
    by (auto simp: page_batch_finish_def bind_eq_Some_conv Let_def)
  have one: "page_readable E (pb_volume p) files page g raw \<longleftrightarrow>
      (\<exists>k. to_page_id k (pb_volume p) = Some page \<and>
        Data_Entry k g raw \<in> set (bm_values (bb_entries (pb_builder p))))" for page g raw
  proof
    assume "page_readable E (pb_volume p) files page g raw"
    then obtain obj f where of: "obj \<in> set objs" "f \<in> set (bo_footer obj)"
      and "open_page_entry E (pb_volume p) (entry_bytes (bo_bytes obj) f) = Some (page, g, raw)"
      by (auto simp: page_readable_def files page_locations_iff read_location_def entry_bytes_def)
    then obtain k where "open_entry E (entry_bytes (bo_bytes obj) f) = Some (Data_Entry k g raw)"
      "to_page_id k (pb_volume p) = Some page"
      by (auto simp: open_page_entry_iff)
    with of finished_entries [OF ok fin assms(3)] show "\<exists>k. to_page_id k (pb_volume p) = Some page \<and>
        Data_Entry k g raw \<in> set (bm_values (bb_entries (pb_builder p)))" by blast
  next
    assume "\<exists>k. to_page_id k (pb_volume p) = Some page \<and>
        Data_Entry k g raw \<in> set (bm_values (bb_entries (pb_builder p)))"
    then obtain k obj f where k: "to_page_id k (pb_volume p) = Some page"
      and of: "obj \<in> set objs" "f \<in> set (bo_footer obj)"
      and op: "open_entry E (entry_bytes (bo_bytes obj) f) = Some (Data_Entry k g raw)"
      using finished_entries [OF ok fin assms(3)] by blast
    obtain e where "open_entry E (entry_bytes (bo_bytes obj) f) = Some e" "entry_key e = fe_key f"
      "entry_generation e = fe_generation f" "kind_of_entry e = fe_kind f"
      by (rule scan_object_opens [OF finished_object_header(1) [OF ok fin assms(3) of(1)] of(2)])
    with op have f: "fe_key f = k" "fe_generation f = g" "fe_kind f = EK_Data" by auto
    let ?l = "\<lparr> pl_base = 0, pl_fence = pb_fence p, pl_object = bh_object_id (bo_header obj),
      pl_offset = fe_offset f, pl_len = fe_length f \<rparr>"
    have mem: "(page, g, ?l) \<in> set (?loc obj)" using of(2) f k by (auto simp: page_locations_iff)
    have "open_page_entry E (pb_volume p) (read_location (bo_bytes obj) ?l) = Some (page, g, raw)"
      using op k by (simp add: open_page_entry_iff read_location_def entry_bytes_def)
    with mem of(1) show "page_readable E (pb_volume p) files page g raw"
      unfolding page_readable_def files by (auto intro!: bexI [OF _ of(1)] bexI [OF _ mem])
  qed
  show ?thesis using scan_page_file_finished [OF assms(1) fin assms(3)] one by (auto simp: files)
qed

definition demo_page :: bytes where
  "demo_page = replicate (env_page_size demo_env) 0"

definition demo_page_batch :: page_batch_builder where
  "demo_page_batch = \<lparr> pb_kind = VK_Data, pb_volume = 7, pb_fence = 2,
     pb_builder = \<lparr> bb_meta = demo_meta,
       bb_entries = [(from_page VK_Data (7, 5), Data_Entry (from_page VK_Data (7, 5)) 9 demo_page)],
       bb_split_at_file_partitions = True \<rparr> \<rparr>"

lemma demo_page_batch_facts:
  "page_batch_ok demo_env demo_page_batch" "object_ids_fit demo_env (pb_builder demo_page_batch)"
  "fits_u32 (length (bb_entries (pb_builder demo_page_batch)))"
  by (simp_all add: page_batch_ok_def builder_ok_def bm_values_def entry_map_ok_def bm_ordered_def entry_ok_def
      demo_page_batch_def demo_meta_def demo_page_def fits_u32_def object_ids_fit_def checked_add_def)

theorem finished_capture_reads_back_witness:
  "\<exists>files. page_batch_finish demo_env demo_page_batch = Some files \<and>
     page_readable demo_env 7 files (7, 5) 9 demo_page"
proof -
  let ?b = "pb_builder demo_page_batch"
  have "builder_ok demo_env ?b" using demo_page_batch_facts(1) by (simp add: page_batch_ok_def)
  moreover have "fits_u32 (env_page_size demo_env)" using demo_env_page_size by (simp add: validate_page_size_def)
  ultimately obtain objs where "builder_finish demo_env ?b = Some objs"
    using builder_finish_total [OF _ demo_env_lz4(2) _ demo_builder_facts(2) demo_page_batch_facts(2,3) refl] by blast
  then obtain files where files: "page_batch_finish demo_env demo_page_batch = Some files"
    by (simp add: page_batch_finish_def)
  have "to_page_id (from_page VK_Data (7, 5)) 7 = Some (7, 5)" by (simp add: to_page_id_def from_page_def)
  moreover have "Data_Entry (from_page VK_Data (7, 5)) 9 demo_page \<in> set (bm_values (bb_entries ?b))"
    "pb_volume demo_page_batch = 7"
    by (simp_all add: demo_page_batch_def bm_values_def)
  ultimately show ?thesis
    using files finished_capture_reads_back [OF demo_page_batch_facts(1) files demo_env_lz4(1)] by metis
qed

end
