(* ===== verification/Journal.thy ===== *)
theory Journal
  imports Page_File
begin

text \<open>
  Journal records (\<^verbatim>\<open>crates/core/src/journal.rs\<close>): one framed record per consistency point, and the
  migration form that appends the page lookup index, the block checksums and the archive closure.
  Decoding a record is shown to be the inverse of encoding it, and the migration form to carry the
  whole state across.

  \<^verbatim>\<open>encode\<close> asserts its argument; \<open>None\<close> is the panic.
\<close>

definition MAGIC_JOURNAL :: u32 where
  "MAGIC_JOURNAL = magic ''BJR1''"

definition MAGIC_MIGRATION_INDEX :: u32 where
  "MAGIC_MIGRATION_INDEX = magic ''BMIX''"

section \<open>Data\<close>

definition config_memory :: "u32 \<Rightarrow> volume_config" where
  "config_memory pages = \<lparr> vc_kind = VK_Memory, vc_pages = pages \<rparr>"

definition config_data :: "u32 \<Rightarrow> volume_config" where
  "config_data pages = \<lparr> vc_kind = VK_Data, vc_pages = pages \<rparr>"

definition config_contains :: "volume_config \<Rightarrow> page_id \<Rightarrow> bool" where
  "config_contains c page \<longleftrightarrow> snd page < vc_pages c"

definition is_memory :: "volume_config \<Rightarrow> bool" where
  "is_memory c \<longleftrightarrow> vc_kind c = VK_Memory"

definition config_valid :: "volume_config \<Rightarrow> bool" where
  "config_valid c \<longleftrightarrow> vc_pages c > 0"

datatype record_kind =
    Commit
  | Checkpoint (ck_epoch: epoch_id) (ck_vmstate: u64) (ck_vmstate_logical_length: u64)

record migration_source =
  ms_host :: host_id
  ms_offer_fence :: "u64 option"

record commit_info =
  ci_writer_fence :: u64
  ci_seq :: journal_seq
  ci_sync_covered_through :: u64

record journal_record =
  jr_config :: volume_config
  jr_seq :: journal_seq
  jr_fence :: u64
  jr_kind :: record_kind
  jr_capture_seq :: u64
  jr_sync_covered_through :: u64
  jr_post_state_checksum :: u64
  jr_files :: "object_ref list"
  jr_runtime_page_index :: "(page_id, gen_no \<times> page_file_loc) btree_map"
  jr_migrated_from :: "migration_source option"

type_synonym migration_block_checksums = "(block_key, gen_no \<times> u64) btree_map"

record migration_archive_closure =
  ma_objects :: "object_ref list"
  ma_base :: "base_ref option"

definition journal_commit_info :: "journal_record \<Rightarrow> commit_info" where
  "journal_commit_info r =
     \<lparr> ci_writer_fence = jr_fence r, ci_seq = jr_seq r, ci_sync_covered_through = jr_sync_covered_through r \<rparr>"

text \<open>The derived order on \<^verbatim>\<open>ReplicaCommitInfo\<close> compares the fields in declaration order.\<close>

definition commit_rank :: "commit_info \<Rightarrow> u64 \<times> journal_seq \<times> u64" where
  "commit_rank c = (ci_writer_fence c, ci_seq c, ci_sync_covered_through c)"

definition commit_less :: "commit_info \<Rightarrow> commit_info \<Rightarrow> bool" where
  "commit_less a b \<longleftrightarrow> commit_rank a < commit_rank b"

section \<open>The durable record\<close>

definition is_checkpoint :: "record_kind \<Rightarrow> bool" where
  "is_checkpoint k = (case k of Commit \<Rightarrow> False | Checkpoint _ _ _ \<Rightarrow> True)"

definition enc_record_kind :: "record_kind \<Rightarrow> bytes" where
  "enc_record_kind k =
     (case k of
        Commit \<Rightarrow> enc_u8 0 @ enc_u64 0 @ enc_u64 0 @ enc_u64 0
      | Checkpoint epoch vmstate len \<Rightarrow> enc_u8 1 @ enc_u64 epoch @ enc_u64 vmstate @ enc_u64 len)"

definition dec_record_kind :: "bytes \<Rightarrow> (record_kind \<times> bytes) option" where
  "dec_record_kind d =
     do { (tag, d) \<leftarrow> dec_u8 d;
          (epoch, d) \<leftarrow> dec_u64 d;
          (vmstate, d) \<leftarrow> dec_u64 d;
          (len, d) \<leftarrow> dec_u64 d;
          if tag = 0 \<and> epoch = 0 \<and> vmstate = 0 \<and> len = 0 then Some (Commit, d)
          else if tag = 1 then Some (Checkpoint epoch vmstate len, d)
          else None }"

definition enc_migrated_from :: "migration_source option \<Rightarrow> bytes" where
  "enc_migrated_from v =
     (case v of None \<Rightarrow> enc_u8 0 | Some source \<Rightarrow> enc_u8 1 @ enc_u32 (ms_host source)) @
     (case Option.bind v ms_offer_fence of
        None \<Rightarrow> enc_u8 0 @ enc_u64 0
      | Some fence \<Rightarrow> enc_u8 1 @ enc_u64 fence)"

definition dec_migrated_from :: "bytes \<Rightarrow> (migration_source option \<times> bytes) option" where
  "dec_migrated_from d =
     do { (t, d) \<leftarrow> dec_u8 d;
          (migrated_host, d) \<leftarrow>
            (if t = 0 then Some (None, d)
             else if t = 1 then do { (h, d) \<leftarrow> dec_u32 d; Some (Some h, d) }
             else None);
          (present, d) \<leftarrow> dec_u8 d;
          (fence, d) \<leftarrow> dec_u64 d;
          offered \<leftarrow> (if present = 0 \<and> fence = 0 then Some None
                     else if present = 1 then Some (Some fence) else None);
          guard_opt (\<not> (migrated_host = None \<and> offered \<noteq> None));
          Some (map_option (\<lambda>host. \<lparr> ms_host = host, ms_offer_fence = offered \<rparr>) migrated_host, d) }"

definition enc_journal_payload :: "env \<Rightarrow> volume_id \<Rightarrow> journal_record \<Rightarrow> bytes" where
  "enc_journal_payload E volume r =
     enc_u16 8 @ enc_u32 (of_nat (env_page_size E)) @ enc_u64 volume @ enc_u64 (jr_seq r) @ enc_u64 (jr_fence r) @
     enc_record_kind (jr_kind r) @ enc_u64 (jr_capture_seq r) @ enc_u64 (jr_sync_covered_through r) @
     enc_u64 (jr_post_state_checksum r) @ enc_migrated_from (jr_migrated_from r) @
     enc_u8 (volume_kind_tag (vc_kind (jr_config r))) @ enc_u32 (vc_pages (jr_config r)) @ enc_u8 2 @
     enc_u32 (of_nat (length (jr_files r))) @ enc_many enc_object_ref (jr_files r)"

definition journal_encode :: "env \<Rightarrow> volume_id \<Rightarrow> journal_record \<Rightarrow> bytes option" where
  "journal_encode E volume r =
     do { guard_opt (config_valid (jr_config r));
          guard_opt (\<not> is_checkpoint (jr_kind r) \<or> is_memory (jr_config r));
          guard_opt (fits_u32 (env_page_size E));
          guard_opt (fits_u32 (length (jr_files r)));
          seal_frame E MAGIC_JOURNAL (enc_journal_payload E volume r) }"

definition journal_decode :: "env \<Rightarrow> volume_id \<Rightarrow> bytes \<Rightarrow> journal_record option" where
  "journal_decode E volume bs =
     do { payload \<leftarrow> open_frame E MAGIC_JOURNAL bs;
          (version, d) \<leftarrow> dec_u16 payload;
          guard_opt (version = 8);
          (ps, d) \<leftarrow> dec_u32 d;
          guard_opt (ps = of_nat (env_page_size E));
          (v, d) \<leftarrow> dec_u64 d;
          guard_opt (v = volume);
          (seq, d) \<leftarrow> dec_u64 d;
          (fence, d) \<leftarrow> dec_u64 d;
          (kind, d) \<leftarrow> dec_record_kind d;
          (capture_seq, d) \<leftarrow> dec_u64 d;
          (sync_covered, d) \<leftarrow> dec_u64 d;
          (post, d) \<leftarrow> dec_u64 d;
          (migrated_from, d) \<leftarrow> dec_migrated_from d;
          (t, d) \<leftarrow> dec_u8 d;
          volume_kind \<leftarrow> volume_kind_decode t;
          (pages, d) \<leftarrow> dec_u32 d;
          let config = \<lparr> vc_kind = volume_kind, vc_pages = pages \<rparr>;
          (durability_tag, d) \<leftarrow> dec_u8 d;
          guard_opt (durability_tag = 2);
          guard_opt (config_valid config);
          guard_opt (\<not> (is_checkpoint kind \<and> \<not> is_memory config));
          (file_count, d) \<leftarrow> dec_u32 d;
          (files, d) \<leftarrow> dec_many (dec_object_ref E) (unat file_count) d;
          dec_finish d;
          validate_journal_object_refs E files;
          Some \<lparr> jr_config = config, jr_seq = seq, jr_fence = fence, jr_kind = kind, jr_capture_seq = capture_seq,
                 jr_sync_covered_through = sync_covered, jr_post_state_checksum = post, jr_files = files,
                 jr_runtime_page_index = [], jr_migrated_from = migrated_from \<rparr> }"

section \<open>The migration form\<close>

definition enc_loc :: "page_file_loc \<Rightarrow> bytes" where
  "enc_loc l = enc_u64 (pl_base l) @ enc_u64 (pl_fence l) @ enc_u64 (pl_object l) @ enc_u32 (pl_offset l) @ enc_u32 (pl_len l)"

definition dec_loc :: "bytes \<Rightarrow> (page_file_loc \<times> bytes) option" where
  "dec_loc d =
     do { (b, d) \<leftarrow> dec_u64 d;
          (f, d) \<leftarrow> dec_u64 d;
          (ob, d) \<leftarrow> dec_u64 d;
          (off, d) \<leftarrow> dec_u32 d;
          (len, d) \<leftarrow> dec_u32 d;
          Some (\<lparr> pl_base = b, pl_fence = f, pl_object = ob, pl_offset = off, pl_len = len \<rparr>, d) }"

definition enc_page_row :: "page_id \<times> gen_no \<times> page_file_loc \<Rightarrow> bytes" where
  "enc_page_row x = (case x of (page, generation, loc) \<Rightarrow> enc_u32 (snd page) @ enc_u64 generation @ enc_loc loc)"

definition enc_checksum_row :: "block_key \<times> gen_no \<times> u64 \<Rightarrow> bytes" where
  "enc_checksum_row x = (case x of (key, generation, checksum) \<Rightarrow>
     enc_u8 (space_tag (bk_space key)) @ enc_u32 (bk_block key) @ enc_u64 generation @ enc_u64 checksum)"

definition enc_migration_archive :: "migration_archive_closure \<Rightarrow> bytes" where
  "enc_migration_archive a =
     enc_u32 (of_nat (length (ma_objects a))) @ enc_many enc_object_ref (ma_objects a) @ enc_base_ref (ma_base a)"

definition enc_migration_index :: "journal_record \<Rightarrow> migration_block_checksums \<Rightarrow> migration_archive_closure \<Rightarrow> bytes" where
  "enc_migration_index r checksums archive =
     enc_u32 (of_nat (length (jr_runtime_page_index r))) @ enc_many enc_page_row (jr_runtime_page_index r) @
     enc_u32 (of_nat (length checksums)) @ enc_many enc_checksum_row checksums @ enc_migration_archive archive"

definition encode_migration_state ::
  "env \<Rightarrow> volume_id \<Rightarrow> journal_record \<Rightarrow> migration_block_checksums \<Rightarrow> migration_archive_closure \<Rightarrow> bytes option" where
  "encode_migration_state E volume r checksums archive =
     do { durable \<leftarrow> journal_encode E volume r;
          guard_opt (fits_u32 (length (jr_runtime_page_index r)));
          guard_opt (fits_u32 (length checksums));
          guard_opt (fits_u32 (length (ma_objects archive)));
          index \<leftarrow> seal_frame E MAGIC_MIGRATION_INDEX (enc_migration_index r checksums archive);
          guard_opt (length durable < 2 ^ 64);
          Some (enc_u64 (of_nat (length durable)) @ durable @ index) }"

definition encode_migration_with_checksums ::
  "env \<Rightarrow> volume_id \<Rightarrow> journal_record \<Rightarrow> migration_block_checksums \<Rightarrow> bytes option" where
  "encode_migration_with_checksums E volume r checksums =
     encode_migration_state E volume r checksums \<lparr> ma_objects = [], ma_base = None \<rparr>"

definition encode_migration :: "env \<Rightarrow> volume_id \<Rightarrow> journal_record \<Rightarrow> bytes option" where
  "encode_migration E volume r = encode_migration_with_checksums E volume r []"

fun dec_page_index ::
  "volume_id \<Rightarrow> volume_config \<Rightarrow> nat \<Rightarrow> (page_id, gen_no \<times> page_file_loc) btree_map \<Rightarrow> bytes \<Rightarrow>
   ((page_id, gen_no \<times> page_file_loc) btree_map \<times> bytes) option" where
  "dec_page_index volume config 0 m d = Some (m, d)"
| "dec_page_index volume config (Suc n) m d =
     do { (page_no, d) \<leftarrow> dec_u32 d;
          (generation, d) \<leftarrow> dec_u64 d;
          (loc, d) \<leftarrow> dec_loc d;
          let page = (volume, page_no);
          guard_opt (config_contains config page);
          guard_opt (map_of m page = None);
          dec_page_index volume config n (bm_insert (<) page (generation, loc) m) d }"

definition checksum_key_valid :: "volume_config \<Rightarrow> block_key \<Rightarrow> bool" where
  "checksum_key_valid config key =
     (case bk_space key of
        BS_Memory \<Rightarrow> vc_kind config = VK_Memory \<and> bk_block key < vc_pages config
      | BS_Vmm \<Rightarrow> vc_kind config = VK_Memory
      | BS_Data \<Rightarrow> vc_kind config = VK_Data \<and> bk_block key < vc_pages config)"

fun dec_block_checksums ::
  "env \<Rightarrow> volume_config \<Rightarrow> nat \<Rightarrow> migration_block_checksums \<Rightarrow> bytes \<Rightarrow> (migration_block_checksums \<times> bytes) option" where
  "dec_block_checksums E config 0 m d = Some (m, d)"
| "dec_block_checksums E config (Suc n) m d =
     do { (t, d) \<leftarrow> dec_u8 d;
          sp \<leftarrow> space_decode t;
          (block, d) \<leftarrow> dec_u32 d;
          let key = \<lparr> bk_space = sp, bk_block = block \<rparr>;
          (generation, d) \<leftarrow> dec_u64 d;
          (checksum, d) \<leftarrow> dec_u64 d;
          guard_opt (checksum_key_valid config key \<and> map_of m key = None);
          dec_block_checksums E config n (bm_insert (block_key_less E) key (generation, checksum) m) d }"

definition decode_migration_archive :: "env \<Rightarrow> bytes \<Rightarrow> (migration_archive_closure \<times> bytes) option" where
  "decode_migration_archive E d =
     do { (archive_count, d) \<leftarrow> dec_u32 d;
          (objects, d) \<leftarrow> dec_many (dec_object_ref E) (unat archive_count) d;
          validate_object_refs E objects;
          (base, d) \<leftarrow> dec_base_ref d;
          Some (\<lparr> ma_objects = objects, ma_base = base \<rparr>, d) }"

definition decode_migration_state ::
  "env \<Rightarrow> volume_id \<Rightarrow> bytes \<Rightarrow> (journal_record \<times> migration_block_checksums \<times> migration_archive_closure) option" where
  "decode_migration_state E volume bs =
     do { (durable_len, _) \<leftarrow> dec_u64 bs;
          durable_end \<leftarrow> usize_checked_add 8 (unat durable_len);
          guard_opt (durable_end \<le> length bs);
          r \<leftarrow> journal_decode E volume (byte_slice 8 durable_end bs);
          payload \<leftarrow> open_frame E MAGIC_MIGRATION_INDEX (drop durable_end bs);
          (count, d) \<leftarrow> dec_u32 payload;
          (index, d) \<leftarrow> dec_page_index volume (jr_config r) (unat count) [] d;
          (checksum_count, d) \<leftarrow> dec_u32 d;
          (checksums, d) \<leftarrow> dec_block_checksums E (jr_config r) (unat checksum_count) [] d;
          (archive, d) \<leftarrow> decode_migration_archive E d;
          dec_finish d;
          Some (r\<lparr> jr_runtime_page_index := index \<rparr>, checksums, archive) }"

definition decode_migration_with_checksums ::
  "env \<Rightarrow> volume_id \<Rightarrow> bytes \<Rightarrow> (journal_record \<times> migration_block_checksums) option" where
  "decode_migration_with_checksums E volume bs =
     map_option (\<lambda>(r, checksums, _). (r, checksums)) (decode_migration_state E volume bs)"

section \<open>A record decodes to what was encoded\<close>

lemma dec_record_kind_iff [codec_simps]: "dec_record_kind d = Some (k, r) \<longleftrightarrow> d = enc_record_kind k @ r"
proof
  show "dec_record_kind d = Some (k, r) \<Longrightarrow> d = enc_record_kind k @ r"
    by (auto simp: dec_record_kind_def enc_record_kind_def codec_simps split: if_splits elim!: bind_SomeE)
qed (cases k, simp_all add: dec_record_kind_def enc_record_kind_def)

interpretation record_kindc: codec enc_record_kind dec_record_kind "\<lambda>_. True"
  by unfold_locales (simp add: dec_record_kind_iff)

lemma dec_migrated_from_iff [codec_simps]: "dec_migrated_from d = Some (v, r) \<longleftrightarrow> d = enc_migrated_from v @ r"
proof
  show "dec_migrated_from d = Some (v, r) \<Longrightarrow> d = enc_migrated_from v @ r"
    by (auto simp: dec_migrated_from_def enc_migrated_from_def codec_simps split: if_splits elim!: bind_SomeE)
next
  assume d: "d = enc_migrated_from v @ r"
  show "dec_migrated_from d = Some (v, r)"
  proof (cases v)
    case (Some s)
    then show ?thesis by (cases s; cases "ms_offer_fence s") (simp_all add: d dec_migrated_from_def enc_migrated_from_def)
  qed (simp add: d dec_migrated_from_def enc_migrated_from_def)
qed

interpretation migrated_fromc: codec enc_migrated_from dec_migrated_from "\<lambda>_. True"
  by unfold_locales (simp add: dec_migrated_from_iff)

lemma dec_loc_iff [codec_simps]: "dec_loc d = Some (l, r) \<longleftrightarrow> d = enc_loc l @ r"
proof
  show "dec_loc d = Some (l, r) \<Longrightarrow> d = enc_loc l @ r"
    by (auto simp: dec_loc_def enc_loc_def codec_simps elim!: bind_SomeE)
qed (simp add: dec_loc_def enc_loc_def)

interpretation locc: codec enc_loc dec_loc "\<lambda>_. True"
  by unfold_locales (simp add: dec_loc_iff)

lemma dec_enc_journal_parts [simp]:
  "dec_record_kind (enc_record_kind k @ r) = Some (k, r)"
  "dec_migrated_from (enc_migrated_from s @ r) = Some (s, r)" "dec_loc (enc_loc l @ r) = Some (l, r)"
  by (simp_all add: codec_simps)

text \<open>What a decoder establishes of a record beyond what the encoder asserts.\<close>

definition journal_fields_ok :: "env \<Rightarrow> journal_record \<Rightarrow> bool" where
  "journal_fields_ok E r \<longleftrightarrow> list_all (object_ref_valid E) (jr_files r) \<and>
     validate_journal_object_refs E (jr_files r) = Some () \<and> jr_runtime_page_index r = []"

lemma journal_decode_iff:
  assumes ps: "fits_u32 (env_page_size E)"
  shows "journal_decode E volume bs = Some r \<longleftrightarrow> journal_encode E volume r = Some bs \<and> journal_fields_ok E r"
proof
  assume "journal_decode E volume bs = Some r"
  then obtain n where
    fr: "open_frame E MAGIC_JOURNAL bs = Some (enc_u16 8 @ enc_u32 (of_nat (env_page_size E)) @ enc_u64 volume @
     enc_u64 (jr_seq r) @ enc_u64 (jr_fence r) @
     enc_record_kind (jr_kind r) @ enc_u64 (jr_capture_seq r) @ enc_u64 (jr_sync_covered_through r) @
     enc_u64 (jr_post_state_checksum r) @ enc_migrated_from (jr_migrated_from r) @
     enc_u8 (volume_kind_tag (vc_kind (jr_config r))) @ enc_u32 (vc_pages (jr_config r)) @ enc_u8 2 @
     enc_u32 n @ enc_many enc_object_ref (jr_files r))"
    and n: "length (jr_files r) = unat n" and ok: "list_all (object_ref_valid E) (jr_files r)"
    and val: "validate_journal_object_refs E (jr_files r) = Some ()" and idx: "jr_runtime_page_index r = []"
    and cfg: "config_valid (jr_config r)" "\<not> is_checkpoint (jr_kind r) \<or> is_memory (jr_config r)"
    by (auto simp: journal_decode_def codec_simps Let_def elim!: bind_SomeE)
  have "n = of_nat (length (jr_files r))" using n by simp
  then have "open_frame E MAGIC_JOURNAL bs = Some (enc_journal_payload E volume r)"
    using fr by (simp add: enc_journal_payload_def)
  then show "journal_encode E volume r = Some bs \<and> journal_fields_ok E r"
    using n ok val idx cfg ps by (simp add: journal_encode_def journal_fields_ok_def frame_open_seal)
next
  assume "journal_encode E volume r = Some bs \<and> journal_fields_ok E r"
  then have fr: "open_frame E MAGIC_JOURNAL bs = Some (enc_journal_payload E volume r)"
    and fits: "fits_u32 (length (jr_files r))" and ok: "list_all (object_ref_valid E) (jr_files r)"
    and val: "validate_journal_object_refs E (jr_files r) = Some ()" and idx: "jr_runtime_page_index r = []"
    and cfg: "config_valid (jr_config r)" "\<not> is_checkpoint (jr_kind r) \<or> is_memory (jr_config r)"
    by (auto simp: journal_encode_def journal_fields_ok_def frame_open_seal elim!: bind_SomeE)
  have "dec_many (dec_object_ref E) (length (jr_files r)) (enc_many enc_object_ref (jr_files r)) = Some (jr_files r, [])"
    using ok by (simp add: object_refc.many_iff)
  then show "journal_decode E volume bs = Some r"
    using fits val idx cfg
    by (cases r; cases "jr_config r") (simp add: journal_decode_def enc_journal_payload_def fr unat_of_nat_u32 Let_def)
qed

text \<open>
  C27: A journal record is canonical.  The bytes that decode to a record are exactly the bytes the
  encoder produces for it, for every record whose file references are valid and whose lookup index
  is empty; so every durable record reads back, and no two byte strings denote the same record.
\<close>

theorem journal_record_canonical:
  assumes "validate_page_size (env_page_size E)"
  shows "(journal_decode E volume bs = Some r \<longleftrightarrow> journal_encode E volume r = Some bs \<and> journal_fields_ok E r) \<and>
    (journal_decode E volume bs = Some r \<longrightarrow> journal_decode E volume bs' = Some r \<longrightarrow> bs = bs')"
  using journal_decode_iff [of E volume] assms by (auto simp: validate_page_size_def)

definition demo_journal :: journal_record where
  "demo_journal = \<lparr> jr_config = config_data 16, jr_seq = 4, jr_fence = 2, jr_kind = Commit, jr_capture_seq = 9,
     jr_sync_covered_through = 8, jr_post_state_checksum = 5, jr_files = [], jr_runtime_page_index = [],
     jr_migrated_from = Some \<lparr> ms_host = 3, ms_offer_fence = Some 1 \<rparr> \<rparr>"

lemma demo_journal_fields: "journal_fields_ok demo_env demo_journal"
  by (simp add: journal_fields_ok_def demo_journal_def validate_journal_object_refs_def validate_objects_def
      bm_values_def range_events_def)

lemma demo_journal_encodes: "\<exists>bs. journal_encode demo_env 7 demo_journal = Some bs"
  by (simp add: journal_encode_def demo_journal_def config_data_def config_valid_def is_checkpoint_def is_memory_def
      enc_journal_payload_def seal_frame_def enc_many_def enc_record_kind_def enc_migrated_from_def fits_u32_def demo_env_def)

theorem journal_record_canonical_witness:
  "\<exists>bs. journal_encode demo_env 7 demo_journal = Some bs \<and> journal_decode demo_env 7 bs = Some demo_journal"
  using demo_journal_encodes demo_journal_fields journal_record_canonical [OF demo_env_page_size] by blast

section \<open>The migration form carries the state\<close>

context key_order
begin

lemma insert_last:
  assumes "bm_ordered lt (m @ [(k, v)])"
  shows "bm_insert lt k v m = m @ [(k, v)]" "map_of m k = None"
proof -
  from assms have less: "\<forall>k' \<in> fst ` set m. lt k' k" by (auto simp: bm_ordered_def sorted_wrt_append)
  then show "bm_insert lt k v m = m @ [(k, v)]" by (induction m) (auto dest: asym)
  from less show "map_of m k = None" using irrefl by (auto simp: map_of_eq_None_iff)
qed

lemma ordered_append_left: "bm_ordered lt (m @ n) \<Longrightarrow> bm_ordered lt m"
  by (simp add: bm_ordered_def sorted_wrt_append)

end

definition page_index_ok :: "volume_id \<Rightarrow> volume_config \<Rightarrow> (page_id, gen_no \<times> page_file_loc) btree_map \<Rightarrow> bool" where
  "page_index_ok volume config m \<longleftrightarrow> bm_ordered (<) m \<and>
     (\<forall>page \<in> set (bm_keys m). fst page = volume \<and> config_contains config page)"

definition block_checksums_ok :: "env \<Rightarrow> volume_config \<Rightarrow> migration_block_checksums \<Rightarrow> bool" where
  "block_checksums_ok E config m \<longleftrightarrow> bm_ordered (block_key_less E) m \<and>
     (\<forall>key \<in> set (bm_keys m). checksum_key_valid config key)"

lemma dec_page_index_enc:
  "page_index_ok volume config (m @ rows) \<Longrightarrow>
   dec_page_index volume config (length rows) m (enc_many enc_page_row rows @ r) = Some (m @ rows, r)"
proof (induction rows arbitrary: m)
  case (Cons row rows)
  obtain v n g l where row: "row = ((v, n), g, l)" by (metis prod_cases4 surj_pair)
  have ord: "bm_ordered (<) (m @ [((v, n), g, l)])"
    using Cons.prems linear.ordered_append_left [of "m @ [row]" rows] by (simp add: page_index_ok_def row)
  have v: "v = volume" "config_contains config (volume, n)"
    using Cons.prems by (auto simp: page_index_ok_def bm_keys_def row)
  have "page_index_ok volume config ((m @ [((v, n), g, l)]) @ rows)" using Cons.prems by (simp add: row)
  from Cons.IH [OF this] show ?case
    using linear.insert_last [OF ord] v by (simp add: row enc_many_def enc_page_row_def Let_def)
qed (simp add: enc_many_def)

lemma dec_page_index_ok:
  "dec_page_index volume config n m d = Some (m', r) \<Longrightarrow> page_index_ok volume config m \<Longrightarrow> page_index_ok volume config m'"
proof (induction n arbitrary: m d)
  case (Suc n)
  from Suc.prems(1) obtain page_no generation loc d' where
    "config_contains config (volume, page_no)"
    and rest: "dec_page_index volume config n (bm_insert (<) (volume, page_no) (generation, loc) m) d' = Some (m', r)"
    by (auto simp: Let_def elim!: bind_SomeE)
  then have "page_index_ok volume config (bm_insert (<) (volume, page_no) (generation, loc) m)"
    using Suc.prems(2) by (auto simp: page_index_ok_def bm_keys_def linear.ordered_insert linear.keys_insert)
  with Suc.IH [OF rest] show ?case .
qed simp

lemma dec_block_checksums_enc:
  "block_checksums_ok E config (m @ rows) \<Longrightarrow>
   dec_block_checksums E config (length rows) m (enc_many enc_checksum_row rows @ r) = Some (m @ rows, r)"
proof (induction rows arbitrary: m)
  case (Cons row rows)
  obtain k g c where row: "row = (k, g, c)" by (metis prod_cases3)
  have ord: "bm_ordered (block_key_less E) (m @ [(k, g, c)])"
    using Cons.prems block_order.ordered_append_left [of E "m @ [row]" rows] by (simp add: block_checksums_ok_def row)
  have k: "checksum_key_valid config k"
    using Cons.prems by (auto simp: block_checksums_ok_def bm_keys_def row)
  have "block_checksums_ok E config ((m @ [(k, g, c)]) @ rows)" using Cons.prems by (simp add: row)
  from Cons.IH [OF this] show ?case
    using block_order.insert_last [OF ord] k by (cases k) (simp add: row enc_many_def enc_checksum_row_def Let_def)
qed (simp add: enc_many_def)

lemma dec_block_checksums_ok:
  "dec_block_checksums E config n m d = Some (m', r) \<Longrightarrow> block_checksums_ok E config m \<Longrightarrow> block_checksums_ok E config m'"
proof (induction n arbitrary: m d)
  case (Suc n)
  from Suc.prems(1) obtain key generation checksum d' where
    "checksum_key_valid config key"
    and rest: "dec_block_checksums E config n (bm_insert (block_key_less E) key (generation, checksum) m) d' = Some (m', r)"
    by (auto simp: Let_def elim!: bind_SomeE)
  then have "block_checksums_ok E config (bm_insert (block_key_less E) key (generation, checksum) m)"
    using Suc.prems(2)
    by (auto simp: block_checksums_ok_def bm_keys_def block_order.ordered_insert block_order.keys_insert)
  with Suc.IH [OF rest] show ?case .
qed simp

definition archive_ok :: "env \<Rightarrow> migration_archive_closure \<Rightarrow> bool" where
  "archive_ok E a \<longleftrightarrow> list_all (object_ref_valid E) (ma_objects a) \<and> validate_object_refs E (ma_objects a) = Some ()"

lemma decode_migration_archive_iff:
  "decode_migration_archive E d = Some (a, r) \<longleftrightarrow>
   archive_ok E a \<and> fits_u32 (length (ma_objects a)) \<and> d = enc_migration_archive a @ r"
proof
  assume "decode_migration_archive E d = Some (a, r)"
  then obtain n where "d = enc_u32 n @ enc_many enc_object_ref (ma_objects a) @ enc_base_ref (ma_base a) @ r"
    "archive_ok E a" "length (ma_objects a) = unat n"
    by (auto simp: decode_migration_archive_def archive_ok_def codec_simps elim!: bind_SomeE)
  then show "archive_ok E a \<and> fits_u32 (length (ma_objects a)) \<and> d = enc_migration_archive a @ r"
    by (simp add: enc_migration_archive_def)
next
  assume "archive_ok E a \<and> fits_u32 (length (ma_objects a)) \<and> d = enc_migration_archive a @ r"
  then have "archive_ok E a" "fits_u32 (length (ma_objects a))" and d: "d = enc_migration_archive a @ r" by simp_all
  then show "decode_migration_archive E d = Some (a, r)"
    by (simp add: decode_migration_archive_def archive_ok_def enc_migration_archive_def unat_of_nat_u32
        object_refc.many_enc)
qed

definition migration_state_ok ::
  "env \<Rightarrow> volume_id \<Rightarrow> journal_record \<Rightarrow> migration_block_checksums \<Rightarrow> migration_archive_closure \<Rightarrow> bool" where
  "migration_state_ok E volume r checksums archive \<longleftrightarrow>
     journal_fields_ok E (r\<lparr> jr_runtime_page_index := [] \<rparr>) \<and>
     page_index_ok volume (jr_config r) (jr_runtime_page_index r) \<and>
     block_checksums_ok E (jr_config r) checksums \<and> archive_ok E archive"

lemma journal_encode_index [simp]:
  "journal_encode E volume (r\<lparr> jr_runtime_page_index := m \<rparr>) = journal_encode E volume r"
  by (simp add: journal_encode_def enc_journal_payload_def)

lemma journal_encode_length: "journal_encode E volume r = Some bs \<Longrightarrow> length bs < 2 ^ 33"
  by (auto simp: journal_encode_def fits_u32_def FRAME_HEADER_def frame_shape elim!: bind_SomeE)

lemma decode_encode_migration_state:
  assumes ps: "fits_u32 (env_page_size E)" and ok: "migration_state_ok E volume r checksums archive"
    and enc: "encode_migration_state E volume r checksums archive = Some bs"
  shows "decode_migration_state E volume bs = Some (r, checksums, archive)"
proof -
  from enc obtain durable index where
    durable: "journal_encode E volume r = Some durable"
    and fits: "fits_u32 (length (jr_runtime_page_index r))" "fits_u32 (length checksums)" "fits_u32 (length (ma_objects archive))"
    and index: "seal_frame E MAGIC_MIGRATION_INDEX (enc_migration_index r checksums archive) = Some index"
    and bs: "bs = enc_u64 (of_nat (length durable)) @ durable @ index"
    by (auto simp: encode_migration_state_def elim!: bind_SomeE)
  have len: "unat (of_nat (length durable) :: u64) = length durable"
    "usize_checked_add 8 (length durable) = Some (8 + length durable)"
    using journal_encode_length [OF durable] by (simp_all add: unat_of_nat usize_checked_add_def usize_max_def)
  have "journal_decode E volume durable = Some (r\<lparr> jr_runtime_page_index := [] \<rparr>)"
    using durable ok by (simp add: journal_decode_iff [OF ps] migration_state_ok_def)
  moreover have "dec_page_index volume (jr_config r) (length (jr_runtime_page_index r)) []
      (enc_many enc_page_row (jr_runtime_page_index r) @ x) = Some (jr_runtime_page_index r, x)" for x
    using dec_page_index_enc [of volume "jr_config r" "[]"] ok by (simp add: migration_state_ok_def)
  moreover have "dec_block_checksums E (jr_config r) (length checksums) [] (enc_many enc_checksum_row checksums @ x) =
      Some (checksums, x)" for x
    using dec_block_checksums_enc [of E "jr_config r" "[]"] ok by (simp add: migration_state_ok_def)
  moreover have "decode_migration_archive E (enc_migration_archive archive) = Some (archive, [])"
    using ok fits by (simp add: decode_migration_archive_iff migration_state_ok_def)
  moreover have "byte_slice 8 (8 + length durable) bs = durable" "drop (8 + length durable) bs = index"
    by (simp_all add: bs byte_slice_def)
  moreover have "dec_u64 bs = Some (of_nat (length durable), durable @ index)" "8 + length durable \<le> length bs"
    by (simp_all add: bs)
  ultimately show ?thesis
    using fits open_seal_frame [OF index]
    by (simp add: decode_migration_state_def len enc_migration_index_def unat_of_nat_u32)
qed

lemma dec_page_index_wf: "dec_page_index volume config n [] d = Some (m, r) \<Longrightarrow> page_index_ok volume config m"
  by (erule dec_page_index_ok) (simp add: page_index_ok_def bm_keys_def linear.ordered_Nil)

lemma dec_block_checksums_wf: "dec_block_checksums E config n [] d = Some (m, r) \<Longrightarrow> block_checksums_ok E config m"
  by (erule dec_block_checksums_ok) (simp add: block_checksums_ok_def bm_keys_def block_order.ordered_Nil)

lemma decode_migration_state_ok:
  assumes ps: "fits_u32 (env_page_size E)"
    and dec: "decode_migration_state E volume bs = Some (r, checksums, archive)"
  shows "migration_state_ok E volume r checksums archive"
  using dec
  by (auto simp: decode_migration_state_def journal_decode_iff [OF ps] decode_migration_archive_iff
      migration_state_ok_def journal_fields_ok_def elim!: bind_SomeE dest!: dec_page_index_wf dec_block_checksums_wf)

text \<open>
  C28: Migration transports the whole state.  A record with its page lookup index, its block
  checksums and its archive closure decodes on the destination to exactly what the source encoded;
  and whatever a destination accepts, from any bytes, has every indexed page inside the volume,
  every checksum key legal for the volume's kind and size, no key twice, and valid references.
\<close>

theorem migration_state_roundtrip:
  assumes "validate_page_size (env_page_size E)"
  shows "(migration_state_ok E volume r checksums archive \<longrightarrow>
      encode_migration_state E volume r checksums archive = Some bs \<longrightarrow>
      decode_migration_state E volume bs = Some (r, checksums, archive)) \<and>
    (decode_migration_state E volume bs = Some (r, checksums, archive) \<longrightarrow>
      migration_state_ok E volume r checksums archive)"
proof -
  have "fits_u32 (env_page_size E)" using assms by (simp add: validate_page_size_def)
  then show ?thesis using decode_encode_migration_state decode_migration_state_ok by blast
qed

definition demo_migration :: journal_record where
  "demo_migration = demo_journal\<lparr> jr_runtime_page_index :=
     [((7, 3), 5, \<lparr> pl_base = 0, pl_fence = 2, pl_object = 40, pl_offset = 0, pl_len = 99 \<rparr>),
      ((7, 4), 6, \<lparr> pl_base = 0, pl_fence = 2, pl_object = 40, pl_offset = 99, pl_len = 99 \<rparr>)] \<rparr>"

definition demo_archive :: migration_archive_closure where
  "demo_archive = \<lparr> ma_objects = [demo_ref 1 2 9], ma_base = None \<rparr>"

definition demo_checksums :: migration_block_checksums where
  "demo_checksums = [(\<lparr> bk_space = BS_Data, bk_block = 3 \<rparr>, 5, 11)]"

lemma demo_migration_ok: "migration_state_ok demo_env 7 demo_migration demo_checksums demo_archive"
proof -
  have "demo_migration\<lparr> jr_runtime_page_index := [] \<rparr> = demo_journal"
    by (simp add: demo_migration_def demo_journal_def)
  moreover have "page_index_ok 7 (jr_config demo_migration) (jr_runtime_page_index demo_migration)"
    by (simp add: page_index_ok_def demo_migration_def demo_journal_def bm_ordered_def bm_keys_def config_contains_def
        config_data_def)
  moreover have "block_checksums_ok demo_env (jr_config demo_migration) demo_checksums"
    by (simp add: block_checksums_ok_def demo_migration_def demo_journal_def bm_ordered_def bm_keys_def
        demo_checksums_def checksum_key_valid_def config_data_def)
  moreover have "archive_ok demo_env demo_archive"
    using demo_refs_valid by (simp add: archive_ok_def demo_archive_def demo_single_ref_accepted)
  ultimately show ?thesis using demo_journal_fields by (simp add: migration_state_ok_def)
qed

lemma demo_migration_encodes:
  "\<exists>bs. encode_migration_state demo_env 7 demo_migration demo_checksums demo_archive = Some bs"
proof -
  obtain durable where durable: "journal_encode demo_env 7 demo_migration = Some durable"
    using demo_journal_encodes by (auto simp: demo_migration_def)
  moreover have "fits_u32 (length (enc_migration_index demo_migration demo_checksums demo_archive))"
    "fits_u32 (length (jr_runtime_page_index demo_migration))" "fits_u32 (length demo_checksums)"
    "fits_u32 (length (ma_objects demo_archive))"
    by (simp_all add: enc_migration_index_def demo_migration_def demo_checksums_def demo_archive_def enc_many_def
        enc_page_row_def enc_loc_def enc_checksum_row_def enc_migration_archive_def enc_object_ref_def enc_identity_def
        enc_base_ref_def enc_block_key_def fits_u32_def)
  ultimately show ?thesis using journal_encode_length [OF durable]
    by (simp add: encode_migration_state_def seal_frame_def)
qed

theorem migration_state_roundtrip_witness:
  "\<exists>bs. encode_migration_state demo_env 7 demo_migration demo_checksums demo_archive = Some bs \<and>
     decode_migration_state demo_env 7 bs = Some (demo_migration, demo_checksums, demo_archive)"
  using demo_migration_encodes demo_migration_ok migration_state_roundtrip [OF demo_env_page_size] by blast

end
