(* ===== verification/Head.thy ===== *)
theory Head
  imports Journal
begin

text \<open>
  The head record (\<^verbatim>\<open>crates/core/src/head.rs\<close>): one compare-and-swap object per volume naming its
  holder, the fence, the newest archived manifest and the passive-stash assignment.
\<close>

definition MAGIC_HEAD :: u32 where
  "MAGIC_HEAD = magic ''BHD1''"

definition ptr_manifest_key :: "manifest_ptr \<Rightarrow> volume_id \<Rightarrow> string" where
  "ptr_manifest_key p volume = manifest_key volume (mp_fence p) (mp_seq p)"

definition ptr_pending_key :: "manifest_ptr \<Rightarrow> volume_id \<Rightarrow> string" where
  "ptr_pending_key p volume = pending_manifest_key volume (mp_fence p) (mp_seq p)"

record stash_assignment =
  sa_assignment_epoch :: u64
  sa_active_peer :: host_id
  sa_active_assignment_epoch :: u64
  sa_transition_peer :: "host_id option"
  sa_membership_epoch :: u64

definition MAX_RETIRED_STASHES :: nat where
  "MAX_RETIRED_STASHES = 8"

record retired_stash =
  rs_peer :: host_id
  rs_assignment_epoch :: u64
  rs_through :: commit_info

record head_record =
  hd_volume :: volume_id
  hd_holder :: host_id
  hd_fence :: u64
  hd_manifest :: "manifest_ptr option"
  hd_stash :: "stash_assignment option"
  hd_retired_stashes :: "retired_stash list"

definition enc_host :: "host_id \<Rightarrow> bytes" where
  "enc_host h = enc_u32 h"

definition dec_host :: "bytes \<Rightarrow> (host_id \<times> bytes) option" where
  "dec_host d = dec_u32 d"

definition enc_manifest_ptr :: "manifest_ptr option \<Rightarrow> bytes" where
  "enc_manifest_ptr v =
     (case v of
        None \<Rightarrow> enc_u8 0
      | Some p \<Rightarrow> enc_u8 1 @ enc_u64 (mp_fence p) @ enc_u64 (mp_journal_seq p) @ enc_u64 (mp_seq p) @
          enc_u64 (mp_capture_seq p) @ enc_u64 (mp_checksum p))"

definition dec_manifest_ptr :: "bytes \<Rightarrow> (manifest_ptr option \<times> bytes) option" where
  "dec_manifest_ptr d =
     do { (t, d) \<leftarrow> dec_u8 d;
          if t = 0 then Some (None, d)
          else if t = 1 then
            do { (fence, d) \<leftarrow> dec_u64 d;
                 (jseq, d) \<leftarrow> dec_u64 d;
                 (seq, d) \<leftarrow> dec_u64 d;
                 (capture_seq, d) \<leftarrow> dec_u64 d;
                 (checksum, d) \<leftarrow> dec_u64 d;
                 Some (Some \<lparr> mp_fence = fence, mp_journal_seq = jseq, mp_seq = seq,
                              mp_capture_seq = capture_seq, mp_checksum = checksum \<rparr>, d) }
          else None }"

definition enc_transition :: "host_id option \<Rightarrow> bytes" where
  "enc_transition v = (case v of None \<Rightarrow> enc_u8 0 | Some peer \<Rightarrow> enc_u8 1 @ enc_host peer)"

definition dec_transition :: "bytes \<Rightarrow> (host_id option \<times> bytes) option" where
  "dec_transition d =
     do { (t, d) \<leftarrow> dec_u8 d;
          if t = 0 then Some (None, d)
          else if t = 1 then do { (h, d) \<leftarrow> dec_host d; Some (Some h, d) }
          else None }"

definition enc_stash :: "stash_assignment option \<Rightarrow> bytes" where
  "enc_stash v =
     (case v of
        None \<Rightarrow> enc_u8 0
      | Some s \<Rightarrow> enc_u8 1 @ enc_u64 (sa_assignment_epoch s) @ enc_host (sa_active_peer s) @
          enc_u64 (sa_active_assignment_epoch s) @ enc_transition (sa_transition_peer s) @
          enc_u64 (sa_membership_epoch s))"

text \<open>What the decoder demands of a stash assignment.\<close>

definition stash_ok :: "stash_assignment \<Rightarrow> bool" where
  "stash_ok s \<longleftrightarrow> \<not> sa_transition_peer s = Some (sa_active_peer s) \<and>
     \<not> (sa_transition_peer s = None \<and> sa_active_assignment_epoch s \<noteq> sa_assignment_epoch s)"

definition dec_stash :: "bytes \<Rightarrow> (stash_assignment option \<times> bytes) option" where
  "dec_stash d =
     do { (t, d) \<leftarrow> dec_u8 d;
          if t = 0 then Some (None, d)
          else if t = 1 then
            do { (assignment_epoch, d) \<leftarrow> dec_u64 d;
                 (active_peer, d) \<leftarrow> dec_host d;
                 (active_epoch, d) \<leftarrow> dec_u64 d;
                 (transition_peer, d) \<leftarrow> dec_transition d;
                 (membership_epoch, d) \<leftarrow> dec_u64 d;
                 let s = \<lparr> sa_assignment_epoch = assignment_epoch, sa_active_peer = active_peer,
                           sa_active_assignment_epoch = active_epoch, sa_transition_peer = transition_peer,
                           sa_membership_epoch = membership_epoch \<rparr>;
                 guard_opt (stash_ok s);
                 Some (Some s, d) }
          else None }"

definition enc_commit_info :: "commit_info \<Rightarrow> bytes" where
  "enc_commit_info c = enc_u64 (ci_writer_fence c) @ enc_u64 (ci_seq c) @ enc_u64 (ci_sync_covered_through c)"

definition dec_commit_info :: "bytes \<Rightarrow> (commit_info \<times> bytes) option" where
  "dec_commit_info d =
     do { (fence, d) \<leftarrow> dec_u64 d;
          (seq, d) \<leftarrow> dec_u64 d;
          (sync, d) \<leftarrow> dec_u64 d;
          Some (\<lparr> ci_writer_fence = fence, ci_seq = seq, ci_sync_covered_through = sync \<rparr>, d) }"

definition enc_retired :: "retired_stash \<Rightarrow> bytes" where
  "enc_retired s = enc_host (rs_peer s) @ enc_u64 (rs_assignment_epoch s) @ enc_commit_info (rs_through s)"

definition dec_retired :: "bytes \<Rightarrow> (retired_stash \<times> bytes) option" where
  "dec_retired d =
     do { (peer, d) \<leftarrow> dec_host d;
          (epoch, d) \<leftarrow> dec_u64 d;
          (through, d) \<leftarrow> dec_commit_info d;
          Some (\<lparr> rs_peer = peer, rs_assignment_epoch = epoch, rs_through = through \<rparr>, d) }"

definition enc_head_payload :: "head_record \<Rightarrow> bytes" where
  "enc_head_payload h =
     enc_u16 4 @ enc_u64 (hd_volume h) @ enc_host (hd_holder h) @ enc_u64 (hd_fence h) @
     enc_manifest_ptr (hd_manifest h) @ enc_stash (hd_stash h) @
     enc_u8 (of_nat (length (hd_retired_stashes h))) @ enc_many enc_retired (hd_retired_stashes h)"

definition head_encode :: "env \<Rightarrow> head_record \<Rightarrow> bytes option" where
  "head_encode E h =
     do { guard_opt (length (hd_retired_stashes h) \<le> MAX_RETIRED_STASHES);
          seal_frame E MAGIC_HEAD (enc_head_payload h) }"

definition head_decode :: "env \<Rightarrow> volume_id \<Rightarrow> bytes \<Rightarrow> head_record option" where
  "head_decode E volume bs =
     do { payload \<leftarrow> open_frame E MAGIC_HEAD bs;
          (version, d) \<leftarrow> dec_u16 payload;
          guard_opt (version = 4);
          (v, d) \<leftarrow> dec_u64 d;
          guard_opt (v = volume);
          (holder, d) \<leftarrow> dec_host d;
          (fence, d) \<leftarrow> dec_u64 d;
          (mptr, d) \<leftarrow> dec_manifest_ptr d;
          (stash, d) \<leftarrow> dec_stash d;
          (n, d) \<leftarrow> dec_u8 d;
          guard_opt (\<not> unat n > MAX_RETIRED_STASHES);
          (retired, d) \<leftarrow> dec_many dec_retired (unat n) d;
          dec_finish d;
          Some \<lparr> hd_volume = volume, hd_holder = holder, hd_fence = fence, hd_manifest = mptr,
                 hd_stash = stash, hd_retired_stashes = retired \<rparr> }"

section \<open>Codecs\<close>

lemma dec_host_iff [codec_simps]: "dec_host d = Some (h, r) \<longleftrightarrow> d = enc_host h @ r"
  by (simp add: dec_host_def enc_host_def codec_simps)

lemma dec_manifest_ptr_iff [codec_simps]: "dec_manifest_ptr d = Some (v, r) \<longleftrightarrow> d = enc_manifest_ptr v @ r"
proof
  show "dec_manifest_ptr d = Some (v, r) \<Longrightarrow> d = enc_manifest_ptr v @ r"
    by (auto simp: dec_manifest_ptr_def enc_manifest_ptr_def codec_simps split: if_splits elim!: bind_SomeE)
qed (cases v, simp_all add: dec_manifest_ptr_def enc_manifest_ptr_def)

lemma dec_enc_host [simp]: "dec_host (enc_host h @ r) = Some (h, r)"
  by (simp add: codec_simps)

lemma dec_transition_iff [codec_simps]: "dec_transition d = Some (v, r) \<longleftrightarrow> d = enc_transition v @ r"
proof
  show "dec_transition d = Some (v, r) \<Longrightarrow> d = enc_transition v @ r"
    by (auto simp: dec_transition_def enc_transition_def codec_simps split: if_splits elim!: bind_SomeE)
qed (cases v, simp_all add: dec_transition_def enc_transition_def)

lemma dec_enc_transition [simp]: "dec_transition (enc_transition v @ r) = Some (v, r)"
  by (simp add: codec_simps)

lemma dec_stash_iff [codec_simps]:
  "dec_stash d = Some (v, r) \<longleftrightarrow> pred_option stash_ok v \<and> d = enc_stash v @ r"
proof
  show "dec_stash d = Some (v, r) \<Longrightarrow> pred_option stash_ok v \<and> d = enc_stash v @ r"
    by (auto simp: dec_stash_def enc_stash_def codec_simps Let_def split: if_splits elim!: bind_SomeE)
next
  assume d: "pred_option stash_ok v \<and> d = enc_stash v @ r"
  show "dec_stash d = Some (v, r)"
  proof (cases v)
    case (Some s)
    with d show ?thesis by (cases s) (simp add: dec_stash_def enc_stash_def Let_def)
  qed (use d in \<open>simp add: dec_stash_def enc_stash_def\<close>)
qed

lemma dec_commit_info_iff [codec_simps]: "dec_commit_info d = Some (c, r) \<longleftrightarrow> d = enc_commit_info c @ r"
proof
  show "dec_commit_info d = Some (c, r) \<Longrightarrow> d = enc_commit_info c @ r"
    by (auto simp: dec_commit_info_def enc_commit_info_def codec_simps elim!: bind_SomeE)
qed (simp add: dec_commit_info_def enc_commit_info_def)

lemma dec_enc_commit_info [simp]: "dec_commit_info (enc_commit_info c @ r) = Some (c, r)"
  by (simp add: codec_simps)

lemma dec_retired_iff [codec_simps]: "dec_retired d = Some (s, r) \<longleftrightarrow> d = enc_retired s @ r"
proof
  show "dec_retired d = Some (s, r) \<Longrightarrow> d = enc_retired s @ r"
    by (auto simp: dec_retired_def enc_retired_def codec_simps elim!: bind_SomeE)
qed (simp add: dec_retired_def enc_retired_def)

interpretation hostc: codec enc_host dec_host "\<lambda>_. True"
  by unfold_locales (simp add: dec_host_iff)

interpretation manifest_ptrc: codec enc_manifest_ptr dec_manifest_ptr "\<lambda>_. True"
  by unfold_locales (simp add: dec_manifest_ptr_iff)

interpretation stashc: codec enc_stash dec_stash "pred_option stash_ok"
  by unfold_locales (rule dec_stash_iff)

interpretation commit_infoc: codec enc_commit_info dec_commit_info "\<lambda>_. True"
  by unfold_locales (simp add: dec_commit_info_iff)

interpretation retiredc: codec enc_retired dec_retired "\<lambda>_. True"
  by unfold_locales (simp add: dec_retired_iff)

lemma dec_enc_head_parts [simp]:
  "dec_manifest_ptr (enc_manifest_ptr v @ r) = Some (v, r)"
  "pred_option stash_ok s \<Longrightarrow> dec_stash (enc_stash s @ r) = Some (s, r)"
  "dec_many dec_retired (length rs) (enc_many enc_retired rs) = Some (rs, [])"
  by (simp_all add: codec_simps retiredc.many_iff list_all_iff)

lemma head_decode_iff:
  "head_decode E volume bs = Some h \<longleftrightarrow>
   head_encode E h = Some bs \<and> hd_volume h = volume \<and> pred_option stash_ok (hd_stash h)"
proof
  assume "head_decode E volume bs = Some h"
  then obtain n where
    fr: "open_frame E MAGIC_HEAD bs = Some (enc_u16 4 @ enc_u64 volume @ enc_host (hd_holder h) @ enc_u64 (hd_fence h) @
      enc_manifest_ptr (hd_manifest h) @ enc_stash (hd_stash h) @ enc_u8 n @ enc_many enc_retired (hd_retired_stashes h))"
    and n: "length (hd_retired_stashes h) = unat n" "unat n \<le> MAX_RETIRED_STASHES"
    and h: "hd_volume h = volume" "pred_option stash_ok (hd_stash h)"
    by (auto simp: head_decode_def codec_simps retiredc.many_iff not_less elim!: bind_SomeE)
  have "n = of_nat (length (hd_retired_stashes h))" using n(1) by simp
  then have "open_frame E MAGIC_HEAD bs = Some (enc_head_payload h)" using fr h(1) by (simp add: enc_head_payload_def)
  then show "head_encode E h = Some bs \<and> hd_volume h = volume \<and> pred_option stash_ok (hd_stash h)"
    using n h by (simp add: head_encode_def frame_open_seal)
next
  assume "head_encode E h = Some bs \<and> hd_volume h = volume \<and> pred_option stash_ok (hd_stash h)"
  then have fr: "open_frame E MAGIC_HEAD bs = Some (enc_head_payload h)" and vol: "hd_volume h = volume"
    and n: "length (hd_retired_stashes h) \<le> MAX_RETIRED_STASHES" and ok: "pred_option stash_ok (hd_stash h)"
    by (auto simp: head_encode_def frame_open_seal elim!: bind_SomeE)
  have "unat (of_nat (length (hd_retired_stashes h)) :: u8) = length (hd_retired_stashes h)"
    using n by (simp add: unat_of_nat MAX_RETIRED_STASHES_def)
  then show "head_decode E volume bs = Some h"
    using n vol ok by (cases h) (simp add: head_decode_def fr enc_head_payload_def)
qed

text \<open>
  C29: A head record is canonical.  Bytes decode to a record for a volume exactly when the encoder
  produces them for that record, the record is that volume's, and its stash assignment never names
  the active peer as its own replacement and, with no replacement pending, writes under the epoch
  of the active spool.
\<close>

theorem head_record_canonical:
  "head_decode E volume bs = Some h \<longleftrightarrow>
   head_encode E h = Some bs \<and> hd_volume h = volume \<and> pred_option stash_ok (hd_stash h)"
  by (rule head_decode_iff)

end
