(* ===== verification/Replica_Spool.thy ===== *)
theory Replica_Spool
  imports Head
begin

text \<open>
  The passive-replica spool (\<^verbatim>\<open>crates/core/src/replica_spool.rs\<close> and \<^verbatim>\<open>replica_wire.rs\<close>): artifact
  frames followed by commit footers, appended to one file.  A restart scans the file; the scan is
  the loop \<open>scan_spool_loop\<close> over an explicit state.  The properties are that a scan never
  manufactures a commit and that a write torn by a crash costs only the torn frame.

  \<^verbatim>\<open>ReplicaSpoolError\<close> carries no information, so fallible functions are option-valued.
\<close>

definition MAGIC_REPLICA_ARTIFACT :: u32 where
  "MAGIC_REPLICA_ARTIFACT = magic ''BRA1''"

definition MAGIC_REPLICA_COMMIT :: u32 where
  "MAGIC_REPLICA_COMMIT = magic ''BRC1''"

section \<open>Artifacts\<close>

datatype replica_artifact = Blx_Artifact (ra_fence: u64) (ra_object: object_id)

text \<open>The derived order compares the fields in declaration order.\<close>

definition artifact_rank :: "replica_artifact \<Rightarrow> u64 \<times> object_id" where
  "artifact_rank a = (ra_fence a, ra_object a)"

lemma artifact_rank_inj: "artifact_rank a = artifact_rank b \<Longrightarrow> a = b"
  by (cases a; cases b) (simp add: artifact_rank_def)

instantiation replica_artifact :: linorder
begin

definition less_replica_artifact :: "replica_artifact \<Rightarrow> replica_artifact \<Rightarrow> bool" where
  "less_replica_artifact a b \<longleftrightarrow> artifact_rank a < artifact_rank b"

definition less_eq_replica_artifact :: "replica_artifact \<Rightarrow> replica_artifact \<Rightarrow> bool" where
  "less_eq_replica_artifact a b \<longleftrightarrow> artifact_rank a \<le> artifact_rank b"

instance
proof
  fix a b c :: replica_artifact
  show "a < b \<longleftrightarrow> a \<le> b \<and> \<not> b \<le> a" unfolding less_replica_artifact_def less_eq_replica_artifact_def
    by (rule less_le_not_le)
  show "a \<le> a" by (simp add: less_eq_replica_artifact_def)
  show "a \<le> b \<Longrightarrow> b \<le> c \<Longrightarrow> a \<le> c" unfolding less_eq_replica_artifact_def by (rule order_trans)
  show "a \<le> b \<Longrightarrow> b \<le> a \<Longrightarrow> a = b"
    unfolding less_eq_replica_artifact_def by (blast intro: artifact_rank_inj antisym)
  show "a \<le> b \<or> b \<le> a" unfolding less_eq_replica_artifact_def by (rule linear)
qed

end

definition encode_artifact :: "replica_artifact \<Rightarrow> bytes" where
  "encode_artifact a = (case a of Blx_Artifact fence ob \<Rightarrow> enc_u8 0 @ enc_u64 fence @ enc_u64 ob)"

definition decode_artifact :: "bytes \<Rightarrow> (replica_artifact \<times> bytes) option" where
  "decode_artifact d =
     do { (t, d) \<leftarrow> dec_u8 d;
          guard_opt (t = 0);
          (fence, d) \<leftarrow> dec_u64 d;
          (ob, d) \<leftarrow> dec_u64 d;
          Some (Blx_Artifact fence ob, d) }"

record replica_artifact_frame =
  af_source :: host_id
  af_volume :: volume_id
  af_assignment_epoch :: u64
  af_artifact :: replica_artifact
  af_checksum :: u32
  af_bytes :: bytes

record replica_commit_frame =
  cf_source :: host_id
  cf_volume :: volume_id
  cf_assignment_epoch :: u64
  cf_info :: commit_info
  cf_required :: "replica_artifact list"
  cf_record :: bytes

record replica_spool_scan =
  ss_valid_len :: nat
  ss_truncated_tail :: bool
  ss_artifacts :: "(replica_artifact, replica_artifact_frame) btree_map"
  ss_uncommitted_artifacts :: "replica_artifact btree_set"
  ss_commits :: "replica_commit_frame list"

section \<open>Frames\<close>

definition verify_artifact :: "env \<Rightarrow> volume_id \<Rightarrow> replica_artifact \<Rightarrow> bytes \<Rightarrow> unit option" where
  "verify_artifact E volume artifact bs =
     (case artifact of Blx_Artifact fence ob \<Rightarrow>
        do { (got_volume, got_fence, got_object, _) \<leftarrow> scan_page_file E bs;
             guard_opt ((got_volume, got_fence, got_object) = (volume, fence, ob)) })"

definition verify_record :: "env \<Rightarrow> volume_id \<Rightarrow> commit_info \<Rightarrow> bytes \<Rightarrow> unit option" where
  "verify_record E volume info bs =
     do { r \<leftarrow> journal_decode E volume bs;
          guard_opt (\<not> (jr_fence r \<noteq> ci_writer_fence info \<or> jr_seq r \<noteq> ci_seq info \<or>
                       jr_sync_covered_through r \<noteq> ci_sync_covered_through info)) }"

definition enc_artifact_payload :: "replica_artifact_frame \<Rightarrow> bytes" where
  "enc_artifact_payload f =
     enc_u16 2 @ enc_u32 (af_source f) @ enc_u64 (af_volume f) @ enc_u64 (af_assignment_epoch f) @
     encode_artifact (af_artifact f) @ enc_u32 (af_checksum f) @ enc_u32 (of_nat (length (af_bytes f))) @ af_bytes f"

text \<open>
  Sealing checks the artifact first; a payload too long for a frame panics in \<^verbatim>\<open>seal_frame\<close>.
\<close>

definition seal_verified_replica_artifact :: "env \<Rightarrow> replica_artifact_frame \<Rightarrow> (unit, bytes) outcome" where
  "seal_verified_replica_artifact E f =
     (if verify_artifact E (af_volume f) (af_artifact f) (af_bytes f) = None \<or> \<not> fits_u32 (length (af_bytes f))
      then Failed ()
      else case seal_frame E MAGIC_REPLICA_ARTIFACT (enc_artifact_payload f) of
        None \<Rightarrow> Panicked | Some bs \<Rightarrow> Returned bs)"

definition seal_replica_artifact ::
  "env \<Rightarrow> host_id \<Rightarrow> volume_id \<Rightarrow> u64 \<Rightarrow> replica_artifact \<Rightarrow> bytes \<Rightarrow> (unit, bytes) outcome" where
  "seal_replica_artifact E source volume epoch artifact bs =
     seal_verified_replica_artifact E
       \<lparr> af_source = source, af_volume = volume, af_assignment_epoch = epoch, af_artifact = artifact,
         af_checksum = crc32c E bs, af_bytes = bs \<rparr>"

text \<open>\<^verbatim>\<open>required.windows(2).any(|pair| pair[0] >= pair[1])\<close>.\<close>

fun has_unordered_pair :: "replica_artifact list \<Rightarrow> bool" where
  "has_unordered_pair (a # b # xs) = (a \<ge> b \<or> has_unordered_pair (b # xs))"
| "has_unordered_pair _ = False"

definition enc_commit_payload :: "replica_commit_frame \<Rightarrow> bytes" where
  "enc_commit_payload f =
     enc_u16 2 @ enc_u32 (cf_source f) @ enc_u64 (cf_volume f) @ enc_u64 (cf_assignment_epoch f) @
     enc_commit_info (cf_info f) @ enc_u32 (of_nat (length (cf_required f))) @
     enc_many encode_artifact (cf_required f) @ enc_u32 (of_nat (length (cf_record f))) @ cf_record f"

definition seal_replica_commit :: "env \<Rightarrow> replica_commit_frame \<Rightarrow> (unit, bytes) outcome" where
  "seal_replica_commit E f =
     (if has_unordered_pair (cf_required f) \<or> verify_record E (cf_volume f) (cf_info f) (cf_record f) = None \<or>
         \<not> fits_u32 (length (cf_required f)) \<or> \<not> fits_u32 (length (cf_record f))
      then Failed ()
      else case seal_frame E MAGIC_REPLICA_COMMIT (enc_commit_payload f) of
        None \<Rightarrow> Panicked | Some bs \<Rightarrow> Returned bs)"

definition open_artifact :: "env \<Rightarrow> bytes \<Rightarrow> replica_artifact_frame option" where
  "open_artifact E bs =
     do { payload \<leftarrow> open_frame E MAGIC_REPLICA_ARTIFACT bs;
          (version, d) \<leftarrow> dec_u16 payload;
          guard_opt (version = 2);
          (source, d) \<leftarrow> dec_u32 d;
          (volume, d) \<leftarrow> dec_u64 d;
          (epoch, d) \<leftarrow> dec_u64 d;
          (artifact, d) \<leftarrow> decode_artifact d;
          (checksum, d) \<leftarrow> dec_u32 d;
          (len, d) \<leftarrow> dec_u32 d;
          (content, d) \<leftarrow> dec_bytes (unat len) d;
          dec_finish d;
          guard_opt (crc32c E content = checksum);
          verify_artifact E volume artifact content;
          Some \<lparr> af_source = source, af_volume = volume, af_assignment_epoch = epoch, af_artifact = artifact,
                 af_checksum = checksum, af_bytes = content \<rparr> }"

definition open_commit :: "env \<Rightarrow> bytes \<Rightarrow> replica_commit_frame option" where
  "open_commit E bs =
     do { payload \<leftarrow> open_frame E MAGIC_REPLICA_COMMIT bs;
          (version, d) \<leftarrow> dec_u16 payload;
          guard_opt (version = 2);
          (source, d) \<leftarrow> dec_u32 d;
          (volume, d) \<leftarrow> dec_u64 d;
          (epoch, d) \<leftarrow> dec_u64 d;
          (info, d) \<leftarrow> dec_commit_info d;
          (n, d) \<leftarrow> dec_u32 d;
          guard_opt (\<not> n > 1000000);
          (required, d) \<leftarrow> dec_many decode_artifact (unat n) d;
          guard_opt (\<not> has_unordered_pair required);
          (len, d) \<leftarrow> dec_u32 d;
          (content, d) \<leftarrow> dec_bytes (unat len) d;
          dec_finish d;
          verify_record E volume info content;
          Some \<lparr> cf_source = source, cf_volume = volume, cf_assignment_epoch = epoch, cf_info = info,
                 cf_required = required, cf_record = content \<rparr> }"

definition framed_len :: "bytes \<Rightarrow> nat option" where
  "framed_len bs =
     (if length bs < FRAME_HEADER then None
      else do { payload \<leftarrow> map_option fst (dec_u32 (drop 4 bs));
                len \<leftarrow> usize_checked_add FRAME_HEADER (unat payload);
                if len \<le> length bs then Some len else None })"

section \<open>The restart scan\<close>

type_synonym spool_identity = "host_id \<times> volume_id \<times> u64"

definition check_identity :: "spool_identity option \<Rightarrow> spool_identity \<Rightarrow> spool_identity option option" where
  "check_identity identity incoming =
     (case identity of
        None \<Rightarrow> Some (Some incoming)
      | Some existing \<Rightarrow> if existing = incoming then Some identity else None)"

text \<open>The two arms of the scan, after the frame has been opened.\<close>

definition record_artifact ::
  "replica_artifact_frame \<Rightarrow> replica_spool_scan \<times> spool_identity option \<Rightarrow>
   (replica_spool_scan \<times> spool_identity option) option" where
  "record_artifact f st =
     (case st of (scan, identity) \<Rightarrow>
        do { identity \<leftarrow> check_identity identity (af_source f, af_volume f, af_assignment_epoch f);
             case map_of (ss_artifacts scan) (af_artifact f) of
               None \<Rightarrow> Some (scan\<lparr> ss_uncommitted_artifacts := bs_insert (<) (af_artifact f) (ss_uncommitted_artifacts scan),
                                 ss_artifacts := bm_insert (<) (af_artifact f) f (ss_artifacts scan) \<rparr>, identity)
             | Some existing \<Rightarrow>
                 if af_checksum existing = af_checksum f \<and> af_bytes existing = af_bytes f then Some (scan, identity)
                 else None })"

definition commit_behind :: "commit_info \<Rightarrow> commit_info \<Rightarrow> bool" where
  "commit_behind a b \<longleftrightarrow> (ci_sync_covered_through a, ci_seq a) < (ci_sync_covered_through b, ci_seq b)"

definition last_commit :: "replica_spool_scan \<Rightarrow> replica_commit_frame option" where
  "last_commit scan = (if ss_commits scan = [] then None else Some (last (ss_commits scan)))"

definition record_commit ::
  "replica_commit_frame \<Rightarrow> replica_spool_scan \<times> spool_identity option \<Rightarrow>
   (replica_spool_scan \<times> spool_identity option) option" where
  "record_commit c st =
     (case st of (scan, identity) \<Rightarrow>
        do { identity \<leftarrow> check_identity identity (cf_source c, cf_volume c, cf_assignment_epoch c);
             guard_opt (\<not> list_ex (\<lambda>a. map_of (ss_artifacts scan) a = None) (cf_required c));
             guard_opt (case last_commit scan of None \<Rightarrow> True | Some p \<Rightarrow> \<not> commit_behind (cf_info c) (cf_info p));
             if last_commit scan \<noteq> Some c then
               Some (scan\<lparr> ss_uncommitted_artifacts := foldl (\<lambda>s a. bs_remove a s) (ss_uncommitted_artifacts scan) (cf_required c),
                           ss_commits := ss_commits scan @ [c] \<rparr>, identity)
             else Some (scan, identity) })"

definition frame_magic :: "bytes \<Rightarrow> u32 option" where
  "frame_magic frame = map_option fst (dec_u32 frame)"

lemma framed_len_bounds: "framed_len bs = Some n \<Longrightarrow> FRAME_HEADER \<le> n \<and> n \<le> length bs"
  by (auto simp: framed_len_def usize_checked_add_def split: if_splits elim!: bind_SomeE)

lemma FRAME_HEADER_pos [simp]: "0 < FRAME_HEADER"
  by (simp add: FRAME_HEADER_def)

text \<open>
  The loop leaves the state at the first incomplete frame or foreign magic, and fails at a complete
  frame that does not open, contradicts an earlier one or commits what is not there.
\<close>

function scan_spool_loop ::
  "env \<Rightarrow> bytes \<Rightarrow> replica_spool_scan \<Rightarrow> spool_identity option \<Rightarrow> replica_spool_scan option" where
  "scan_spool_loop E bs scan identity =
     (if ss_valid_len scan < length bs then
        let rest = drop (ss_valid_len scan) bs in
        case framed_len rest of
          None \<Rightarrow> Some (scan\<lparr> ss_truncated_tail := True \<rparr>)
        | Some n \<Rightarrow>
            let frame = take n rest in
            if frame_magic frame = Some MAGIC_REPLICA_ARTIFACT then
              (case do { f \<leftarrow> open_artifact E frame; record_artifact f (scan, identity) } of
                 None \<Rightarrow> None
               | Some (scan', identity') \<Rightarrow>
                   scan_spool_loop E bs (scan'\<lparr> ss_valid_len := ss_valid_len scan + n \<rparr>) identity')
            else if frame_magic frame = Some MAGIC_REPLICA_COMMIT then
              (case do { c \<leftarrow> open_commit E frame; record_commit c (scan, identity) } of
                 None \<Rightarrow> None
               | Some (scan', identity') \<Rightarrow>
                   scan_spool_loop E bs (scan'\<lparr> ss_valid_len := ss_valid_len scan + n \<rparr>) identity')
            else Some (scan\<lparr> ss_truncated_tail := True \<rparr>)
      else Some scan)"
  by pat_completeness auto
termination
  by (relation "measure (\<lambda>(E, bs, scan, identity). length bs - ss_valid_len scan)")
    (auto dest!: framed_len_bounds simp: FRAME_HEADER_def)

declare scan_spool_loop.simps [simp del]

definition empty_spool_scan :: replica_spool_scan where
  "empty_spool_scan = \<lparr> ss_valid_len = 0, ss_truncated_tail = False, ss_artifacts = [],
     ss_uncommitted_artifacts = [], ss_commits = [] \<rparr>"

definition scan_replica_spool :: "env \<Rightarrow> bytes \<Rightarrow> replica_spool_scan option" where
  "scan_replica_spool E bs = scan_spool_loop E bs empty_spool_scan None"

section \<open>Frames open to what was sealed\<close>

lemma decode_artifact_iff [codec_simps]: "decode_artifact d = Some (a, r) \<longleftrightarrow> d = encode_artifact a @ r"
proof
  show "decode_artifact d = Some (a, r) \<Longrightarrow> d = encode_artifact a @ r"
    by (auto simp: decode_artifact_def encode_artifact_def codec_simps elim!: bind_SomeE)
qed (cases a, simp add: decode_artifact_def encode_artifact_def)

interpretation artifactc: codec encode_artifact decode_artifact "\<lambda>_. True"
  by unfold_locales (simp add: decode_artifact_iff)

lemmas [codec_simps] = artifactc.many_iff

lemma dec_enc_artifact [simp]:
  "decode_artifact (encode_artifact a @ r) = Some (a, r)"
  "dec_many decode_artifact (length as) (enc_many encode_artifact as @ r) = Some (as, r)"
  by (simp_all add: codec_simps list_all_iff)

lemma seal_verified_Returned:
  "seal_verified_replica_artifact E f = Returned bs \<longleftrightarrow>
   verify_artifact E (af_volume f) (af_artifact f) (af_bytes f) = Some () \<and> fits_u32 (length (af_bytes f)) \<and>
   open_frame E MAGIC_REPLICA_ARTIFACT bs = Some (enc_artifact_payload f)"
  by (auto simp: seal_verified_replica_artifact_def frame_open_seal split: option.splits)

lemma seal_commit_Returned:
  "seal_replica_commit E f = Returned bs \<longleftrightarrow>
   \<not> has_unordered_pair (cf_required f) \<and> verify_record E (cf_volume f) (cf_info f) (cf_record f) = Some () \<and>
   fits_u32 (length (cf_required f)) \<and> fits_u32 (length (cf_record f)) \<and>
   open_frame E MAGIC_REPLICA_COMMIT bs = Some (enc_commit_payload f)"
  by (auto simp: seal_replica_commit_def frame_open_seal split: option.splits)

lemma open_artifact_iff:
  "open_artifact E bs = Some f \<longleftrightarrow>
   seal_verified_replica_artifact E f = Returned bs \<and> af_checksum f = crc32c E (af_bytes f)"
proof
  assume "open_artifact E bs = Some f"
  then obtain n where
    fr: "open_frame E MAGIC_REPLICA_ARTIFACT bs = Some (enc_u16 2 @ enc_u32 (af_source f) @ enc_u64 (af_volume f) @
      enc_u64 (af_assignment_epoch f) @ encode_artifact (af_artifact f) @ enc_u32 (af_checksum f) @ enc_u32 n @ af_bytes f)"
    and n: "length (af_bytes f) = unat n"
    and ok: "verify_artifact E (af_volume f) (af_artifact f) (af_bytes f) = Some ()" "crc32c E (af_bytes f) = af_checksum f"
    by (clarsimp simp: open_artifact_def codec_simps elim!: bind_SomeE)
  have "n = of_nat (length (af_bytes f))" using n by simp
  then have "open_frame E MAGIC_REPLICA_ARTIFACT bs = Some (enc_artifact_payload f)"
    using fr by (simp add: enc_artifact_payload_def)
  moreover have "fits_u32 (length (af_bytes f))" using n by simp
  moreover note ok
  ultimately show "seal_verified_replica_artifact E f = Returned bs \<and> af_checksum f = crc32c E (af_bytes f)"
    by (simp add: seal_verified_Returned)
next
  assume "seal_verified_replica_artifact E f = Returned bs \<and> af_checksum f = crc32c E (af_bytes f)"
  then show "open_artifact E bs = Some f"
    by (cases f) (simp add: seal_verified_Returned open_artifact_def enc_artifact_payload_def unat_of_nat_u32)
qed

lemma open_commit_iff:
  "open_commit E bs = Some f \<longleftrightarrow> seal_replica_commit E f = Returned bs \<and> length (cf_required f) \<le> 1000000"
proof
  assume "open_commit E bs = Some f"
  then obtain n m where
    fr: "open_frame E MAGIC_REPLICA_COMMIT bs = Some (enc_u16 2 @ enc_u32 (cf_source f) @ enc_u64 (cf_volume f) @
      enc_u64 (cf_assignment_epoch f) @ enc_commit_info (cf_info f) @ enc_u32 n @
      enc_many encode_artifact (cf_required f) @ enc_u32 m @ cf_record f)"
    and nm: "length (cf_required f) = unat n" "length (cf_record f) = unat m" and le: "\<not> n > 1000000"
    and ok: "\<not> has_unordered_pair (cf_required f)" "verify_record E (cf_volume f) (cf_info f) (cf_record f) = Some ()"
    by (clarsimp simp: open_commit_def codec_simps elim!: bind_SomeE)
  have "n = of_nat (length (cf_required f))" "m = of_nat (length (cf_record f))" using nm by simp_all
  then have "open_frame E MAGIC_REPLICA_COMMIT bs = Some (enc_commit_payload f)"
    using fr by (simp add: enc_commit_payload_def)
  moreover have "length (cf_required f) \<le> 1000000" "fits_u32 (length (cf_required f))" "fits_u32 (length (cf_record f))"
    using le nm by (simp_all add: word_less_nat_alt not_less)
  moreover note ok
  ultimately show "seal_replica_commit E f = Returned bs \<and> length (cf_required f) \<le> 1000000"
    by (simp add: seal_commit_Returned)
next
  assume a: "seal_replica_commit E f = Returned bs \<and> length (cf_required f) \<le> 1000000"
  then have "\<not> (of_nat (length (cf_required f)) :: u32) > 1000000"
    by (simp add: seal_commit_Returned word_less_nat_alt not_less unat_of_nat_u32)
  then show "open_commit E bs = Some f"
    using a by (cases f) (simp add: seal_commit_Returned open_commit_def enc_commit_payload_def unat_of_nat_u32)
qed

section \<open>A scan never manufactures a commit\<close>

lemma commit_behind_linear:
  "\<not> commit_behind a b \<Longrightarrow> \<not> commit_behind b c \<Longrightarrow> \<not> commit_behind a c"
  unfolding commit_behind_def not_less by (rule order_trans)

text \<open>
  What a scan state promises: the artifacts are verified and keyed by themselves, everything comes
  from one source, volume and assignment, every commit's record was verified and its required
  artifacts are all present, the commits never step back in their sync watermark and sequence, and
  the uncommitted artifacts are exactly those no commit requires.
\<close>

definition artifact_frame_ok :: "env \<Rightarrow> spool_identity option \<Rightarrow> replica_artifact_frame \<Rightarrow> bool" where
  "artifact_frame_ok E identity f \<longleftrightarrow> identity = Some (af_source f, af_volume f, af_assignment_epoch f) \<and>
     af_checksum f = crc32c E (af_bytes f) \<and> verify_artifact E (af_volume f) (af_artifact f) (af_bytes f) = Some ()"

definition commit_frame_ok :: "env \<Rightarrow> spool_identity option \<Rightarrow> replica_commit_frame \<Rightarrow> bool" where
  "commit_frame_ok E identity c \<longleftrightarrow> identity = Some (cf_source c, cf_volume c, cf_assignment_epoch c) \<and>
     verify_record E (cf_volume c) (cf_info c) (cf_record c) = Some ()"

definition spool_ok :: "env \<Rightarrow> replica_spool_scan \<Rightarrow> spool_identity option \<Rightarrow> bool" where
  "spool_ok E scan identity \<longleftrightarrow>
     bm_ordered (<) (ss_artifacts scan) \<and>
     (\<forall>(a, f) \<in> set (ss_artifacts scan). af_artifact f = a \<and> artifact_frame_ok E identity f) \<and>
     (\<forall>c \<in> set (ss_commits scan). commit_frame_ok E identity c \<and> set (cf_required c) \<subseteq> set (bm_keys (ss_artifacts scan))) \<and>
     sorted_wrt (\<lambda>c d. \<not> commit_behind (cf_info d) (cf_info c)) (ss_commits scan) \<and>
     set (ss_uncommitted_artifacts scan) =
       set (bm_keys (ss_artifacts scan)) - (\<Union>c \<in> set (ss_commits scan). set (cf_required c))"

lemma spool_ok_empty: "spool_ok E empty_spool_scan None"
  by (simp add: spool_ok_def empty_spool_scan_def bm_keys_def linear.ordered_Nil)

lemma spool_ok_position [simp]:
  "spool_ok E (scan\<lparr> ss_valid_len := n \<rparr>) identity = spool_ok E scan identity"
  "spool_ok E (scan\<lparr> ss_truncated_tail := t \<rparr>) identity = spool_ok E scan identity"
  by (simp_all add: spool_ok_def)

lemma check_identity_cases:
  "check_identity identity incoming = Some identity' \<Longrightarrow> identity' = Some incoming \<and> (identity = None \<or> identity = Some incoming)"
  by (auto simp: check_identity_def split: option.splits if_splits)

lemma spool_ok_identity:
  assumes "spool_ok E scan identity" "check_identity identity incoming = Some identity'"
  shows "spool_ok E scan identity'"
proof (cases identity)
  case None
  then have "(a, f) \<notin> set (ss_artifacts scan)" "c \<notin> set (ss_commits scan)" for a f c
    using assms(1) by (auto simp: spool_ok_def artifact_frame_ok_def commit_frame_ok_def)
  then have "ss_artifacts scan = []" "ss_commits scan = []"
    by (metis list.set_intros(1) neq_Nil_conv surj_pair)+
  then show ?thesis using assms(1) by (simp add: spool_ok_def)
next
  case (Some i)
  with check_identity_cases [OF assms(2)] assms(1) show ?thesis by auto
qed

lemma record_artifact_ok:
  assumes "spool_ok E scan identity" "open_artifact E frame = Some f"
    and "record_artifact f (scan, identity) = Some (scan', identity')"
  shows "spool_ok E scan' identity'"
proof -
  from assms(3) obtain id where id: "check_identity identity (af_source f, af_volume f, af_assignment_epoch f) = Some identity'"
    by (auto simp: record_artifact_def elim!: bind_SomeE split: option.splits if_splits)
  have ok: "spool_ok E scan identity'" by (rule spool_ok_identity [OF assms(1) id])
  have f: "artifact_frame_ok E identity' f"
    using check_identity_cases [OF id] assms(2)
    by (simp add: artifact_frame_ok_def open_artifact_iff seal_verified_Returned)
  show ?thesis
  proof (cases "map_of (ss_artifacts scan) (af_artifact f)")
    case None
    then have new: "scan' = scan\<lparr> ss_uncommitted_artifacts := bs_insert (<) (af_artifact f) (ss_uncommitted_artifacts scan),
        ss_artifacts := bm_insert (<) (af_artifact f) f (ss_artifacts scan) \<rparr>"
      using assms(3) by (auto simp: record_artifact_def elim!: bind_SomeE)
    have fresh: "af_artifact f \<notin> set (bm_keys (ss_artifacts scan))"
      using None by (simp add: map_of_eq_None_iff bm_keys_def)
    have keys: "set (bm_keys (ss_artifacts scan')) = insert (af_artifact f) (set (bm_keys (ss_artifacts scan)))"
      by (simp add: new bm_keys_def linear.keys_insert)
    have "bm_ordered (<) (ss_artifacts scan')" using ok by (simp add: new spool_ok_def linear.ordered_insert)
    moreover have "\<forall>(a, g) \<in> set (ss_artifacts scan'). af_artifact g = a \<and> artifact_frame_ok E identity' g"
      using ok f by (auto simp: new linear.insert_fresh_set [OF None] spool_ok_def)
    moreover have "\<forall>c \<in> set (ss_commits scan'). commit_frame_ok E identity' c \<and> set (cf_required c) \<subseteq> set (bm_keys (ss_artifacts scan'))"
      using ok keys by (auto simp: new spool_ok_def)
    moreover have "set (ss_uncommitted_artifacts scan') =
       set (bm_keys (ss_artifacts scan')) - (\<Union>c \<in> set (ss_commits scan'). set (cf_required c))"
      using ok fresh unfolding keys by (auto simp: new spool_ok_def linear.set_bs_insert)
    ultimately show ?thesis using ok by (simp add: spool_ok_def new)
  next
    case (Some g)
    then have "scan' = scan" using assms(3) by (auto simp: record_artifact_def elim!: bind_SomeE split: if_splits)
    then show ?thesis using ok by simp
  qed
qed

lemma set_foldl_bs_remove: "set (foldl (\<lambda>s a. bs_remove a s) s as) = set s - set as"
  by (induction as arbitrary: s) auto

lemma record_commit_ok:
  assumes "spool_ok E scan identity" "open_commit E frame = Some c"
    and "record_commit c (scan, identity) = Some (scan', identity')"
  shows "spool_ok E scan' identity'"
proof -
  from assms(3) have id: "check_identity identity (cf_source c, cf_volume c, cf_assignment_epoch c) = Some identity'"
    and req: "set (cf_required c) \<subseteq> set (bm_keys (ss_artifacts scan))"
    and ahead: "\<And>p. last_commit scan = Some p \<Longrightarrow> \<not> commit_behind (cf_info c) (cf_info p)"
    and cases: "last_commit scan = Some c \<and> scan' = scan \<or>
      scan' = scan\<lparr> ss_uncommitted_artifacts := foldl (\<lambda>s a. bs_remove a s) (ss_uncommitted_artifacts scan) (cf_required c),
        ss_commits := ss_commits scan @ [c] \<rparr>"
    by (auto simp: record_commit_def list_ex_iff map_of_eq_None_iff bm_keys_def elim!: bind_SomeE split: if_splits)
  have ok: "spool_ok E scan identity'" by (rule spool_ok_identity [OF assms(1) id])
  from cases show ?thesis
  proof
    assume new: "scan' = scan\<lparr> ss_uncommitted_artifacts := foldl (\<lambda>s a. bs_remove a s) (ss_uncommitted_artifacts scan) (cf_required c),
        ss_commits := ss_commits scan @ [c] \<rparr>"
    have "commit_frame_ok E identity' c"
      using check_identity_cases [OF id] assms(2) by (simp add: commit_frame_ok_def open_commit_iff seal_commit_Returned)
    moreover have "\<not> commit_behind (cf_info c) (cf_info d)" if "d \<in> set (ss_commits scan)" for d
    proof -
      have "ss_commits scan \<noteq> []" using that by auto
      then obtain pre p where cs: "ss_commits scan = pre @ [p]" by (metis rev_exhaust)
      then have p: "\<not> commit_behind (cf_info c) (cf_info p)" using ahead [of p] by (simp add: last_commit_def)
      have "d = p \<or> \<not> commit_behind (cf_info p) (cf_info d)"
        using ok that by (auto simp: spool_ok_def cs sorted_wrt_append)
      then show ?thesis using p commit_behind_linear by blast
    qed
    moreover have "set (ss_uncommitted_artifacts scan') =
       set (bm_keys (ss_artifacts scan')) - (\<Union>c \<in> set (ss_commits scan'). set (cf_required c))"
      using ok by (auto simp: new spool_ok_def set_foldl_bs_remove)
    ultimately show ?thesis using ok req by (auto simp: spool_ok_def new sorted_wrt_append)
  qed (use ok in simp)
qed

lemma scan_spool_loop_ok:
  "scan_spool_loop E bs scan identity = Some result \<Longrightarrow> spool_ok E scan identity \<Longrightarrow>
   \<exists>identity'. spool_ok E result identity'"
proof (induction E bs scan identity rule: scan_spool_loop.induct)
  case (1 E bs scan identity)
  show ?case
  proof (cases "ss_valid_len scan < length bs")
    case False
    then show ?thesis using 1(3,4) by (auto simp: scan_spool_loop.simps [of E bs scan])
  next
    case True
    show ?thesis
    proof (cases "framed_len (drop (ss_valid_len scan) bs)")
      case None
      then show ?thesis using 1(3,4) True by (auto simp: scan_spool_loop.simps [of E bs scan])
    next
      case (Some n)
      let ?frame = "take n (drop (ss_valid_len scan) bs)"
      note IH = 1(1,2) [OF True refl Some refl]
      consider (art) "frame_magic ?frame = Some MAGIC_REPLICA_ARTIFACT"
        | (com) "frame_magic ?frame \<noteq> Some MAGIC_REPLICA_ARTIFACT" "frame_magic ?frame = Some MAGIC_REPLICA_COMMIT"
        | (other) "frame_magic ?frame \<noteq> Some MAGIC_REPLICA_ARTIFACT" "frame_magic ?frame \<noteq> Some MAGIC_REPLICA_COMMIT"
        by blast
      then show ?thesis
      proof cases
        case art
        then obtain f scan' identity' where st: "open_artifact E ?frame = Some f"
          "record_artifact f (scan, identity) = Some (scan', identity')"
          and rest: "scan_spool_loop E bs (scan'\<lparr> ss_valid_len := ss_valid_len scan + n \<rparr>) identity' = Some result"
          using 1(3) True Some
          by (auto simp: scan_spool_loop.simps [of E bs scan] Let_def bind_eq_Some_conv split: option.splits)
        have "do { f \<leftarrow> open_artifact E ?frame; record_artifact f (scan, identity) } = Some (scan', identity')"
          using st by simp
        from IH(1) [OF art this refl rest] record_artifact_ok [OF 1(4) st] show ?thesis by simp
      next
        case com
        then obtain c scan' identity' where st: "open_commit E ?frame = Some c"
          "record_commit c (scan, identity) = Some (scan', identity')"
          and rest: "scan_spool_loop E bs (scan'\<lparr> ss_valid_len := ss_valid_len scan + n \<rparr>) identity' = Some result"
          using 1(3) True Some
          by (auto simp: scan_spool_loop.simps [of E bs scan] Let_def bind_eq_Some_conv split: option.splits)
        have "do { c \<leftarrow> open_commit E ?frame; record_commit c (scan, identity) } = Some (scan', identity')"
          using st by simp
        from IH(2) [OF com this refl rest] record_commit_ok [OF 1(4) st] show ?thesis by simp
      next
        case other
        then show ?thesis using 1(3,4) True Some by (auto simp: scan_spool_loop.simps [of E bs scan] Let_def)
      qed
    qed
  qed
qed

text \<open>
  C12: A restart scan never manufactures a recovery point.  Whatever the spool file holds, when the
  scan succeeds every commit it reports has a verified journal record and all its required
  artifacts present and verified, everything is of one source, volume and assignment, the commits
  never step back, and the artifacts reported uncommitted are exactly those no commit covers.
\<close>

theorem spool_scan_sound:
  assumes "scan_replica_spool E bs = Some scan"
  shows "\<exists>identity. spool_ok E scan identity"
  using assms scan_spool_loop_ok [OF _ spool_ok_empty] by (simp add: scan_replica_spool_def)

section \<open>A scan replays the log\<close>

text \<open>The spool as its writer sees it: a sequence of artifacts and commit footers.\<close>

datatype spool_event = Artifact_Event replica_artifact_frame | Commit_Event replica_commit_frame

fun sealed_event :: "env \<Rightarrow> spool_event \<Rightarrow> bytes \<Rightarrow> bool" where
  "sealed_event E (Artifact_Event f) bs \<longleftrightarrow>
     seal_replica_artifact E (af_source f) (af_volume f) (af_assignment_epoch f) (af_artifact f) (af_bytes f) = Returned bs \<and>
     af_checksum f = crc32c E (af_bytes f)"
| "sealed_event E (Commit_Event c) bs \<longleftrightarrow> seal_replica_commit E c = Returned bs \<and> length (cf_required c) \<le> 1000000"

fun replay :: "spool_event list \<Rightarrow> replica_spool_scan \<times> spool_identity option \<Rightarrow>
    (replica_spool_scan \<times> spool_identity option) option" where
  "replay [] st = Some st"
| "replay (Artifact_Event f # evs) st = do { st \<leftarrow> record_artifact f st; replay evs st }"
| "replay (Commit_Event c # evs) st = do { st \<leftarrow> record_commit c st; replay evs st }"

text \<open>What a crash leaves of the frame being appended: a proper prefix.\<close>

definition torn_frame :: "env \<Rightarrow> bytes \<Rightarrow> bool" where
  "torn_frame E tail \<longleftrightarrow> (\<exists>m payload frame. seal_frame E m payload = Some frame \<and> (\<exists>n < length frame. tail = take n frame))"

lemma framed_len_sealed:
  assumes "seal_frame E m payload = Some frame"
  shows "framed_len (frame @ xs) = Some (length frame)" "frame_magic frame = Some m" "0 < length frame"
  using assms
  by (auto simp: frame_shape framed_len_def frame_magic_def FRAME_HEADER_def usize_checked_add_def usize_max_def
      unat_of_nat_u32 fits_u32_def)

lemma framed_len_torn:
  assumes "torn_frame E tail"
  shows "framed_len tail = None"
proof -
  from assms obtain m payload frame n where fr: "seal_frame E m payload = Some frame" "n < length frame" and tail: "tail = take n frame"
    by (auto simp: torn_frame_def)
  show ?thesis
  proof (cases "n < FRAME_HEADER")
    case True
    then have "length tail < FRAME_HEADER" by (simp add: tail min_less_iff_disj)
    then show ?thesis by (simp add: framed_len_def)
  next
    case False
    from fr(1) have fits: "fits_u32 (length payload)"
      and frame: "frame = enc_u32 m @ enc_u32 (of_nat (length payload)) @ enc_u32 (crc32c E payload) @ payload"
      by (simp_all add: frame_shape)
    then have "drop 4 tail = enc_u32 (of_nat (length payload)) @ take (n - 8) (enc_u32 (crc32c E payload) @ payload)"
      using False by (simp add: tail FRAME_HEADER_def)
    then show ?thesis
      using False fr(2) fits frame
      by (auto simp: framed_len_def tail FRAME_HEADER_def usize_checked_add_def unat_of_nat_u32 split: if_splits)
  qed
qed

lemma record_position:
  "record_artifact f (scan\<lparr> ss_valid_len := n \<rparr>, identity) =
   map_option (\<lambda>(s, i). (s\<lparr> ss_valid_len := n \<rparr>, i)) (record_artifact f (scan, identity))"
  "record_commit c (scan\<lparr> ss_valid_len := n \<rparr>, identity) =
   map_option (\<lambda>(s, i). (s\<lparr> ss_valid_len := n \<rparr>, i)) (record_commit c (scan, identity))"
  by (auto simp: record_artifact_def record_commit_def last_commit_def split: option.splits bind_split)

lemma replay_position:
  "replay evs (scan\<lparr> ss_valid_len := n \<rparr>, identity) =
   map_option (\<lambda>(s, i). (s\<lparr> ss_valid_len := n \<rparr>, i)) (replay evs (scan, identity))"
proof (induction evs arbitrary: scan identity)
  case (Cons ev evs)
  then show ?case by (cases ev) (auto simp: record_position split: bind_split option.splits)
qed simp

lemma sealed_event_frame:
  assumes "sealed_event E ev bs"
  obtains m payload where "seal_frame E m payload = Some bs"
proof (cases ev)
  case (Artifact_Event f)
  with assms that show ?thesis by (auto simp: seal_replica_artifact_def seal_verified_Returned frame_open_seal)
next
  case (Commit_Event c)
  with assms that show ?thesis by (auto simp: seal_commit_Returned frame_open_seal)
qed

lemma scan_spool_step:
  assumes "sealed_event E ev fr" "ss_valid_len scan = length pre"
  shows "scan_spool_loop E (pre @ fr @ post) scan identity =
    Option.bind (replay [ev] (scan, identity))
      (\<lambda>(scan', identity'). scan_spool_loop E (pre @ fr @ post) (scan'\<lparr> ss_valid_len := length pre + length fr \<rparr>) identity')"
proof -
  have neq: "MAGIC_REPLICA_COMMIT \<noteq> MAGIC_REPLICA_ARTIFACT"
    by (simp add: MAGIC_REPLICA_COMMIT_def MAGIC_REPLICA_ARTIFACT_def magic_def)
  have "\<exists>m payload. seal_frame E m payload = Some fr" using assms(1) by (rule sealed_event_frame) blast
  then have fl: "framed_len (fr @ post) = Some (length fr)" "0 < length fr" using framed_len_sealed by blast+
  show ?thesis
  proof (cases ev)
    case (Artifact_Event f)
    let ?g = "\<lparr> af_source = af_source f, af_volume = af_volume f, af_assignment_epoch = af_assignment_epoch f,
        af_artifact = af_artifact f, af_checksum = crc32c E (af_bytes f), af_bytes = af_bytes f \<rparr>"
    have "?g = f" using assms(1) Artifact_Event by (cases f) simp
    then have "open_artifact E fr = Some f"
      using assms(1) Artifact_Event by (simp add: seal_replica_artifact_def open_artifact_iff)
    moreover have "frame_magic fr = Some MAGIC_REPLICA_ARTIFACT"
      using assms(1) Artifact_Event framed_len_sealed(2)
      by (auto simp: seal_replica_artifact_def seal_verified_Returned frame_open_seal)
    ultimately show ?thesis
      using fl assms(2) Artifact_Event
      by (subst scan_spool_loop.simps) (auto simp: Let_def split: option.splits bind_split)
  next
    case (Commit_Event c)
    then have "open_commit E fr = Some c" using assms(1) by (simp add: open_commit_iff)
    moreover have "frame_magic fr = Some MAGIC_REPLICA_COMMIT"
      using assms(1) Commit_Event framed_len_sealed(2) by (auto simp: seal_commit_Returned frame_open_seal)
    ultimately show ?thesis
      using fl assms(2) Commit_Event neq
      by (subst scan_spool_loop.simps) (auto simp: Let_def split: option.splits bind_split)
  qed
qed

lemma scan_spool_tail:
  assumes "torn_frame E tail" "ss_valid_len scan = length pre"
  shows "scan_spool_loop E (pre @ tail) scan identity =
    Some (if tail = [] then scan else scan\<lparr> ss_truncated_tail := True \<rparr>)"
  using framed_len_torn [OF assms(1)] assms(2) by (subst scan_spool_loop.simps) (auto simp: Let_def)

lemma replay_bind: "replay (ev # evs) st = do { st' \<leftarrow> replay [ev] st; replay evs st' }"
  by (cases ev) (simp_all split: bind_split)

text \<open>The state a scan ends in after the complete frames, \<open>n\<close> bytes of them.\<close>

definition ended_at :: "bytes \<Rightarrow> nat \<Rightarrow> replica_spool_scan \<Rightarrow> replica_spool_scan" where
  "ended_at tail n s = (if tail = [] then s else s\<lparr> ss_truncated_tail := True \<rparr>)\<lparr> ss_valid_len := n \<rparr>"

lemma ended_at_position [simp]: "ended_at tail n (s\<lparr> ss_valid_len := m \<rparr>) = ended_at tail n s"
  by (simp add: ended_at_def)

lemma scan_spool_replays:
  assumes "list_all2 (sealed_event E) evs frames" "torn_frame E tail" "ss_valid_len scan = length pre"
  shows "scan_spool_loop E (pre @ concat frames @ tail) scan identity =
    map_option (\<lambda>(s, _). ended_at tail (length pre + length (concat frames)) s) (replay evs (scan, identity))"
  using assms(1,3)
proof (induction evs frames arbitrary: pre scan identity rule: list_all2_induct)
  case Nil
  then show ?case using scan_spool_tail [OF assms(2)] by (cases scan) (auto simp: ended_at_def)
next
  case (Cons ev evs fr frames)
  let ?n = "length pre + length (concat (fr # frames))"
  have "scan_spool_loop E (pre @ concat (fr # frames) @ tail) scan identity =
    Option.bind (replay [ev] (scan, identity))
      (\<lambda>(s, i). scan_spool_loop E (pre @ concat (fr # frames) @ tail) (s\<lparr> ss_valid_len := length pre + length fr \<rparr>) i)"
    using scan_spool_step [OF Cons.hyps(1) Cons.prems, of "concat frames @ tail"] by simp
  also have "\<dots> = Option.bind (replay [ev] (scan, identity))
      (\<lambda>(s, i). map_option (\<lambda>(s, _). ended_at tail ?n s) (replay evs (s, i)))"
  proof (rule arg_cong [where f = "Option.bind (replay [ev] (scan, identity))"], rule ext, clarify)
    fix s i
    show "scan_spool_loop E (pre @ concat (fr # frames) @ tail) (s\<lparr> ss_valid_len := length pre + length fr \<rparr>) i =
      map_option (\<lambda>(s, _). ended_at tail ?n s) (replay evs (s, i))"
      using Cons.IH [of "s\<lparr> ss_valid_len := length pre + length fr \<rparr>" "pre @ fr" i]
      by (simp add: replay_position option.map_comp comp_def split_def add.assoc)
  qed
  also have "\<dots> = map_option (\<lambda>(s, _). ended_at tail ?n s) (replay (ev # evs) (scan, identity))"
    by (simp only: replay_bind [of ev evs]) (auto split: bind_split)
  finally show ?case .
qed

lemma record_truncated:
  "record_artifact f (s, i) = Some (s', i') \<Longrightarrow> ss_truncated_tail s' = ss_truncated_tail s"
  "record_commit c (s, i) = Some (s', i') \<Longrightarrow> ss_truncated_tail s' = ss_truncated_tail s"
  by (auto simp: record_artifact_def record_commit_def split: option.splits if_splits elim!: bind_SomeE)

lemma replay_truncated: "replay evs (s, i) = Some (s', i') \<Longrightarrow> ss_truncated_tail s' = ss_truncated_tail s"
proof (induction evs arbitrary: s i)
  case (Cons ev evs)
  then show ?case by (cases ev) (auto elim!: bind_SomeE dest!: record_truncated)
qed simp

text \<open>
  C11: A scan replays the log, and a crash costs at most the frame it tore.  Over the frames of a
  sequence of artifacts and commits, followed by any proper prefix of one more frame, the scan
  yields exactly the state of recording that sequence, ends where the complete frames end, and
  reports a torn tail exactly when there is one.
\<close>

theorem spool_scan_replays_log:
  assumes "list_all2 (sealed_event E) evs frames" "torn_frame E tail"
  shows "scan_replica_spool E (concat frames @ tail) =
    map_option (\<lambda>(s, _). s\<lparr> ss_truncated_tail := tail \<noteq> [], ss_valid_len := length (concat frames) \<rparr>)
      (replay evs (empty_spool_scan, None))"
proof -
  have eq: "ended_at tail n s = s\<lparr> ss_truncated_tail := tail \<noteq> [], ss_valid_len := n \<rparr>"
    if "replay evs (empty_spool_scan, None) = Some (s, i)" for n s i
    using replay_truncated [OF that] by (cases s) (simp add: ended_at_def empty_spool_scan_def)
  have "scan_replica_spool E (concat frames @ tail) =
      map_option (\<lambda>(s, _). ended_at tail (length (concat frames)) s) (replay evs (empty_spool_scan, None))"
    using scan_spool_replays [OF assms, of empty_spool_scan "[]" None]
    by (simp add: scan_replica_spool_def) (simp add: empty_spool_scan_def)
  also have "\<dots> = map_option (\<lambda>(s, _). s\<lparr> ss_truncated_tail := tail \<noteq> [], ss_valid_len := length (concat frames) \<rparr>)
      (replay evs (empty_spool_scan, None))"
    using eq by (cases "replay evs (empty_spool_scan, None)") auto
  finally show ?thesis .
qed

section \<open>A concrete spool\<close>

lemma demo_capture:
  obtains oid bs locs where "scan_page_file demo_env bs = Some (7, 2, oid, locs)" "fits_u32 (length bs + 64)"
proof -
  obtain obj where obj: "encode_object demo_env demo_meta 40 0 1 demo_entries = Some obj"
    using demo_object by blast
  have "bm_min_seq demo_meta \<le> bm_max_seq demo_meta" "(0 :: u32) < 1" by (simp_all add: demo_meta_def)
  note scan = scan_encoded_object(1) [OF obj demo_chunk_ok this demo_env_lz4(1)]
  have "bo_header obj = object_header demo_env demo_meta 40 0 1 demo_entries" "length (bo_bytes obj) \<le> MAX_FILE_BYTES"
    using encode_object_shape [OF obj] by metis+
  with scan have "scan_page_file demo_env (bo_bytes obj) =
      Some (7, 2, 40, page_locations 7 2 40 (bo_footer obj))" "fits_u32 (length (bo_bytes obj) + 64)"
    by (simp_all add: scan_page_file_def scan_locations_total Let_def object_header_def demo_meta_def fits_u32_def
        MAX_FILE_BYTES_def)
  then show ?thesis by (rule that)
qed

definition demo_commit_frame :: "object_id \<Rightarrow> bytes \<Rightarrow> replica_commit_frame" where
  "demo_commit_frame oid bs = \<lparr> cf_source = 1, cf_volume = 7, cf_assignment_epoch = 5,
     cf_info = journal_commit_info demo_journal, cf_required = [Blx_Artifact 2 oid], cf_record = bs \<rparr>"

definition demo_artifact_frame :: "object_id \<Rightarrow> bytes \<Rightarrow> replica_artifact_frame" where
  "demo_artifact_frame oid bs = \<lparr> af_source = 1, af_volume = 7, af_assignment_epoch = 5,
     af_artifact = Blx_Artifact 2 oid, af_checksum = crc32c demo_env bs, af_bytes = bs \<rparr>"

lemma demo_journal_record:
  obtains rec where "journal_decode demo_env 7 rec = Some demo_journal" "length rec \<le> 200"
proof -
  obtain rec where rec: "journal_encode demo_env 7 demo_journal = Some rec" using demo_journal_encodes by blast
  then have "length rec \<le> 200"
    by (auto simp: journal_encode_def frame_shape demo_journal_def enc_journal_payload_def enc_record_kind_def
        enc_migrated_from_def enc_many_def elim!: bind_SomeE)
  moreover have "journal_decode demo_env 7 rec = Some demo_journal"
    using rec demo_journal_fields demo_env_page_size by (simp add: journal_decode_iff validate_page_size_def)
  ultimately show ?thesis by (rule that [rotated])
qed

lemma demo_spool:
  obtains c f fa fc where "sealed_event demo_env (Artifact_Event f) fa" "sealed_event demo_env (Commit_Event c) fc"
    "torn_frame demo_env (take 5 fa)" "take 5 fa \<noteq> []"
    "\<exists>s i. replay [Artifact_Event f, Commit_Event c] (empty_spool_scan, None) = Some (s, i) \<and> ss_commits s = [c]"
proof -
  obtain oid bs locs where obj: "scan_page_file demo_env bs = Some (7, 2, oid, locs)" "fits_u32 (length bs + 64)"
    by (rule demo_capture)
  obtain rec where rec: "journal_decode demo_env 7 rec = Some demo_journal" "length rec \<le> 200"
    by (rule demo_journal_record)
  let ?f = "demo_artifact_frame oid bs" and ?c = "demo_commit_frame oid rec"
  have fits: "fits_u32 (length bs)" "fits_u32 (length (enc_artifact_payload ?f))" "fits_u32 (length (enc_commit_payload ?c))"
    using obj(2) rec(2)
    by (simp_all add: fits_u32_def enc_artifact_payload_def enc_commit_payload_def demo_artifact_frame_def
        demo_commit_frame_def encode_artifact_def enc_many_def enc_commit_info_def)
  obtain fa where fa: "seal_frame demo_env MAGIC_REPLICA_ARTIFACT (enc_artifact_payload ?f) = Some fa"
    using fits(2) by (simp add: seal_frame_def)
  obtain fc where fc: "seal_frame demo_env MAGIC_REPLICA_COMMIT (enc_commit_payload ?c) = Some fc"
    using fits(3) by (simp add: seal_frame_def)
  have "sealed_event demo_env (Artifact_Event ?f) fa"
    using fa obj fits(1)
    by (simp add: seal_replica_artifact_def seal_verified_Returned frame_open_seal demo_artifact_frame_def verify_artifact_def)
  moreover have "sealed_event demo_env (Commit_Event ?c) fc"
    using fc rec by (simp add: seal_commit_Returned frame_open_seal demo_commit_frame_def verify_record_def
        journal_commit_info_def fits_u32_def)
  moreover have "5 < length fa" using seal_frame_length [OF fa] by (simp add: FRAME_HEADER_def)
  then have "torn_frame demo_env (take 5 fa)" "take 5 fa \<noteq> []" using fa by (auto simp: torn_frame_def)
  moreover have "\<exists>s i. replay [Artifact_Event ?f, Commit_Event ?c] (empty_spool_scan, None) = Some (s, i) \<and> ss_commits s = [?c]"
    by (simp add: record_artifact_def record_commit_def check_identity_def empty_spool_scan_def last_commit_def
        demo_artifact_frame_def demo_commit_frame_def)
  ultimately show ?thesis by (rule that)
qed

theorem spool_scan_replays_log_witness:
  "\<exists>bs scan c. scan_replica_spool demo_env bs = Some scan \<and> ss_commits scan = [c] \<and> ss_truncated_tail scan"
proof -
  obtain c f fa fc where ev: "sealed_event demo_env (Artifact_Event f) fa" "sealed_event demo_env (Commit_Event c) fc"
    and torn: "torn_frame demo_env (take 5 fa)" "take 5 fa \<noteq> []"
    and re: "\<exists>s i. replay [Artifact_Event f, Commit_Event c] (empty_spool_scan, None) = Some (s, i) \<and> ss_commits s = [c]"
    by (rule demo_spool)
  have "list_all2 (sealed_event demo_env) [Artifact_Event f, Commit_Event c] [fa, fc]" using ev by simp
  from spool_scan_replays_log [OF this torn(1)] re torn(2) show ?thesis by fastforce
qed

theorem spool_scan_sound_witness:
  "\<exists>bs scan identity. scan_replica_spool demo_env bs = Some scan \<and> ss_commits scan \<noteq> [] \<and> spool_ok demo_env scan identity"
proof -
  obtain c f fa fc where ev: "sealed_event demo_env (Artifact_Event f) fa" "sealed_event demo_env (Commit_Event c) fc"
    and torn: "torn_frame demo_env (take 5 fa)"
    and re: "\<exists>s i. replay [Artifact_Event f, Commit_Event c] (empty_spool_scan, None) = Some (s, i) \<and> ss_commits s = [c]"
    by (rule demo_spool)
  have "list_all2 (sealed_event demo_env) [Artifact_Event f, Commit_Event c] [fa, fc]" using ev by simp
  from scan_spool_replays [OF this torn, of empty_spool_scan "[]" None] re
  obtain scan where "scan_replica_spool demo_env (concat [fa, fc] @ take 5 fa) = Some scan" "ss_commits scan = [c]"
    by (auto simp: scan_replica_spool_def empty_spool_scan_def ended_at_def)
  then show ?thesis using spool_scan_sound by fastforce
qed

end
