(* ===== verification/Replica_Recovery.thy ===== *)
theory Replica_Recovery
  imports Replica_Spool "HOL-Library.List_Lexorder" "HOL-Library.Char_ord"
begin

text \<open>
  Recovery of a lost primary from its passive spools (\<^verbatim>\<open>crates/core/src/replica_recovery.rs\<close>) and
  the resume/cold-boot policy (\<^verbatim>\<open>engine/recovery_policy.rs\<close>): choosing the newest committed
  residue that the head authorises, exporting its closure, claiming, refencing and publishing it.

  \<^verbatim>\<open>ReplicaRecoveryError\<close> is a datatype; encoders that assert make some functions three-valued.
\<close>

section \<open>Resume or cold boot\<close>

datatype verdict = Resume (vd_epoch: epoch_id) (vd_vmstate: u64) | Cold_Boot | Unrestorable

definition record_verdict :: "journal_record \<Rightarrow> verdict" where
  "record_verdict r =
     (case jr_kind r of
        Checkpoint epoch vmstate _ \<Rightarrow>
          if vc_kind (jr_config r) = VK_Memory \<and> jr_capture_seq r \<ge> jr_sync_covered_through r
          then Resume epoch vmstate else Cold_Boot
      | Commit \<Rightarrow> Cold_Boot)"

definition recovery_metadata :: "journal_record \<Rightarrow> recovery_kind \<times> epoch_id \<times> u64" where
  "recovery_metadata r =
     (case jr_kind r of
        Checkpoint epoch _ len \<Rightarrow>
          if vc_kind (jr_config r) = VK_Memory \<and> (case record_verdict r of Resume _ _ \<Rightarrow> True | _ \<Rightarrow> False)
          then (RK_Whole, epoch, len) else (RK_Disk_Only, 0, 0)
      | Commit \<Rightarrow> (RK_Disk_Only, 0, 0))"

definition manifest_verdict :: "recovery_kind \<Rightarrow> epoch_id \<Rightarrow> u64 \<Rightarrow> verdict \<times> record_kind" where
  "manifest_verdict kind epoch vmstate =
     (case kind of
        RK_Whole \<Rightarrow> (Resume epoch vmstate, Checkpoint epoch vmstate vmstate)
      | RK_Disk_Only \<Rightarrow> (Cold_Boot, Commit))"

section \<open>Data\<close>

record replica_residue =
  re_source :: host_id
  re_peer :: host_id
  re_assignment_epoch :: u64
  re_bytes :: bytes

record replica_inventory =
  in_peer :: host_id
  in_assignment_epoch :: u64
  in_committed :: "commit_info option"
  in_valid_bytes :: nat
  in_torn_tail :: bool

record replica_export =
  ex_source_peer :: host_id
  ex_assignment_epoch :: u64
  ex_info :: commit_info
  ex_sync_covered_through :: u64
  ex_blobs :: "(string \<times> bytes) list"

record replica_recovery_claim =
  rc_expected_version :: u64
  rc_head :: head_record

record replica_publication =
  rp_export :: replica_export
  rp_store_objects :: "(string \<times> bytes) list"
  rp_head :: head_record

datatype recovery_error =
    No_Assignment
  | Unnamed_Peer host_id
  | Stale_Assignment host_id u64
  | Corrupt_Spool host_id
  | No_Commit
  | Store_Recovery_Point_Newer
  | Missing_Object string
  | Corrupt_Object string

type_synonym 'a recovery_result = "(recovery_error, 'a) outcome"

text \<open>\<^verbatim>\<open>map_err(|_| e)?\<close> of a call that may also panic.\<close>

definition map_err :: "'e \<Rightarrow> ('d, 'a) outcome \<Rightarrow> ('e, 'a) outcome" where
  "map_err e x = (case x of Returned v \<Rightarrow> Returned v | Failed _ \<Rightarrow> Failed e | Panicked \<Rightarrow> Panicked)"

lemma map_err_results [simp]:
  "map_err e x = Returned v \<longleftrightarrow> x = Returned v" "map_err e x = Panicked \<longleftrightarrow> x = Panicked"
  by (simp_all add: map_err_def split: outcome.splits)

section \<open>Choosing and exporting a residue\<close>

definition allow_epoch ::
  "host_id \<Rightarrow> u64 \<Rightarrow> (host_id, u64 btree_set) btree_map \<Rightarrow> (host_id, u64 btree_set) btree_map" where
  "allow_epoch peer epoch m =
     bm_insert (<) peer (bs_insert (<) epoch (case map_of m peer of None \<Rightarrow> [] | Some s \<Rightarrow> s)) m"

definition allowed_replica_epochs :: "head_record \<Rightarrow> stash_assignment \<Rightarrow> (host_id, u64 btree_set) btree_map" where
  "allowed_replica_epochs head assignment =
     (let allowed = allow_epoch (sa_active_peer assignment) (sa_active_assignment_epoch assignment) [];
          allowed = (case sa_transition_peer assignment of
                       None \<Rightarrow> allowed
                     | Some peer \<Rightarrow> allow_epoch peer (sa_assignment_epoch assignment) allowed)
      in foldl (\<lambda>m retired. allow_epoch (rs_peer retired) (rs_assignment_epoch retired) m) allowed
           (hd_retired_stashes head))"

definition scan_identity_ok :: "host_id \<Rightarrow> volume_id \<Rightarrow> replica_residue \<Rightarrow> replica_spool_scan \<Rightarrow> bool" where
  "scan_identity_ok source volume residue scan \<longleftrightarrow>
     re_source residue = source \<and>
     list_all (\<lambda>f. af_source f = re_source residue \<and> af_volume f = volume \<and>
       af_assignment_epoch f = re_assignment_epoch residue) (bm_values (ss_artifacts scan)) \<and>
     list_all (\<lambda>c. cf_source c = re_source residue \<and> cf_volume c = volume \<and>
       cf_assignment_epoch c = re_assignment_epoch residue) (ss_commits scan)"

definition verify_scan_identity ::
  "host_id \<Rightarrow> volume_id \<Rightarrow> replica_residue \<Rightarrow> replica_spool_scan \<Rightarrow> unit recovery_result" where
  "verify_scan_identity source volume residue scan =
     (if scan_identity_ok source volume residue scan then Returned () else Failed (Corrupt_Spool (re_peer residue)))"

definition inventory_replica ::
  "env \<Rightarrow> host_id \<Rightarrow> volume_id \<Rightarrow> replica_residue \<Rightarrow> replica_inventory recovery_result" where
  "inventory_replica E source volume residue =
     outcome_bind (or_fail (Corrupt_Spool (re_peer residue)) (scan_replica_spool E (re_bytes residue))) (\<lambda>scan.
     outcome_bind (verify_scan_identity source volume residue scan) (\<lambda>_.
     Returned \<lparr> in_peer = re_peer residue, in_assignment_epoch = re_assignment_epoch residue,
                in_committed = map_option cf_info (last_commit scan), in_valid_bytes = ss_valid_len scan,
                in_torn_tail = ss_truncated_tail scan \<rparr>))"

definition artifact_bytes ::
  "replica_spool_scan \<Rightarrow> replica_artifact \<Rightarrow> string \<Rightarrow> (string, bytes) btree_map \<Rightarrow> bytes recovery_result" where
  "artifact_bytes scan artifact store_key store_objects =
     (case map_of (ss_artifacts scan) artifact of
        Some f \<Rightarrow> Returned (af_bytes f)
      | None \<Rightarrow> or_fail (Missing_Object store_key) (map_of store_objects store_key))"

definition blx_intact :: "env \<Rightarrow> volume_id \<Rightarrow> u64 \<Rightarrow> object_id \<Rightarrow> bytes \<Rightarrow> bool" where
  "blx_intact E volume fence ob bs =
     (case scan_page_file E bs of
        None \<Rightarrow> False
      | Some (got_volume, got_fence, got_object, _) \<Rightarrow> (got_volume, got_fence, got_object) = (volume, fence, ob))"

fun export_blx_files ::
  "env \<Rightarrow> volume_id \<Rightarrow> replica_spool_scan \<Rightarrow> (string, bytes) btree_map \<Rightarrow> object_identity list \<Rightarrow>
   (string, bytes) btree_map \<Rightarrow> (string, bytes) btree_map recovery_result" where
  "export_blx_files E volume scan store_objects [] blobs = Returned blobs"
| "export_blx_files E volume scan store_objects (i # is) blobs =
     (let fence = oi_writer_fence i; ob = oi_object_id i; key = blx_key volume fence ob in
      outcome_bind (artifact_bytes scan (Blx_Artifact fence ob) key store_objects) (\<lambda>bs.
        if blx_intact E volume fence ob bs
        then export_blx_files E volume scan store_objects is (bm_insert (<) (blx_blob volume fence ob) bs blobs)
        else Failed (Corrupt_Object key)))"

definition needed_blx_files :: "volume_id \<Rightarrow> journal_record \<Rightarrow> object_identity btree_set" where
  "needed_blx_files volume r =
     foldl (\<lambda>s i. bs_insert identity_less i s) []
       (map or_identity (filter (\<lambda>f. oi_namespace_kind (or_identity f) = NS_Volume \<and>
          oi_namespace_id (or_identity f) = volume) (jr_files r)))"

definition export_commit ::
  "env \<Rightarrow> volume_id \<Rightarrow> replica_residue \<Rightarrow> replica_spool_scan \<Rightarrow> replica_commit_frame \<Rightarrow>
   (string, bytes) btree_map \<Rightarrow> replica_export recovery_result" where
  "export_commit E volume residue scan commit store_objects =
     outcome_bind (or_fail (Corrupt_Spool (re_peer residue)) (journal_decode E volume (cf_record commit))) (\<lambda>r.
     outcome_bind (export_blx_files E volume scan store_objects (needed_blx_files volume r) []) (\<lambda>blobs.
     let blobs = bm_insert (<) (journal_blob volume (jr_fence r) (jr_seq r)) (cf_record commit) blobs;
         blobs = bm_insert (<) (journal_mirror_blob volume (jr_fence r) (jr_seq r)) (cf_record commit) blobs
     in Returned \<lparr> ex_source_peer = re_peer residue, ex_assignment_epoch = re_assignment_epoch residue,
                   ex_info = cf_info commit, ex_sync_covered_through = ci_sync_covered_through (cf_info commit),
                   ex_blobs = blobs \<rparr>))"

type_synonym recovery_rank = "u64 \<times> u64 \<times> journal_seq"
type_synonym recovery_candidate = "recovery_rank \<times> replica_residue \<times> replica_spool_scan"

definition commit_recovery_rank :: "replica_commit_frame \<Rightarrow> journal_record \<Rightarrow> recovery_rank" where
  "commit_recovery_rank c r = (ci_sync_covered_through (cf_info c), jr_capture_seq r, ci_seq (cf_info c))"

definition residue_named :: "(host_id, u64 btree_set) btree_map \<Rightarrow> replica_residue \<Rightarrow> bool" where
  "residue_named allowed residue =
     (case map_of allowed (re_peer residue) of None \<Rightarrow> False | Some epochs \<Rightarrow> re_assignment_epoch residue \<in> set epochs)"

text \<open>One turn of the loop over the residues: an error, no candidate, or a candidate.\<close>

definition consider_residue ::
  "env \<Rightarrow> host_id \<Rightarrow> volume_id \<Rightarrow> u64 \<Rightarrow> head_record \<Rightarrow> stash_assignment \<Rightarrow> (host_id, u64 btree_set) btree_map \<Rightarrow>
   replica_residue \<Rightarrow> recovery_candidate option recovery_result" where
  "consider_residue E source volume head_version head assignment allowed residue =
     (let named = residue_named allowed residue;
          possible_offline_replacement = re_assignment_epoch residue > sa_assignment_epoch assignment;
          stale = Stale_Assignment (re_peer residue) (re_assignment_epoch residue) in
      if \<not> named \<and> \<not> possible_offline_replacement then
        (if map_of allowed (re_peer residue) \<noteq> None then Failed stale else Failed (Unnamed_Peer (re_peer residue)))
      else
        outcome_bind (or_fail (Corrupt_Spool (re_peer residue)) (scan_replica_spool E (re_bytes residue))) (\<lambda>scan.
        outcome_bind (verify_scan_identity source volume residue scan) (\<lambda>_.
        case last_commit scan of
          Some commit \<Rightarrow>
            outcome_bind (or_fail (Corrupt_Spool (re_peer residue)) (journal_decode E volume (cf_record commit))) (\<lambda>r.
              if \<not> named \<and> (hd_holder head \<noteq> source \<or> ci_writer_fence (cf_info commit) \<noteq> head_version \<or>
                   jr_fence r \<noteq> head_version \<or> jr_seq r \<noteq> ci_seq (cf_info commit) \<or>
                   jr_sync_covered_through r \<noteq> ci_sync_covered_through (cf_info commit))
              then Failed stale
              else Returned (Some (commit_recovery_rank commit r, residue, scan)))
        | None \<Rightarrow> if \<not> named then Failed stale else Returned None)))"

fun gather_candidates ::
  "env \<Rightarrow> host_id \<Rightarrow> volume_id \<Rightarrow> u64 \<Rightarrow> head_record \<Rightarrow> stash_assignment \<Rightarrow> (host_id, u64 btree_set) btree_map \<Rightarrow>
   replica_residue list \<Rightarrow> recovery_candidate list recovery_result" where
  "gather_candidates E source volume v head assignment allowed [] = Returned []"
| "gather_candidates E source volume v head assignment allowed (residue # rs) =
     outcome_bind (consider_residue E source volume v head assignment allowed residue) (\<lambda>c.
     outcome_bind (gather_candidates E source volume v head assignment allowed rs) (\<lambda>cs.
     Returned (case c of None \<Rightarrow> cs | Some c \<Rightarrow> c # cs)))"

definition check_store_point ::
  "env \<Rightarrow> volume_id \<Rightarrow> head_record \<Rightarrow> replica_residue \<Rightarrow> replica_commit_frame \<Rightarrow> (string, bytes) btree_map \<Rightarrow>
   unit recovery_result" where
  "check_store_point E volume head residue commit store_objects =
     (case hd_manifest head of
        None \<Rightarrow> Returned ()
      | Some ptr \<Rightarrow>
          let key = ptr_manifest_key ptr volume in
          outcome_bind (or_fail (Missing_Object key) (map_of store_objects key)) (\<lambda>bs.
            if checksum64 E bs \<noteq> mp_checksum ptr then Failed (Corrupt_Object key)
            else outcome_bind (or_fail (Corrupt_Object key) (manifest_decode E volume bs)) (\<lambda>m.
              if (mf_writer_fence m, mf_archive_seq m, mf_capture_seq m) \<noteq> (mp_fence ptr, mp_seq ptr, mp_capture_seq ptr)
              then Failed (Corrupt_Object key)
              else outcome_bind (or_fail (Corrupt_Spool (re_peer residue)) (journal_decode E volume (cf_record commit))) (\<lambda>r.
                if commit_recovery_rank commit r < (mf_sync_covered_through m, mf_capture_seq m, mf_archive_seq m)
                then Failed Store_Recovery_Point_Newer else Returned ()))))"

definition export_replica_recovery ::
  "env \<Rightarrow> host_id \<Rightarrow> volume_id \<Rightarrow> u64 \<Rightarrow> head_record \<Rightarrow> replica_residue list \<Rightarrow> (string, bytes) btree_map \<Rightarrow>
   replica_export recovery_result" where
  "export_replica_recovery E source volume head_version head residues store_objects =
     outcome_bind (or_fail No_Assignment (hd_stash head)) (\<lambda>assignment.
     outcome_bind (gather_candidates E source volume head_version head assignment
       (allowed_replica_epochs head assignment) residues) (\<lambda>candidates.
     let sorted = sort_key fst candidates in
     if sorted = [] then Failed No_Commit
     else case last sorted of (_, residue, scan) \<Rightarrow>
       outcome_bind (or_panic (last_commit scan)) (\<lambda>commit.
       outcome_bind (check_store_point E volume head residue commit store_objects) (\<lambda>_.
       export_commit E volume residue scan commit store_objects))))"

section \<open>Claiming, refencing and publishing\<close>

definition prepare_replica_recovery_claim ::
  "u64 \<Rightarrow> head_record \<Rightarrow> host_id \<Rightarrow> replica_export \<Rightarrow> replica_recovery_claim" where
  "prepare_replica_recovery_claim observed_version observed_head claimant ex =
     (let head = observed_head\<lparr> hd_holder := claimant \<rparr>;
          head = (case hd_stash observed_head of
                    None \<Rightarrow> head
                  | Some observed \<Rightarrow>
                      head\<lparr> hd_stash := Some \<lparr> sa_assignment_epoch = ex_assignment_epoch ex,
                              sa_active_peer = ex_source_peer ex, sa_active_assignment_epoch = ex_assignment_epoch ex,
                              sa_transition_peer = None, sa_membership_epoch = sa_membership_epoch observed \<rparr>,
                            hd_retired_stashes := [] \<rparr>)
      in \<lparr> rc_expected_version = observed_version, rc_head = head\<lparr> hd_fence := 0 \<rparr> \<rparr>)"

definition is_journal_name :: "string \<Rightarrow> bool" where
  "is_journal_name name = (case parse_blob name of Some (Journal_Blob _ _ _) \<Rightarrow> True | _ \<Rightarrow> False)"

definition is_blx_name :: "string \<Rightarrow> bool" where
  "is_blx_name name = (case parse_blob name of Some (Blx_Blob _ _ _) \<Rightarrow> True | _ \<Rightarrow> False)"

definition refence_replica_export :: "env \<Rightarrow> volume_id \<Rightarrow> replica_export \<Rightarrow> u64 \<Rightarrow> replica_export recovery_result" where
  "refence_replica_export E volume ex new_fence =
     outcome_bind (or_fail No_Commit (map_option snd (find (\<lambda>(name, _). is_journal_name name) (ex_blobs ex)))) (\<lambda>bs.
     outcome_bind (or_fail (Corrupt_Object ''recovery journal'') (journal_decode E volume bs)) (\<lambda>r.
     let r = r\<lparr> jr_fence := new_fence \<rparr> in
     outcome_bind (or_panic (journal_encode E volume r)) (\<lambda>record_bytes.
     let blobs = filter (\<lambda>(name, _). \<not> is_journal_name name) (ex_blobs ex) @
           [(journal_blob volume new_fence (jr_seq r), record_bytes),
            (journal_mirror_blob volume new_fence (jr_seq r), record_bytes)]
     in Returned (ex\<lparr> ex_info := (ex_info ex)\<lparr> ci_writer_fence := new_fence \<rparr>, ex_blobs := sort_key fst blobs \<rparr>))))"

definition publication_record ::
  "env \<Rightarrow> volume_id \<Rightarrow> u64 \<Rightarrow> replica_export \<Rightarrow> (journal_record \<times> bytes) recovery_result" where
  "publication_record E volume writer_fence ex =
     outcome_bind (or_fail No_Commit (map_option snd
       (find (\<lambda>(name, _). case parse_blob name of Some (Journal_Blob _ fence _) \<Rightarrow> fence = writer_fence | _ \<Rightarrow> False)
         (ex_blobs ex)))) (\<lambda>bs.
     outcome_bind (or_fail (Corrupt_Object ''recovery journal'') (journal_decode E volume bs)) (\<lambda>r.
     Returned (r, bs)))"

fun open_blx_blobs :: "env \<Rightarrow> (string \<times> bytes) list \<Rightarrow> blx_object list recovery_result" where
  "open_blx_blobs E [] = Returned []"
| "open_blx_blobs E ((name, bs) # blobs) =
     (if is_blx_name name then
        outcome_bind (or_fail (Corrupt_Object name) (open_object E bs)) (\<lambda>ob.
        outcome_bind (open_blx_blobs E blobs) (\<lambda>rest. Returned (ob # rest)))
      else open_blx_blobs E blobs)"

definition recovery_batch_meta :: "volume_id \<Rightarrow> u64 \<Rightarrow> journal_record \<Rightarrow> batch_meta" where
  "recovery_batch_meta volume writer_fence r =
     \<lparr> bm_namespace_kind = NS_Volume, bm_namespace_id = volume, bm_writer_fence = writer_fence,
       bm_first_object_id = -1 - 1024, bm_min_seq = jr_seq r, bm_max_seq = jr_seq r, bm_batch_id = -1 - 1024,
       bm_pre_state_checksum = jr_post_state_checksum r, bm_post_state_checksum = jr_post_state_checksum r \<rparr>"

definition recovery_manifest ::
  "env \<Rightarrow> volume_id \<Rightarrow> u64 \<Rightarrow> journal_record \<Rightarrow> bytes \<Rightarrow> file_list_ref \<Rightarrow> manifest" where
  "recovery_manifest E volume writer_fence r record_bytes lref =
     (case recovery_metadata r of (kind, epoch, vmstate_len) \<Rightarrow>
        \<lparr> mf_volume = volume, mf_writer_fence = writer_fence, mf_journal_seq = jr_seq r, mf_archive_seq = jr_seq r,
          mf_capture_seq = jr_capture_seq r, mf_sync_covered_through = jr_sync_covered_through r,
          mf_recovery_kind = kind, mf_checkpoint_epoch = epoch, mf_config = jr_config r,
          mf_vmstate_logical_length = vmstate_len, mf_base = None, mf_complete_list = Some lref,
          mf_post_state_checksum = jr_post_state_checksum r, mf_metadata_checksum = checksum64 E record_bytes,
          mf_added = [], mf_removed = [] \<rparr>)"

definition recovery_file_list :: "volume_id \<Rightarrow> u64 \<Rightarrow> journal_record \<Rightarrow> object_ref list \<Rightarrow> complete_file_list" where
  "recovery_file_list volume writer_fence r refs =
     \<lparr> fl_volume = volume, fl_writer_fence = writer_fence, fl_list_id = jr_seq r, fl_objects = refs \<rparr>"

definition build_replica_archive ::
  "env \<Rightarrow> volume_id \<Rightarrow> u64 \<Rightarrow> journal_record \<Rightarrow> bytes \<Rightarrow> replica_export \<Rightarrow>
   ((string \<times> bytes) list \<times> manifest_ptr) recovery_result" where
  "build_replica_archive E volume writer_fence r record_bytes ex =
     (if jr_sync_covered_through r > jr_capture_seq r then Failed (Corrupt_Object ''recovery journal'')
      else
        outcome_bind (open_blx_blobs E (ex_blobs ex)) (\<lambda>inputs.
        outcome_bind (map_err (Corrupt_Object ''recovery blx'')
          (compact_objects E (recovery_batch_meta volume writer_fence r) inputs True)) (\<lambda>compacted.
        outcome_bind (or_panic (those (map ref_from_blx compacted))) (\<lambda>refs.
        let l = recovery_file_list volume writer_fence r refs in
        outcome_bind (or_panic (file_list_encode E l)) (\<lambda>list_bytes.
        outcome_bind (or_panic (file_list_reference E l)) (\<lambda>lref.
        let m = recovery_manifest E volume writer_fence r record_bytes lref in
        outcome_bind (map_err (Corrupt_Object ''recovery manifest'') (manifest_encode E m)) (\<lambda>archive_bytes.
        let ptr = manifest_pointer E m archive_bytes in
        Returned (map2 (\<lambda>ref ob. (identity_store_key (or_identity ref), bo_bytes ob)) refs compacted @
          [(complete_file_list_key volume writer_fence (jr_seq r), list_bytes),
           (manifest_key volume (mp_fence ptr) (mp_seq ptr), archive_bytes)], ptr))))))))"

definition prepare_replica_publication ::
  "env \<Rightarrow> volume_id \<Rightarrow> host_id \<Rightarrow> u64 \<Rightarrow> head_record \<Rightarrow> replica_export \<Rightarrow> replica_publication recovery_result" where
  "prepare_replica_publication E volume claimant writer_fence claimed_head ex =
     (let recovered = \<lparr> rs_peer = ex_source_peer ex, rs_assignment_epoch = ex_assignment_epoch ex,
                        rs_through = ex_info ex \<rparr> in
      outcome_bind (refence_replica_export E volume ex writer_fence) (\<lambda>ex.
      outcome_bind (publication_record E volume writer_fence ex) (\<lambda>(r, record_bytes).
      outcome_bind (build_replica_archive E volume writer_fence r record_bytes ex) (\<lambda>(store_objects, ptr).
      Returned \<lparr> rp_export = ex, rp_store_objects = store_objects,
                 rp_head = claimed_head\<lparr> hd_volume := volume, hd_holder := claimant, hd_fence := writer_fence,
                   hd_manifest := Some ptr, hd_stash := None, hd_retired_stashes := [recovered] \<rparr> \<rparr>))))"

section \<open>The report\<close>

datatype recovery_status = Complete | Incomplete

record recovery_report =
  rr_status :: recovery_status
  rr_inventories :: "replica_inventory list"
  rr_chosen_source :: "host_id option"
  rr_chosen_assignment_epoch :: "u64 option"
  rr_covered_sync_through :: "u64 option"
  rr_missing_objects :: "string list"
  rr_corrupt_objects :: "string list"

text \<open>Decimal rendering of a number, as \<^verbatim>\<open>format!("{}")\<close> does it.\<close>

fun decimal :: "nat \<Rightarrow> string" where
  "decimal n = (if n < 10 then [char_of (48 + n)] else decimal (n div 10) @ [char_of (48 + n mod 10)])"

declare decimal.simps [simp del]

fun comma_join :: "string list \<Rightarrow> string" where
  "comma_join [] = []"
| "comma_join [x] = x"
| "comma_join (x # y # xs) = x @ '','' @ comma_join (y # xs)"

definition residue_label :: "host_id \<Rightarrow> u64 \<Rightarrow> string" where
  "residue_label peer epoch = ''peer:'' @ decimal (unat peer) @ ''/assignment:'' @ decimal (unat epoch)"

definition peer_label :: "host_id \<Rightarrow> string" where
  "peer_label peer = ''peer:'' @ decimal (unat peer)"

text \<open>The loop of \<^verbatim>\<open>report_replica_recovery\<close> over the residues.\<close>

fun survey_residues ::
  "env \<Rightarrow> host_id \<Rightarrow> volume_id \<Rightarrow> replica_residue list \<Rightarrow>
   replica_inventory list \<times> string list \<times> ((u64 \<times> journal_seq) \<times> host_id \<times> u64) option \<Rightarrow>
   replica_inventory list \<times> string list \<times> ((u64 \<times> journal_seq) \<times> host_id \<times> u64) option" where
  "survey_residues E source volume [] st = st"
| "survey_residues E source volume (residue # rs) (inventories, corrupt, best) =
     (case inventory_replica E source volume residue of
        Returned inventory \<Rightarrow>
          let best' = (case in_committed inventory of
                None \<Rightarrow> best
              | Some info \<Rightarrow>
                  let rank = (ci_sync_covered_through info, ci_seq info) in
                  if (case best of None \<Rightarrow> True | Some (known, _, _) \<Rightarrow> rank > known)
                  then Some (rank, re_peer residue, re_assignment_epoch residue) else best)
          in survey_residues E source volume rs (inventories @ [inventory], corrupt, best')
      | _ \<Rightarrow> survey_residues E source volume rs
               (inventories, corrupt @ [residue_label (re_peer residue) (re_assignment_epoch residue)], best))"

definition report_replica_recovery ::
  "env \<Rightarrow> host_id \<Rightarrow> volume_id \<Rightarrow> u64 \<Rightarrow> head_record \<Rightarrow>
   replica_residue list \<Rightarrow> (string, bytes) btree_map \<Rightarrow> (unit, recovery_report) outcome" where
  "report_replica_recovery E source volume head_version head residues store_objects =
     (case survey_residues E source volume residues ([], [], None) of (inventories, corrupt, best) \<Rightarrow>
        let report = \<lparr> rr_status = Incomplete, rr_inventories = inventories,
              rr_chosen_source = map_option (\<lambda>(_, peer, _). peer) best,
              rr_chosen_assignment_epoch = map_option (\<lambda>(_, _, epoch). epoch) best,
              rr_covered_sync_through = map_option (\<lambda>((covered, _), _, _). covered) best,
              rr_missing_objects = [], rr_corrupt_objects = corrupt \<rparr>;
            tidy = (\<lambda>r. r\<lparr> rr_missing_objects := remdups_adj (sort (rr_missing_objects r)),
                            rr_corrupt_objects := remdups_adj (sort (rr_corrupt_objects r)) \<rparr>)
        in case export_replica_recovery E source volume head_version head residues store_objects of
             Panicked \<Rightarrow> Panicked
           | Returned ex \<Rightarrow> Returned (tidy (report\<lparr> rr_status := Complete, rr_chosen_source := Some (ex_source_peer ex),
                 rr_chosen_assignment_epoch := Some (ex_assignment_epoch ex),
                 rr_covered_sync_through := Some (ex_sync_covered_through ex) \<rparr>))
           | Failed (Missing_Object key) \<Rightarrow> Returned (tidy (report\<lparr> rr_missing_objects := [key] \<rparr>))
           | Failed (Corrupt_Object key) \<Rightarrow> Returned (tidy (report\<lparr> rr_corrupt_objects := corrupt @ [key] \<rparr>))
           | Failed (Corrupt_Spool peer) \<Rightarrow> Returned (tidy (report\<lparr> rr_corrupt_objects := corrupt @ [peer_label peer] \<rparr>))
           | Failed _ \<Rightarrow> Returned (tidy report))"

definition human_summary :: "recovery_report \<Rightarrow> string" where
  "human_summary r =
     (case (rr_status r, rr_chosen_source r, rr_chosen_assignment_epoch r, rr_covered_sync_through r) of
        (Complete, Some peer, Some epoch, Some through) \<Rightarrow>
          ''complete: peer '' @ decimal (unat peer) @ '', assignment '' @ decimal (unat epoch) @
          '', sync watermark '' @ decimal (unat through)
      | _ \<Rightarrow>
          ''incomplete: source='' @
          (case rr_chosen_source r of None \<Rightarrow> ''None'' | Some h \<Rightarrow> ''Some(HostId('' @ decimal (unat h) @ ''))'') @
          '' missing=['' @ comma_join (rr_missing_objects r) @
          ''] corrupt=['' @ comma_join (rr_corrupt_objects r) @ '']'')"

section \<open>What an export proves\<close>

text \<open>The spools the head names: the active one, the one being seeded, and the retired ones.\<close>

definition named_stashes :: "head_record \<Rightarrow> stash_assignment \<Rightarrow> (host_id \<times> u64) set" where
  "named_stashes head a =
     {(sa_active_peer a, sa_active_assignment_epoch a)} \<union>
     {(peer, sa_assignment_epoch a) | peer. sa_transition_peer a = Some peer} \<union>
     (\<lambda>r. (rs_peer r, rs_assignment_epoch r)) ` set (hd_retired_stashes head)"

definition allowed_pairs :: "(host_id, u64 btree_set) btree_map \<Rightarrow> (host_id \<times> u64) set" where
  "allowed_pairs m = {(peer, epoch). \<exists>s. map_of m peer = Some s \<and> epoch \<in> set s}"

lemma allowed_pairs_allow [simp]: "allowed_pairs (allow_epoch peer epoch m) = insert (peer, epoch) (allowed_pairs m)"
  by (auto simp: allowed_pairs_def allow_epoch_def linear.map_of_insert linear.set_bs_insert split: option.splits if_splits)

lemma allowed_pairs_foldl:
  "allowed_pairs (foldl (\<lambda>m r. allow_epoch (rs_peer r) (rs_assignment_epoch r) m) m rs) =
   allowed_pairs m \<union> (\<lambda>r. (rs_peer r, rs_assignment_epoch r)) ` set rs"
  by (induction rs arbitrary: m) auto

lemma residue_named_iff:
  "residue_named (allowed_replica_epochs head a) residue \<longleftrightarrow>
   (re_peer residue, re_assignment_epoch residue) \<in> named_stashes head a"
proof -
  have "allowed_pairs (allowed_replica_epochs head a) = named_stashes head a"
    by (auto simp: allowed_replica_epochs_def named_stashes_def allowed_pairs_foldl Let_def allowed_pairs_def [of "[]"]
        split: option.splits)
  moreover have "residue_named m residue \<longleftrightarrow> (re_peer residue, re_assignment_epoch residue) \<in> allowed_pairs m" for m
    by (auto simp: residue_named_def allowed_pairs_def split: option.splits)
  ultimately show ?thesis by simp
qed

text \<open>A residue's newest commit, with its scan and its decoded record.\<close>

definition residue_commit ::
  "env \<Rightarrow> volume_id \<Rightarrow> replica_residue \<Rightarrow> replica_spool_scan \<Rightarrow> replica_commit_frame \<Rightarrow> journal_record \<Rightarrow> bool" where
  "residue_commit E volume residue scan commit r \<longleftrightarrow>
     scan_replica_spool E (re_bytes residue) = Some scan \<and> last_commit scan = Some commit \<and>
     journal_decode E volume (cf_record commit) = Some r"

text \<open>
  The head authorises the residue: it names the spool, or the spool is of a later assignment and
  its commit was written by the holder under the head's own version.
\<close>

definition residue_authorised ::
  "host_id \<Rightarrow> u64 \<Rightarrow> head_record \<Rightarrow> stash_assignment \<Rightarrow> replica_residue \<Rightarrow> replica_commit_frame \<Rightarrow> bool" where
  "residue_authorised source head_version head a residue commit \<longleftrightarrow>
     (re_peer residue, re_assignment_epoch residue) \<in> named_stashes head a \<or>
     re_assignment_epoch residue > sa_assignment_epoch a \<and> hd_holder head = source \<and>
     ci_writer_fence (cf_info commit) = head_version"

lemma consider_residue_Some:
  assumes "consider_residue E source volume v head a (allowed_replica_epochs head a) residue = Returned (Some (rank, residue', scan))"
  shows "residue' = residue \<and> scan_identity_ok source volume residue scan \<and>
    (\<exists>commit r. residue_commit E volume residue scan commit r \<and> rank = commit_recovery_rank commit r \<and>
      residue_authorised source v head a residue commit)"
  using assms
  by (auto simp: consider_residue_def Let_def outcome_bind_Returned verify_scan_identity_def residue_commit_def
      residue_authorised_def residue_named_iff split: if_splits option.splits)

lemma consider_residue_complete:
  assumes "consider_residue E source volume v head a allowed residue = Returned c" "residue_commit E volume residue scan commit r"
  shows "c = Some (commit_recovery_rank commit r, residue, scan)"
  using assms
  by (auto simp: consider_residue_def Let_def outcome_bind_Returned residue_commit_def split: if_splits)

lemma gather_candidates_spec:
  assumes "gather_candidates E source volume v head a allowed residues = Returned cs"
  shows "(\<forall>residue \<in> set residues. \<exists>c. consider_residue E source volume v head a allowed residue = Returned c) \<and>
    (\<forall>c. c \<in> set cs \<longleftrightarrow> (\<exists>residue \<in> set residues. consider_residue E source volume v head a allowed residue = Returned (Some c)))"
  using assms
proof (induction residues arbitrary: cs)
  case (Cons residue rs)
  then obtain c cs' where c: "consider_residue E source volume v head a allowed residue = Returned c"
    and cs': "gather_candidates E source volume v head a allowed rs = Returned cs'"
    and cs: "cs = (case c of None \<Rightarrow> cs' | Some c \<Rightarrow> c # cs')"
    by (auto simp: outcome_bind_Returned)
  show ?case using Cons.IH [OF cs'] c by (cases c) (auto simp: cs)
qed simp

lemma last_sorted_greatest:
  fixes cs :: "('k :: linorder \<times> 'b) list"
  assumes "cs \<noteq> []"
  shows "last (sort_key fst cs) \<in> set cs" "\<forall>c \<in> set cs. fst c \<le> fst (last (sort_key fst cs))"
proof -
  let ?s = "sort_key fst cs"
  have ne: "?s \<noteq> []" 
  proof
    assume "?s = []"
    then have "length cs = 0" using length_sort [of fst cs] by (simp only: list.size)
    then show False using assms by simp
  qed
  from last_in_set [OF ne] show "last ?s \<in> set cs" by simp
  obtain pre l where s: "?s = pre @ [l]" using ne by (metis rev_exhaust)
  have "sorted (map fst ?s)" by simp
  then have "\<forall>c \<in> set ?s. fst c \<le> fst l" by (auto simp: s sorted_append)
  then show "\<forall>c \<in> set cs. fst c \<le> fst (last ?s)" unfolding set_sort by (simp add: s)
qed

lemma blob_names_apart:
  "blx_blob volume f ob = blx_blob volume f' ob' \<longleftrightarrow> f = f' \<and> ob = ob'"
  "journal_blob volume f n \<noteq> blx_blob volume f' ob" "journal_mirror_blob volume f n \<noteq> blx_blob volume f' ob"
proof -
  show "blx_blob volume f ob = blx_blob volume f' ob' \<longleftrightarrow> f = f' \<and> ob = ob'"
    using parse_blob_names(3) by (metis blob_name.inject option.inject)
  show "journal_blob volume f n \<noteq> blx_blob volume f' ob" using parse_blob_names(1,3)
    by (metis blob_name.distinct option.inject)
  show "journal_mirror_blob volume f n \<noteq> blx_blob volume f' ob" using parse_blob_names(2,3)
    by (metis blob_name.distinct option.inject)
qed

lemma export_blx_files_spec:
  assumes "export_blx_files E volume scan store is blobs = Returned blobs'"
  shows "(\<forall>i \<in> set is. \<exists>bs. map_of blobs' (blx_blob volume (oi_writer_fence i) (oi_object_id i)) = Some bs \<and>
      blx_intact E volume (oi_writer_fence i) (oi_object_id i) bs) \<and>
    (\<forall>name. (\<forall>i \<in> set is. name \<noteq> blx_blob volume (oi_writer_fence i) (oi_object_id i)) \<longrightarrow> map_of blobs' name = map_of blobs name)"
  using assms
proof (induction "is" arbitrary: blobs)
  case (Cons i "is")
  let ?name = "\<lambda>i. blx_blob volume (oi_writer_fence i) (oi_object_id i)"
  from Cons.prems obtain bs where bs: "blx_intact E volume (oi_writer_fence i) (oi_object_id i) bs"
    and rest: "export_blx_files E volume scan store is (bm_insert (<) (?name i) bs blobs) = Returned blobs'"
    by (auto simp: Let_def outcome_bind_Returned split: if_splits)
  note IH = Cons.IH [OF rest]
  have "\<exists>bs. map_of blobs' (?name i) = Some bs \<and> blx_intact E volume (oi_writer_fence i) (oi_object_id i) bs"
  proof (cases "\<exists>k \<in> set is. ?name k = ?name i")
    case True
    then show ?thesis using IH by (auto simp: blob_names_apart)
  next
    case False
    then have "map_of blobs' (?name i) = map_of (bm_insert (<) (?name i) bs blobs) (?name i)" using IH by metis
    then show ?thesis using bs by (simp add: linear.map_of_insert)
  qed
  moreover have "map_of blobs' name = map_of blobs name" if "\<forall>k \<in> set (i # is). name \<noteq> ?name k" for name
    using IH that by (simp add: linear.map_of_insert)
  ultimately show ?case using IH by simp
qed simp

lemma set_foldl_bs_insert: "set (foldl (\<lambda>s i. bs_insert identity_less i s) s is) = set s \<union> set is"
  by (induction "is" arbitrary: s) (auto simp: identity_order.set_bs_insert)

text \<open>The closure of a record: its journal blobs and every file of the volume it names, intact.\<close>

definition closure_exported :: "env \<Rightarrow> volume_id \<Rightarrow> journal_record \<Rightarrow> bytes \<Rightarrow> (string \<times> bytes) list \<Rightarrow> bool" where
  "closure_exported E volume r record_bytes blobs \<longleftrightarrow>
     map_of blobs (journal_blob volume (jr_fence r) (jr_seq r)) = Some record_bytes \<and>
     map_of blobs (journal_mirror_blob volume (jr_fence r) (jr_seq r)) = Some record_bytes \<and>
     (\<forall>f \<in> set (jr_files r). oi_namespace_kind (or_identity f) = NS_Volume \<longrightarrow> oi_namespace_id (or_identity f) = volume \<longrightarrow>
       (\<exists>bs. map_of blobs (blx_blob volume (oi_writer_fence (or_identity f)) (oi_object_id (or_identity f))) = Some bs \<and>
         blx_intact E volume (oi_writer_fence (or_identity f)) (oi_object_id (or_identity f)) bs))"

lemma export_commit_spec:
  assumes "export_commit E volume residue scan commit store = Returned ex"
    and "journal_decode E volume (cf_record commit) = Some r"
  shows "ex_source_peer ex = re_peer residue \<and> ex_assignment_epoch ex = re_assignment_epoch residue \<and>
    ex_info ex = cf_info commit \<and> ex_sync_covered_through ex = ci_sync_covered_through (cf_info commit) \<and>
    closure_exported E volume r (cf_record commit) (ex_blobs ex)"
proof -
  from assms obtain blobs where
    files: "export_blx_files E volume scan store (needed_blx_files volume r) [] = Returned blobs"
    and ex: "ex = \<lparr> ex_source_peer = re_peer residue, ex_assignment_epoch = re_assignment_epoch residue,
       ex_info = cf_info commit, ex_sync_covered_through = ci_sync_covered_through (cf_info commit),
       ex_blobs = bm_insert (<) (journal_mirror_blob volume (jr_fence r) (jr_seq r)) (cf_record commit)
         (bm_insert (<) (journal_blob volume (jr_fence r) (jr_seq r)) (cf_record commit) blobs) \<rparr>"
    by (auto simp: export_commit_def outcome_bind_Returned Let_def)
  have needed: "or_identity f \<in> set (needed_blx_files volume r)"
    if "f \<in> set (jr_files r)" "oi_namespace_kind (or_identity f) = NS_Volume" "oi_namespace_id (or_identity f) = volume" for f
    using that by (simp add: needed_blx_files_def set_foldl_bs_insert)
  have "map_of (ex_blobs ex) (blx_blob volume f ob) = map_of blobs (blx_blob volume f ob)" for f ob
    using blob_names_apart(2,3) [THEN not_sym] by (simp add: ex linear.map_of_insert)
  then show ?thesis
    using export_blx_files_spec [OF files] needed by (simp add: closure_exported_def) (simp add: ex linear.map_of_insert)
qed

lemma check_store_point_spec:
  assumes "check_store_point E volume head residue commit store = Returned u"
    and "journal_decode E volume (cf_record commit) = Some r" "hd_manifest head = Some ptr"
  shows "\<exists>bs m. map_of store (ptr_manifest_key ptr volume) = Some bs \<and> checksum64 E bs = mp_checksum ptr \<and>
    manifest_decode E volume bs = Some m \<and>
    (mf_sync_covered_through m, mf_capture_seq m, mf_archive_seq m) \<le> commit_recovery_rank commit r"
  using assms
  by (auto simp: check_store_point_def outcome_bind_Returned Let_def not_less split: if_splits)

text \<open>
  C7: An export is the newest authorised recovery point, complete.  When recovery exports a
  residue, that residue is one of those offered and is authorised by the head; its spool was written
  by the lost source for this volume; no other offered residue has a newer commit in sync watermark,
  capture instant and sequence, nor has the manifest the head points to; and the export holds the
  journal record of that commit and every file of the volume the record names, intact.
\<close>

theorem replica_export_sound:
  assumes "export_replica_recovery E source volume v head residues store = Returned ex"
  shows "\<exists>a residue scan commit r. hd_stash head = Some a \<and> residue \<in> set residues \<and>
    residue_commit E volume residue scan commit r \<and> scan_identity_ok source volume residue scan \<and>
    residue_authorised source v head a residue commit \<and>
    (\<forall>other \<in> set residues. \<forall>scan' commit' r'. residue_commit E volume other scan' commit' r' \<longrightarrow>
      commit_recovery_rank commit' r' \<le> commit_recovery_rank commit r) \<and>
    (\<forall>ptr. hd_manifest head = Some ptr \<longrightarrow>
      (\<exists>bs m. map_of store (ptr_manifest_key ptr volume) = Some bs \<and> checksum64 E bs = mp_checksum ptr \<and>
        manifest_decode E volume bs = Some m \<and>
        (mf_sync_covered_through m, mf_capture_seq m, mf_archive_seq m) \<le> commit_recovery_rank commit r)) \<and>
    ex_source_peer ex = re_peer residue \<and> ex_assignment_epoch ex = re_assignment_epoch residue \<and>
    ex_info ex = cf_info commit \<and> ex_sync_covered_through ex = ci_sync_covered_through (cf_info commit) \<and>
    closure_exported E volume r (cf_record commit) (ex_blobs ex)"
proof -
  from assms obtain a cs rank residue scan commit where a: "hd_stash head = Some a"
    and cs: "gather_candidates E source volume v head a (allowed_replica_epochs head a) residues = Returned cs"
    and sorted: "sort_key fst cs \<noteq> []" and last: "last (sort_key fst cs) = (rank, residue, scan)"
    and commit: "last_commit scan = Some commit"
    and store: "check_store_point E volume head residue commit store = Returned ()"
    and ex: "export_commit E volume residue scan commit store = Returned ex"
    by (auto simp: export_replica_recovery_def outcome_bind_Returned Let_def split: if_splits prod.splits)
  have ne: "cs \<noteq> []" using sorted by auto
  note gather = gather_candidates_spec [OF cs]
  from last_sorted_greatest [OF ne] last have mem: "(rank, residue, scan) \<in> set cs"
    and greatest: "\<forall>c \<in> set cs. fst c \<le> rank" by simp_all
  from mem gather obtain residue' where "residue' \<in> set residues"
    "consider_residue E source volume v head a (allowed_replica_epochs head a) residue' = Returned (Some (rank, residue, scan))"
    by blast
  with consider_residue_Some obtain commit' r where res: "residue \<in> set residues"
    and id: "scan_identity_ok source volume residue scan" and rc: "residue_commit E volume residue scan commit' r"
    and rank: "rank = commit_recovery_rank commit' r" and auth: "residue_authorised source v head a residue commit'"
    by blast
  have c: "commit' = commit" using rc commit by (simp add: residue_commit_def)
  have r: "journal_decode E volume (cf_record commit) = Some r" using rc c by (simp add: residue_commit_def)
  have newest: "commit_recovery_rank commit'' r' \<le> commit_recovery_rank commit r"
    if other: "other \<in> set residues" "residue_commit E volume other scan' commit'' r'" for other scan' commit'' r'
  proof -
    from gather other(1) obtain c' where c': "consider_residue E source volume v head a (allowed_replica_epochs head a) other = Returned c'"
      by blast
    with consider_residue_complete [OF c' other(2)] gather other(1)
    have "(commit_recovery_rank commit'' r', other, scan') \<in> set cs" by blast
    then show ?thesis using greatest by (auto simp: rank c)
  qed
  show ?thesis
    using a res rc id auth newest check_store_point_spec [OF store r] export_commit_spec [OF ex r] unfolding c by blast
qed

section \<open>Recovery does not panic before publication\<close>

lemma consider_residue_no_panic: "consider_residue E source volume v head a allowed residue \<noteq> Panicked"
  by (auto simp: consider_residue_def Let_def outcome_bind_Panicked verify_scan_identity_def split: option.splits if_splits)

lemma gather_candidates_no_panic: "gather_candidates E source volume v head a allowed residues \<noteq> Panicked"
  by (induction residues) (auto simp: outcome_bind_Panicked consider_residue_no_panic)

lemma export_blx_files_no_panic: "export_blx_files E volume scan store is blobs \<noteq> Panicked"
  by (induction "is" arbitrary: blobs)
    (auto simp: outcome_bind_Panicked Let_def artifact_bytes_def split: option.splits)

lemma export_steps_no_panic:
  "check_store_point E volume head residue commit store \<noteq> Panicked"
  "export_commit E volume residue scan commit store \<noteq> Panicked"
  by (auto simp: check_store_point_def export_commit_def export_blx_files_no_panic outcome_bind_Panicked Let_def
      split: option.splits if_splits)

lemma export_no_panic: "export_replica_recovery E source volume v head residues store \<noteq> Panicked"
proof
  assume "export_replica_recovery E source volume v head residues store = Panicked"
  then obtain a cs rank residue scan where
    cs: "gather_candidates E source volume v head a (allowed_replica_epochs head a) residues = Returned cs"
    and ne: "sort_key fst cs \<noteq> []" and last: "last (sort_key fst cs) = (rank, residue, scan)"
    and none: "last_commit scan = None"
    by (auto simp: export_replica_recovery_def outcome_bind_Panicked Let_def gather_candidates_no_panic
        export_steps_no_panic split: if_splits prod.splits)
  have "cs \<noteq> []" using ne by auto
  then have "(rank, residue, scan) \<in> set cs" using last_sorted_greatest(1) last by metis
  then obtain residue' where
    "consider_residue E source volume v head a (allowed_replica_epochs head a) residue' = Returned (Some (rank, residue, scan))"
    using gather_candidates_spec [OF cs] by blast
  from consider_residue_Some [OF this] none show False by (auto simp: residue_commit_def)
qed

lemma journal_refenced_encodes:
  assumes "fits_u32 (env_page_size E)" "journal_decode E volume bs = Some r"
  shows "\<exists>bs'. journal_encode E volume (r\<lparr> jr_fence := fence \<rparr>) = Some bs' \<and>
    journal_decode E volume bs' = Some (r\<lparr> jr_fence := fence \<rparr>)"
proof -
  from assms have enc: "journal_encode E volume r = Some bs" and ok: "journal_fields_ok E r"
    by (simp_all add: journal_decode_iff)
  have len: "length (enc_journal_payload E volume (r\<lparr> jr_fence := fence \<rparr>)) = length (enc_journal_payload E volume r)"
    by (simp add: enc_journal_payload_def)
  from enc have "fits_u32 (length (enc_journal_payload E volume r))"
    by (auto simp: journal_encode_def frame_shape elim!: bind_SomeE)
  then obtain bs' where "seal_frame E MAGIC_JOURNAL (enc_journal_payload E volume (r\<lparr> jr_fence := fence \<rparr>)) = Some bs'"
    using len by (simp add: seal_frame_def)
  then have "journal_encode E volume (r\<lparr> jr_fence := fence \<rparr>) = Some bs'"
    using enc by (auto simp: journal_encode_def elim!: bind_SomeE)
  then show ?thesis using ok assms(1) by (simp add: journal_decode_iff journal_fields_ok_def)
qed

lemma refence_no_panic:
  "fits_u32 (env_page_size E) \<Longrightarrow> refence_replica_export E volume ex fence \<noteq> Panicked"
  by (auto simp: refence_replica_export_def outcome_bind_Panicked Let_def dest: journal_refenced_encodes)

text \<open>
  C31: Assessing and exporting a recovery, and refencing the export, never panic: whatever bytes
  the spools and the store hold, each step returns a result or one of the documented errors.
\<close>

theorem recovery_never_panics:
  assumes "validate_page_size (env_page_size E)"
  shows "export_replica_recovery E source volume v head residues store \<noteq> Panicked \<and>
    report_replica_recovery E source volume v head residues store \<noteq> Panicked \<and>
    refence_replica_export E volume ex fence \<noteq> Panicked"
proof -
  have "report_replica_recovery E source volume v head residues store \<noteq> Panicked"
    by (auto simp: report_replica_recovery_def Let_def export_no_panic split: prod.splits outcome.splits recovery_error.splits)
  then show ?thesis using export_no_panic refence_no_panic assms by (simp add: validate_page_size_def)
qed

section \<open>A concrete recovery\<close>

definition demo_head :: head_record where
  "demo_head = \<lparr> hd_volume = 7, hd_holder = 1, hd_fence = 2, hd_manifest = None,
     hd_stash = Some \<lparr> sa_assignment_epoch = 5, sa_active_peer = 9, sa_active_assignment_epoch = 5,
       sa_transition_peer = None, sa_membership_epoch = 1 \<rparr>,
     hd_retired_stashes = [] \<rparr>"

lemma demo_residue:
  obtains residue scan commit where "residue_commit demo_env 7 residue scan commit demo_journal"
    "scan_identity_ok 1 7 residue scan" "re_peer residue = 9" "re_assignment_epoch residue = 5"
proof -
  obtain rec where rec: "journal_decode demo_env 7 rec = Some demo_journal" "length rec \<le> 200"
    by (rule demo_journal_record)
  let ?c = "\<lparr> cf_source = 1, cf_volume = 7, cf_assignment_epoch = 5, cf_info = journal_commit_info demo_journal,
    cf_required = [], cf_record = rec \<rparr>"
  have "fits_u32 (length (enc_commit_payload ?c))"
    using rec(2) by (simp add: fits_u32_def enc_commit_payload_def enc_many_def enc_commit_info_def)
  then obtain fc where fc: "seal_frame demo_env MAGIC_REPLICA_COMMIT (enc_commit_payload ?c) = Some fc"
    by (simp add: seal_frame_def)
  then have ev: "list_all2 (sealed_event demo_env) [Commit_Event ?c] [fc]"
    using rec by (simp add: seal_commit_Returned frame_open_seal verify_record_def journal_commit_info_def fits_u32_def)
  have torn: "torn_frame demo_env []"
    unfolding torn_frame_def using fc framed_len_sealed(3) [OF fc] by (intro exI conjI) (auto intro!: exI [of _ 0])
  let ?res = "\<lparr> re_source = 1, re_peer = 9, re_assignment_epoch = 5, re_bytes = fc \<rparr>"
  let ?scan = "empty_spool_scan\<lparr> ss_commits := [?c], ss_valid_len := length fc \<rparr>"
  have "scan_replica_spool demo_env fc = Some ?scan"
    using scan_spool_replays [OF ev torn, of empty_spool_scan "[]" None]
    by (simp add: scan_replica_spool_def empty_spool_scan_def ended_at_def record_commit_def check_identity_def last_commit_def)
  then have "residue_commit demo_env 7 ?res ?scan ?c demo_journal" "scan_identity_ok 1 7 ?res ?scan"
    using rec(1) by (simp_all add: residue_commit_def last_commit_def scan_identity_ok_def empty_spool_scan_def bm_values_def)
  then show ?thesis by (rule that) simp_all
qed

lemma demo_export: obtains residue ex where "export_replica_recovery demo_env 1 7 2 demo_head [residue] [] = Returned ex"
proof -
  obtain residue scan commit where rc: "residue_commit demo_env 7 residue scan commit demo_journal"
    and id: "scan_identity_ok 1 7 residue scan" and peer: "re_peer residue = 9" "re_assignment_epoch residue = 5"
    by (rule demo_residue)
  let ?a = "the (hd_stash demo_head)"
  have "residue_named (allowed_replica_epochs demo_head ?a) residue"
    by (simp add: residue_named_iff peer named_stashes_def demo_head_def)
  then have "consider_residue demo_env 1 7 2 demo_head ?a (allowed_replica_epochs demo_head ?a) residue =
      Returned (Some (commit_recovery_rank commit demo_journal, residue, scan))"
    using rc id by (simp add: consider_residue_def residue_commit_def verify_scan_identity_def or_fail_def Let_def)
  moreover have "export_commit demo_env 7 residue scan commit [] \<noteq> Panicked" by (rule export_steps_no_panic)
  moreover have "\<exists>ex. export_commit demo_env 7 residue scan commit [] = Returned ex"
    using rc by (simp add: export_commit_def residue_commit_def or_fail_def needed_blx_files_def demo_journal_def Let_def)
  ultimately have "\<exists>ex. export_replica_recovery demo_env 1 7 2 demo_head [residue] [] = Returned ex"
    using rc by (simp add: export_replica_recovery_def residue_commit_def or_fail_def or_panic_def Let_def
        check_store_point_def demo_head_def)
  then show ?thesis using that by blast
qed

theorem replica_export_sound_witness:
  "\<exists>residue ex scan commit r. export_replica_recovery demo_env 1 7 2 demo_head [residue] [] = Returned ex \<and>
     residue_commit demo_env 7 residue scan commit r \<and> closure_exported demo_env 7 r (cf_record commit) (ex_blobs ex)"
proof -
  obtain residue ex where ex: "export_replica_recovery demo_env 1 7 2 demo_head [residue] [] = Returned ex"
    by (rule demo_export)
  from replica_export_sound [OF ex] ex show ?thesis by fastforce
qed

theorem recovery_never_panics_witness:
  "export_replica_recovery demo_env 1 7 2 demo_head [] [] \<noteq> Panicked"
  using recovery_never_panics [OF demo_env_page_size] by blast

end
