(* ===== verification/Replica_Publication.thy ===== *)
theory Replica_Publication
  imports Replica_Recovery
begin

text \<open>
  The publication of a recovered volume (\<^verbatim>\<open>prepare_replica_publication\<close> of
  \<^verbatim>\<open>crates/core/src/replica_recovery.rs\<close>) composed with the readers of the archive: following the
  published head pointer through the published objects yields a manifest, a complete list and data
  files whose newest entries are those of the exported files.
\<close>

section \<open>Compacted objects and their references\<close>

lemma open_object_ref_valid:
  assumes "open_object E bs = Some obj" "ref_from_blx obj = Some r"
  shows "object_ref_valid E r"
proof -
  from assms(1) obtain off len :: u32 and header footer where
    hd: "open_header E bs = Some (header, HEADER_BYTES)"
    and ft: "open_footer E (byte_slice (unat off) (unat off + unat len) bs) = Some footer"
    and tot: "unat off + unat len + TRAILER_BYTES = length bs"
    and obj: "obj = \<lparr> bo_header = header, bo_footer = footer, bo_footer_offset = off, bo_footer_length = len,
      bo_checksum = checksum64 E bs, bo_bytes = bs \<rparr>"
    unfolding open_object_def scan_object_def
    by (clarsimp simp: Let_def usize_checked_add_def open_header_def split: if_splits elim!: bind_SomeE)
  have hv: "header_valid E header" using hd by (auto simp: open_header_def bind_eq_Some_conv)
  have "encode_footer E footer = Some (byte_slice (unat off) (unat off + unat len) bs)"
    using ft by (simp only: open_footer_iff)
  then have "0 < unat len" using encode_footer_length tot by (fastforce simp: byte_slice_def blx_sizes)
  then have len: "len \<noteq> 0" by auto
  have fits: "fits_u32 (length bs)" using assms(2) by (auto simp: ref_from_blx_def obj Let_def elim!: bind_SomeE)
  then have sz: "unat (of_nat (length bs) :: u32) = length bs" by (simp add: unat_of_nat_u32)
  have add: "checked_add off len = Some (off + len)" "unat (off + len) = unat off + unat len"
    using tot fits by (simp_all add: checked_add_def fits_u32_def unat_plus_if')
  have "\<not> off + len > (of_nat (length bs) :: u32)" using tot add(2) sz by (simp add: word_less_nat_alt)
  moreover have "(of_nat (length bs) :: u32) \<noteq> 0" using tot \<open>0 < unat len\<close> sz by auto
  ultimately show ?thesis
    using assms(2) hv len add(1)
    by (auto simp: ref_from_blx_def obj Let_def object_ref_valid_def header_valid_def not_less elim!: bind_SomeE)
qed

lemma compaction_builder:
  assumes "compact_objects E meta inputs retain = Returned outs"
  obtains b where "builder_ok E b" "bb_meta b = meta" "builder_finish E b = Some outs"
proof -
  from assms obtain newest where fin: "compactor_finish E meta retain newest = Some outs"
    by (auto simp: compact_objects_def split: option.splits)
  then obtain b0 b where b0: "builder_new_partitioned meta = Some b0"
    and fill: "compactor_fill E retain (bm_values newest) b0 = Some b" and out: "builder_finish E b = Some outs"
    by (auto simp: compactor_finish_def bind_eq_Some_conv)
  have "bb_meta b0 = meta" using b0 by (auto simp: builder_new_partitioned_def builder_new_def bind_eq_Some_conv)
  with compactor_fill_spec [OF fill builder_new_ok(2) [OF b0]] out that show ?thesis by blast
qed

lemma finished_object_facts:
  assumes "builder_ok E b" "builder_finish E b = Some objs" "lz4_roundtrips E" "j < length objs"
  shows "open_object E (bo_bytes (objs ! j)) = Some (objs ! j)"
    and "bh_object_id (bo_header (objs ! j)) = bm_first_object_id (bb_meta b) + of_nat j"
    and "unat (bm_first_object_id (bb_meta b)) + j < 2 ^ 64"
    and "bh_max_seq (bo_header (objs ! j)) = bm_max_seq (bb_meta b)"
    and "bh_batch_id (bo_header (objs ! j)) = bm_batch_id (bb_meta b)"
    and "bh_pre_state_checksum (bo_header (objs ! j)) = bm_pre_state_checksum (bb_meta b)"
    and "bh_post_state_checksum (bo_header (objs ! j)) = bm_post_state_checksum (bb_meta b)"
proof -
  let ?cs = "batch_chunks E (bb_split_at_file_partitions b) (bm_values (bb_entries b))" and ?o = "objs ! j"
  from assms(2,4) have enc: "encode_chunks E (bb_meta b) (of_nat (length ?cs)) 0 ?cs = Some objs"
    by (auto simp: builder_finish_def Let_def bind_eq_Some_conv split: if_splits)
  have len: "length objs = length ?cs" and chunk: "object_of_chunk E (bb_meta b) (of_nat (length ?cs)) j (?cs ! j) ?o"
    using encode_chunks_objects [OF enc] assms(4) by simp_all
  then have obj: "encode_object E (bb_meta b) (bm_first_object_id (bb_meta b) + of_nat j) (of_nat j) (of_nat (length ?cs)) (?cs ! j) = Some ?o"
    by (simp add: object_of_chunk_def)
  show "unat (bm_first_object_id (bb_meta b)) + j < 2 ^ 64" using encode_chunks_ids [OF enc, of j] assms(4) len by simp
  have "scan_object E (bo_bytes ?o) = Some (bo_header ?o, bo_footer ?o)"
    by (rule finished_object_header(1) [OF assms(1-3)]) (simp add: assms(4))
  moreover from encode_object_shape [OF obj] obtain pre where
    "bo_bytes ?o = pre @ encode_trailer E (bo_footer_offset ?o) (bo_footer_length ?o)"
    "bo_checksum ?o = checksum64 E (bo_bytes ?o)"
    by (metis append.assoc)
  ultimately show "open_object E (bo_bytes ?o) = Some ?o" by (cases ?o) (simp add: open_object_def)
  from obj have "bo_header ?o = object_header E (bb_meta b) (bm_first_object_id (bb_meta b) + of_nat j) (of_nat j) (of_nat (length ?cs)) (?cs ! j)"
    by (rule encode_object_shape)
  then show "bh_object_id (bo_header ?o) = bm_first_object_id (bb_meta b) + of_nat j"
    "bh_max_seq (bo_header ?o) = bm_max_seq (bb_meta b)" "bh_batch_id (bo_header ?o) = bm_batch_id (bb_meta b)"
    "bh_pre_state_checksum (bo_header ?o) = bm_pre_state_checksum (bb_meta b)"
    "bh_post_state_checksum (bo_header ?o) = bm_post_state_checksum (bb_meta b)"
    by (simp_all add: object_header_def)
qed

text \<open>The references of a compaction: the same batch and state, identifiers ascending from the first.\<close>

definition compaction_refs :: "batch_meta \<Rightarrow> object_ref list \<Rightarrow> bool" where
  "compaction_refs meta refs \<longleftrightarrow> (\<forall>j < length refs.
     or_identity (refs ! j) = \<lparr> oi_namespace_kind = bm_namespace_kind meta, oi_namespace_id = bm_namespace_id meta,
       oi_writer_fence = bm_writer_fence meta, oi_object_id = bm_first_object_id meta + of_nat j \<rparr> \<and>
     unat (bm_first_object_id meta) + j < 2 ^ 64 \<and>
     file_batch (refs ! j) = (bm_max_seq meta, bm_batch_id meta) \<and>
     file_state (refs ! j) = (bm_pre_state_checksum meta, bm_post_state_checksum meta))"

lemma ref_from_blx_fields:
  assumes "ref_from_blx obj = Some r"
  shows "or_identity r = \<lparr> oi_namespace_kind = bh_namespace_kind (bo_header obj), oi_namespace_id = bh_namespace_id (bo_header obj),
      oi_writer_fence = bh_writer_fence (bo_header obj), oi_object_id = bh_object_id (bo_header obj) \<rparr>"
    "file_batch r = (bh_max_seq (bo_header obj), bh_batch_id (bo_header obj))"
    "file_state r = (bh_pre_state_checksum (bo_header obj), bh_post_state_checksum (bo_header obj))"
  using assms by (auto simp: ref_from_blx_def Let_def file_batch_def file_state_def elim!: bind_SomeE)

lemma compaction_refs_of_objects:
  assumes "compact_objects E meta inputs retain = Returned outs" "lz4_roundtrips E" "map ref_from_blx outs = map Some refs"
  shows "compaction_refs meta refs" "list_all (object_ref_valid E) refs" "length outs = length refs"
    "\<forall>j < length refs. open_object E (bo_bytes (outs ! j)) = Some (outs ! j) \<and> ref_from_blx (outs ! j) = Some (refs ! j)"
proof -
  obtain b where b: "builder_ok E b" "bb_meta b = meta" "builder_finish E b = Some outs"
    by (rule compaction_builder [OF assms(1)])
  show len: "length outs = length refs" using arg_cong [OF assms(3), of length] by simp
  have ref: "ref_from_blx (outs ! j) = Some (refs ! j)" if "j < length refs" for j
    using arg_cong [OF assms(3), of "\<lambda>xs. xs ! j"] that len by simp
  note facts = finished_object_facts [OF b(1,3) assms(2), unfolded b(2) len]
  note hdr = finished_object_header [OF b(1,3) assms(2) nth_mem, unfolded b(2) len]
  show all: "\<forall>j < length refs. open_object E (bo_bytes (outs ! j)) = Some (outs ! j) \<and> ref_from_blx (outs ! j) = Some (refs ! j)"
    using facts(1) ref by simp
  have "object_ref_valid E (refs ! j)" if "j < length refs" for j
    using open_object_ref_valid all that by blast
  then show "list_all (object_ref_valid E) refs" by (simp add: list_all_length)
  have "or_identity (refs ! j) = \<lparr> oi_namespace_kind = bm_namespace_kind meta, oi_namespace_id = bm_namespace_id meta,
       oi_writer_fence = bm_writer_fence meta, oi_object_id = bm_first_object_id meta + of_nat j \<rparr> \<and>
     file_batch (refs ! j) = (bm_max_seq meta, bm_batch_id meta) \<and>
     file_state (refs ! j) = (bm_pre_state_checksum meta, bm_post_state_checksum meta)" if j: "j < length refs" for j
    using ref_from_blx_fields [OF ref [OF j]] facts(2,4-7) [OF j] hdr(2-4) [OF j] by simp
  then show "compaction_refs meta refs" using facts(3) by (simp add: compaction_refs_def)
qed

lemma compaction_refs_sorted:
  assumes "compaction_refs meta refs"
  shows "sorted_wrt identity_less (map or_identity refs)"
proof -
  have "identity_less (or_identity (refs ! i)) (or_identity (refs ! j))" if ij: "i < j" "j < length refs" for i j
  proof -
    have id: "or_identity (refs ! k) = \<lparr> oi_namespace_kind = bm_namespace_kind meta, oi_namespace_id = bm_namespace_id meta,
        oi_writer_fence = bm_writer_fence meta, oi_object_id = bm_first_object_id meta + of_nat k \<rparr>"
      and bd: "unat (bm_first_object_id meta) + k < 2 ^ 64" if "k < length refs" for k
      using assms that by (simp_all add: compaction_refs_def)
    have un: "unat (bm_first_object_id meta + of_nat k) = unat (bm_first_object_id meta) + k" if "k < length refs" for k
      using bd [OF that] by (simp add: unat_word_ariths unat_of_nat)
    have "bm_first_object_id meta + of_nat i < bm_first_object_id meta + of_nat j"
      unfolding word_less_nat_alt using un [of i] un [of j] ij by simp
    then show ?thesis using id [of i] id [of j] ij by (simp add: identity_less_def identity_rank_def)
  qed
  then show ?thesis by (simp add: sorted_wrt_iff_nth_less)
qed

lemma state_batches_uniform:
  "\<forall>f \<in> set files. file_batch f = k \<and> file_state f = v \<Longrightarrow> m = [] \<or> m = [(k, v)] \<Longrightarrow>
   state_batches files m = Some (if files = [] then m else [(k, v)])"
  by (induction files arbitrary: m) auto

lemma compaction_chain:
  assumes "compaction_refs meta refs" "bm_pre_state_checksum meta = post" "bm_post_state_checksum meta = post"
  shows "validate_file_state_chain base post refs = Some () \<longleftrightarrow> refs \<noteq> [] \<or> post = base"
proof -
  have "\<forall>f \<in> set refs. file_batch f = (bm_max_seq meta, bm_batch_id meta) \<and> file_state f = (post, post)"
    using assms by (auto simp: compaction_refs_def in_set_conv_nth)
  then have "state_batches refs [] = Some (if refs = [] then [] else [((bm_max_seq meta, bm_batch_id meta), post, post)])"
    by (rule state_batches_uniform) simp
  then show ?thesis by (simp add: validate_file_state_chain_iff chain_ok_def bm_values_def)
qed

section \<open>The published archive\<close>

text \<open>
  The store serves the listed files: at each reference's key lie the bytes of an object that opens
  and has that reference, and reading them all yields the given newest entry for every key.
\<close>

definition archive_serves :: "env \<Rightarrow> (string \<times> bytes) list \<Rightarrow> object_ref list \<Rightarrow> (block_key \<Rightarrow> blx_entry option) \<Rightarrow> bool" where
  "archive_serves E store refs newest \<longleftrightarrow>
     (\<exists>outs after. length outs = length refs \<and>
       (\<forall>j < length refs. map_of store (identity_store_key (or_identity (refs ! j))) = Some (bo_bytes (outs ! j)) \<and>
         open_object E (bo_bytes (outs ! j)) = Some (outs ! j) \<and> ref_from_blx (outs ! j) = Some (refs ! j)) \<and>
       read_objects E outs = Some after \<and> newest_of after = newest)"

lemma store_keys_apart:
  "blx_key v f a = blx_key v f b \<longleftrightarrow> a = b" "blx_key v f a \<noteq> complete_file_list_key v' f' n"
  "blx_key v f a \<noteq> manifest_key v' f' n" "complete_file_list_key v f n \<noteq> manifest_key v' f' n'"
proof -
  show "blx_key v f a = blx_key v f b \<longleftrightarrow> a = b"
    using parse_key_names(4) by (metis option.inject store_key.inject(4))
  show "blx_key v f a \<noteq> complete_file_list_key v' f' n"
    using parse_key_names(3,4) by (metis option.inject store_key.distinct)
  show "blx_key v f a \<noteq> manifest_key v' f' n" "complete_file_list_key v f n \<noteq> manifest_key v' f' n'"
    using parse_key_names(2,3,4) by (metis manifest_key_def option.inject store_key.distinct)+
qed

lemma build_archive_spec:
  assumes ps: "validate_page_size (env_page_size E)" and lz: "lz4_roundtrips E"
    and build: "build_replica_archive E volume fence r record_bytes ex = Returned (store, ptr)"
    and cfg: "vc_pages (jr_config r) \<noteq> 0"
  shows "\<exists>inputs before refs lbytes mbytes m l. open_blx_blobs E (ex_blobs ex) = Returned inputs \<and>
    read_objects E inputs = Some before \<and> archive_serves E store refs (newest_of before) \<and>
    distinct (map fst store) \<and>
    map_of store (ptr_manifest_key ptr volume) = Some mbytes \<and>
    map_of store (complete_file_list_key volume fence (jr_seq r)) = Some lbytes \<and>
    mf_base m = None \<and> mf_capture_seq m = jr_capture_seq r \<and> mf_sync_covered_through m = jr_sync_covered_through r \<and>
    mf_config m = jr_config r \<and> (mf_recovery_kind m, mf_checkpoint_epoch m, mf_vmstate_logical_length m) = recovery_metadata r \<and>
    manifest_decode E volume mbytes = Some m \<and>
    closure_decode E volume ptr mbytes (Some lbytes) =
      (if refs \<noteq> [] \<or> jr_post_state_checksum r = 0 then Returned \<lparr> mc_manifest = m, mc_complete_list = Some l, mc_files = refs \<rparr>
       else Failed ())"
proof -
  let ?meta = "recovery_batch_meta volume fence r"
  from build obtain inputs outs refs lbytes lref mbytes where
    inputs: "open_blx_blobs E (ex_blobs ex) = Returned inputs"
    and outs: "compact_objects E ?meta inputs True = Returned outs"
    and refs: "those (map ref_from_blx outs) = Some refs"
    and lb: "file_list_encode E (recovery_file_list volume fence r refs) = Some lbytes"
    and lref: "file_list_reference E (recovery_file_list volume fence r refs) = Some lref"
    and mb: "manifest_encode E (recovery_manifest E volume fence r record_bytes lref) = Returned mbytes"
    and ptr: "ptr = manifest_pointer E (recovery_manifest E volume fence r record_bytes lref) mbytes"
    and store: "store = map2 (\<lambda>ref ob. (identity_store_key (or_identity ref), bo_bytes ob)) refs outs @
      [(complete_file_list_key volume fence (jr_seq r), lbytes), (manifest_key volume (mp_fence ptr) (mp_seq ptr), mbytes)]"
    by (auto simp: build_replica_archive_def outcome_bind_Returned Let_def split: if_splits)
  let ?l = "recovery_file_list volume fence r refs" and ?m = "recovery_manifest E volume fence r record_bytes lref"
  note rf = compaction_refs_of_objects [OF outs lz refs [unfolded those_Some_iff]]
  obtain kind epoch vmlen where rm: "recovery_metadata r = (kind, epoch, vmlen)" by (metis prod_cases3)
  have m: "mf_base ?m = None" "mf_capture_seq ?m = jr_capture_seq r" "mf_sync_covered_through ?m = jr_sync_covered_through r"
    "mf_config ?m = jr_config r" "(mf_recovery_kind ?m, mf_checkpoint_epoch ?m, mf_vmstate_logical_length ?m) = recovery_metadata r"
    "mf_volume ?m = volume" "mf_added ?m = []" "mf_removed ?m = []" "mf_complete_list ?m = Some lref"
    "mf_post_state_checksum ?m = jr_post_state_checksum r" "mf_writer_fence ?m = fence" "mf_archive_seq ?m = jr_seq r"
    by (simp_all add: recovery_manifest_def rm)
  have psz: "fits_u32 (env_page_size E)" using ps by (simp add: validate_page_size_def)
  have dm: "manifest_decode E volume mbytes = Some ?m"
    using mb m cfg by (simp add: manifest_decode_iff [OF psz] manifest_fields_ok_def)
  have dl: "file_list_decode E lref volume lbytes = Some ?l"
    using lb lref rf(2) by (simp add: file_list_decode_iff recovery_file_list_def)
  have current: "current_files E ?m (Some ?l) =
      (if refs \<noteq> [] \<or> jr_post_state_checksum r = 0 then Returned refs else Failed ())"
  proof -
    have "validate_object_refs E refs = Some ()"
      using lb by (auto simp: file_list_encode_def recovery_file_list_def elim!: bind_SomeE)
    moreover have "validate_state_chain ?m refs = Some () \<longleftrightarrow> refs \<noteq> [] \<or> jr_post_state_checksum r = 0"
      using compaction_chain [OF rf(1), of "jr_post_state_checksum r" 0] m
      by (simp add: validate_state_chain_def recovery_batch_meta_def)
    then have "validate_state_chain ?m refs = (if refs \<noteq> [] \<or> jr_post_state_checksum r = 0 then Some () else None)"
      by (cases "validate_state_chain ?m refs") auto
    ultimately show ?thesis
      using collect_sorted_refs [OF compaction_refs_sorted [OF rf(1)]] lref m
      by (simp add: current_files_def files_after_def of_option_def recovery_file_list_def)
  qed
  have closure: "closure_decode E volume ptr mbytes (Some lbytes) =
      (if refs \<noteq> [] \<or> jr_post_state_checksum r = 0
       then Returned \<lparr> mc_manifest = ?m, mc_complete_list = Some ?l, mc_files = refs \<rparr> else Failed ())"
    using dm dl current m by (simp add: closure_decode_def ptr manifest_pointer_def of_option_def)
  have key: "identity_store_key (or_identity (refs ! j)) = blx_key volume fence (- 1 - 1024 + of_nat j)" if "j < length refs" for j
    using rf(1) that by (simp add: compaction_refs_def recovery_batch_meta_def identity_store_key_def)
  have inj: "(- 1 - 1024 + of_nat i :: u64) = - 1 - 1024 + of_nat j \<longleftrightarrow> i = j" if "i < length refs" "j < length refs" for i j
  proof -
    have "i < 2 ^ 64" "j < 2 ^ 64" using rf(1) that by (auto simp: compaction_refs_def)
    then have "unat (of_nat i :: u64) = i" "unat (of_nat j :: u64) = j" by (simp_all add: unat_of_nat)
    then show ?thesis by (metis add_left_imp_eq)
  qed
  have data: "map2 (\<lambda>ref ob. (identity_store_key (or_identity ref), bo_bytes ob)) refs outs =
      map (\<lambda>j. (blx_key volume fence (- 1 - 1024 + of_nat j), bo_bytes (outs ! j))) [0..<length refs]"
    by (rule nth_equalityI) (simp_all add: key rf(3))
  have dist: "distinct (map fst store)"
    using inj store_keys_apart store_keys_apart(2-4) [THEN not_sym] by (auto simp: store data distinct_map inj_on_def comp_def)
  have get: "map_of store (identity_store_key (or_identity (refs ! j))) = Some (bo_bytes (outs ! j))" if "j < length refs" for j
    using that by (intro map_of_is_SomeI [OF dist]) (auto simp: key store data)
  have mptr: "map_of store (ptr_manifest_key ptr volume) = Some mbytes"
    by (intro map_of_is_SomeI [OF dist]) (simp add: store ptr_manifest_key_def)
  have lptr: "map_of store (complete_file_list_key volume fence (jr_seq r)) = Some lbytes"
    by (intro map_of_is_SomeI [OF dist]) (simp add: store)
  from compaction_newest [OF outs lz] obtain before after where before: "read_objects E inputs = Some before"
    and after: "read_objects E outs = Some after" "\<forall>k. newest_of after k = after_compaction True (newest_of before k)"
    by blast
  have "newest_of after = newest_of before"
    using after(2) by (auto simp: after_compaction_def fun_eq_iff split: option.splits)
  then have "archive_serves E store refs (newest_of before)"
    unfolding archive_serves_def using get rf(3,4) after(1) by metis
  then show ?thesis using inputs before dist mptr lptr m(1-5) dm closure by blast
qed

section \<open>The publication\<close>

definition other_blobs :: "replica_export \<Rightarrow> (string \<times> bytes) set" where
  "other_blobs ex = {b \<in> set (ex_blobs ex). \<not> is_journal_name (fst b)}"

lemma find_SomeD: "find P xs = Some x \<Longrightarrow> x \<in> set xs \<and> P x"
  by (auto simp: find_Some_iff)

lemma journal_names: "is_journal_name (journal_blob v f n)" "is_journal_name (journal_mirror_blob v f n)"
  by (simp_all add: is_journal_name_def parse_blob_names)

lemma refence_spec:
  assumes "fits_u32 (env_page_size E)" "refence_replica_export E volume ex fence = Returned ex'"
  shows "\<exists>name bs r bs'. (name, bs) \<in> set (ex_blobs ex) \<and> is_journal_name name \<and> journal_decode E volume bs = Some r \<and>
    journal_decode E volume bs' = Some (r\<lparr> jr_fence := fence \<rparr>) \<and>
    set (ex_blobs ex') = other_blobs ex \<union> {(journal_blob volume fence (jr_seq r), bs'), (journal_mirror_blob volume fence (jr_seq r), bs')}"
proof -
  from assms(2) obtain name bs r bs' where
    f: "find (\<lambda>(name, _). is_journal_name name) (ex_blobs ex) = Some (name, bs)"
    and r: "journal_decode E volume bs = Some r" and bs': "journal_encode E volume (r\<lparr> jr_fence := fence \<rparr>) = Some bs'"
    and ex': "ex_blobs ex' = sort_key fst (filter (\<lambda>(name, _). \<not> is_journal_name name) (ex_blobs ex) @
           [(journal_blob volume fence (jr_seq r), bs'), (journal_mirror_blob volume fence (jr_seq r), bs')])"
    by (auto simp: refence_replica_export_def outcome_bind_Returned Let_def)
  from f have "(name, bs) \<in> set (ex_blobs ex)" "is_journal_name name"
    by (auto dest!: find_SomeD)
  moreover have "journal_decode E volume bs' = Some (r\<lparr> jr_fence := fence \<rparr>)"
    using journal_refenced_encodes [OF assms(1) r, of fence] bs' by simp
  moreover have "set (ex_blobs ex') = other_blobs ex \<union> {(journal_blob volume fence (jr_seq r), bs'), (journal_mirror_blob volume fence (jr_seq r), bs')}"
    by (auto simp: ex' other_blobs_def)
  ultimately show ?thesis using r by blast
qed

text \<open>
  C13: A published recovery reads back, exactly when the volume has data files of its own or an
  empty state.  The head names the claimant, its fence and the manifest, and remembers the recovered
  spool for release.  The manifest carries the recovered journal record's capture instant, sync
  watermark, configuration and recovery kind; the store holds each object under its own key; the
  listed files hold, for every block, the newest entry of the exported files.  The manifest never
  names an imported base, and a record with a nonempty state but no files of its own, which is what
  a fresh fork has, publishes a manifest that no reader accepts.
\<close>

theorem replica_publication_readable:
  assumes "validate_page_size (env_page_size E)" "lz4_roundtrips E"
    and "prepare_replica_publication E volume claimant fence claimed ex = Returned pub"
  shows "\<exists>ptr name bs r inputs before refs lbytes mbytes m l.
    rp_head pub = claimed\<lparr> hd_volume := volume, hd_holder := claimant, hd_fence := fence, hd_manifest := Some ptr,
      hd_stash := None, hd_retired_stashes := [\<lparr> rs_peer = ex_source_peer ex,
        rs_assignment_epoch = ex_assignment_epoch ex, rs_through = ex_info ex \<rparr>] \<rparr> \<and>
    (name, bs) \<in> set (ex_blobs ex) \<and> is_journal_name name \<and> journal_decode E volume bs = Some r \<and>
    other_blobs (rp_export pub) = other_blobs ex \<and>
    open_blx_blobs E (ex_blobs (rp_export pub)) = Returned inputs \<and> read_objects E inputs = Some before \<and>
    archive_serves E (rp_store_objects pub) refs (newest_of before) \<and> distinct (map fst (rp_store_objects pub)) \<and>
    map_of (rp_store_objects pub) (ptr_manifest_key ptr volume) = Some mbytes \<and>
    map_of (rp_store_objects pub) (complete_file_list_key volume fence (jr_seq r)) = Some lbytes \<and>
    mf_base m = None \<and> mf_capture_seq m = jr_capture_seq r \<and> mf_sync_covered_through m = jr_sync_covered_through r \<and>
    mf_config m = jr_config r \<and>
    (mf_recovery_kind m, mf_checkpoint_epoch m, mf_vmstate_logical_length m) = recovery_metadata r \<and>
    manifest_decode E volume mbytes = Some m \<and>
    closure_decode E volume ptr mbytes (Some lbytes) =
      (if refs \<noteq> [] \<or> jr_post_state_checksum r = 0
       then Returned \<lparr> mc_manifest = m, mc_complete_list = Some l, mc_files = refs \<rparr> else Failed ())"
proof -
  have ps: "fits_u32 (env_page_size E)" using assms(1) by (simp add: validate_page_size_def)
  from assms(3) obtain r' rb ptr where
    re: "refence_replica_export E volume ex fence = Returned (rp_export pub)"
    and pr: "publication_record E volume fence (rp_export pub) = Returned (r', rb)"
    and build: "build_replica_archive E volume fence r' rb (rp_export pub) = Returned (rp_store_objects pub, ptr)"
    and head: "rp_head pub = claimed\<lparr> hd_volume := volume, hd_holder := claimant, hd_fence := fence, hd_manifest := Some ptr,
      hd_stash := None, hd_retired_stashes := [\<lparr> rs_peer = ex_source_peer ex,
        rs_assignment_epoch = ex_assignment_epoch ex, rs_through = ex_info ex \<rparr>] \<rparr>"
    by (auto simp: prepare_replica_publication_def outcome_bind_Returned Let_def)
  from refence_spec [OF ps re] obtain name bs r bs' where
    jr: "(name, bs) \<in> set (ex_blobs ex)" "is_journal_name name" "journal_decode E volume bs = Some r"
    and bs': "journal_decode E volume bs' = Some (r\<lparr> jr_fence := fence \<rparr>)"
    and blobs: "set (ex_blobs (rp_export pub)) = other_blobs ex \<union> {(journal_blob volume fence (jr_seq r), bs'), (journal_mirror_blob volume fence (jr_seq r), bs')}"
    by blast
  have r': "r' = r\<lparr> jr_fence := fence \<rparr>"
  proof -
    from pr obtain n where "(n, rb) \<in> set (ex_blobs (rp_export pub))" "is_journal_name n" "journal_decode E volume rb = Some r'"
      by (auto simp: publication_record_def outcome_bind_Returned is_journal_name_def dest!: find_SomeD
          split: option.splits blob_name.splits)
    then show ?thesis using bs' by (auto simp: blobs other_blobs_def)
  qed
  have cfg: "vc_pages (jr_config r') \<noteq> 0"
    using bs' by (auto simp: r' journal_decode_iff [OF ps] journal_encode_def config_valid_def elim!: bind_SomeE)
  have "recovery_metadata r' = recovery_metadata r" 
    by (cases "jr_kind r") (simp_all add: r' recovery_metadata_def record_verdict_def)
  moreover have "other_blobs (rp_export pub) = other_blobs ex"
    using blobs journal_names by (auto simp: other_blobs_def)
  moreover have "jr_seq r' = jr_seq r" "jr_capture_seq r' = jr_capture_seq r" "jr_config r' = jr_config r"
    "jr_sync_covered_through r' = jr_sync_covered_through r" "jr_post_state_checksum r' = jr_post_state_checksum r"
    by (simp_all add: r')
  ultimately show ?thesis
    using build_archive_spec [OF assms(1,2) build cfg] head jr by (simp only:) blast
qed

section \<open>A concrete publication\<close>

lemma open_blx_blobs_none: "\<forall>b \<in> set blobs. \<not> is_blx_name (fst b) \<Longrightarrow> open_blx_blobs E blobs = Returned []"
  by (induction blobs) auto

lemma compact_nothing: "compact_objects E (recovery_batch_meta volume fence r) [] True = Returned []"
  by (simp add: compact_objects_def compactor_finish_def builder_new_partitioned_def builder_new_def bm_values_def
      builder_finish_def recovery_batch_meta_def)

lemma demo_archive_builds:
  assumes "\<forall>b \<in> set (ex_blobs ex). \<not> is_blx_name (fst b)"
  shows "\<exists>out. build_replica_archive demo_env 7 3 (demo_journal\<lparr> jr_fence := 3 \<rparr>) rb ex = Returned out"
proof -
  let ?r = "demo_journal\<lparr> jr_fence := 3 \<rparr>"
  let ?l = "recovery_file_list 7 3 ?r []"
  have val: "validate_object_refs demo_env [] = Some ()"
    by (simp add: validate_object_refs_def validate_objects_def bm_values_def range_events_def)
  obtain lb where lb: "file_list_encode demo_env ?l = Some lb"
    using val by (auto simp: file_list_encode_def recovery_file_list_def enc_file_list_content_def enc_many_def seal_frame_def
        fits_u32_def MAX_METADATA_OBJECT_BYTES_def Let_def)
  then obtain lref where lref: "file_list_reference demo_env ?l = Some lref" by (simp add: file_list_reference_def)
  let ?m = "recovery_manifest demo_env 7 3 ?r rb lref"
  have "validate_manifest_shape demo_env ?m = Some ()"
    using val by (simp add: validate_manifest_shape_def recovery_manifest_def recovery_metadata_def demo_journal_def Let_def)
  moreover have "length (enc_manifest_payload demo_env ?m) \<le> 1000"
    by (simp add: enc_manifest_payload_def enc_manifest_prefix_def enc_config_def enc_base_ref_def enc_list_ref_def
        enc_many_def recovery_manifest_def recovery_metadata_def demo_journal_def)
  ultimately obtain mb where "manifest_encode demo_env ?m = Returned mb"
    by (auto simp: manifest_encode_Returned seal_frame_def fits_u32_def MAX_MANIFEST_BYTES_def demo_env_def
        recovery_manifest_def recovery_metadata_def demo_journal_def)
  then show ?thesis
    using lb lref by (simp add: build_replica_archive_def open_blx_blobs_none [OF assms] compact_nothing map_err_def
        or_panic_def Let_def) (simp add: demo_journal_def)
qed

lemma demo_publication:
  obtains ex pub where "prepare_replica_publication demo_env 7 4 3 demo_head ex = Returned pub"
proof -
  obtain rec where rec: "journal_decode demo_env 7 rec = Some demo_journal" by (rule demo_journal_record)
  define ex where "ex = \<lparr> ex_source_peer = 9, ex_assignment_epoch = 5, ex_info = journal_commit_info demo_journal,
    ex_sync_covered_through = 8, ex_blobs = [(journal_blob 7 2 4, rec)] \<rparr>"
  have ps: "fits_u32 (env_page_size demo_env)" using demo_env_page_size by (simp add: validate_page_size_def)
  obtain bs' where "journal_encode demo_env 7 (demo_journal\<lparr> jr_fence := 3 \<rparr>) = Some bs'"
    using journal_refenced_encodes [OF ps rec, of 3] by blast
  then obtain ex' where re: "refence_replica_export demo_env 7 ex 3 = Returned ex'"
    using rec by (simp add: refence_replica_export_def ex_def journal_names or_fail_def or_panic_def Let_def)
  have others: "other_blobs ex = {}" using journal_names by (auto simp: ex_def other_blobs_def)
  have "bs = rec" if "(name, bs) \<in> set (ex_blobs ex)" for name bs using that by (simp add: ex_def)
  with refence_spec [OF ps re] rec others obtain bs' where bs': "journal_decode demo_env 7 bs' = Some (demo_journal\<lparr> jr_fence := 3 \<rparr>)"
    and blobs: "set (ex_blobs ex') = {(journal_blob 7 3 (jr_seq demo_journal), bs'), (journal_mirror_blob 7 3 (jr_seq demo_journal), bs')}"
    by auto
  let ?P = "\<lambda>(name, _ :: bytes). case parse_blob name of Some (Journal_Blob _ fence _) \<Rightarrow> fence = 3 | _ \<Rightarrow> False"
  have "find ?P (ex_blobs ex') \<noteq> None"
  proof -
    have "(journal_blob 7 3 (jr_seq demo_journal), bs') \<in> set (ex_blobs ex')" by (simp add: blobs)
    moreover have "?P (journal_blob 7 3 (jr_seq demo_journal), bs')" by (simp add: parse_blob_names)
    ultimately show ?thesis unfolding find_None_iff by blast
  qed
  then obtain n b where f: "find ?P (ex_blobs ex') = Some (n, b)" by fastforce
  have "b = bs'" using find_SomeD [OF f] blobs by auto
  then have pr: "publication_record demo_env 7 3 ex' = Returned (demo_journal\<lparr> jr_fence := 3 \<rparr>, bs')"
    using f bs' by (simp add: publication_record_def or_fail_def)
  have "\<forall>b \<in> set (ex_blobs ex'). \<not> is_blx_name (fst b)"
    unfolding blobs by (simp add: is_blx_name_def parse_blob_names)
  then obtain out where "build_replica_archive demo_env 7 3 (demo_journal\<lparr> jr_fence := 3 \<rparr>) bs' ex' = Returned out"
    using demo_archive_builds by blast
  then have "\<exists>pub. prepare_replica_publication demo_env 7 4 3 demo_head ex = Returned pub"
    by (cases out) (simp add: prepare_replica_publication_def re pr Let_def)
  then show ?thesis using that by blast
qed

theorem replica_publication_readable_witness:
  "\<exists>ex pub ptr mbytes m. prepare_replica_publication demo_env 7 4 3 demo_head ex = Returned pub \<and>
     hd_manifest (rp_head pub) = Some ptr \<and>
     map_of (rp_store_objects pub) (ptr_manifest_key ptr 7) = Some mbytes \<and>
     manifest_decode demo_env 7 mbytes = Some m \<and> mf_base m = None"
proof -
  obtain ex pub where pub: "prepare_replica_publication demo_env 7 4 3 demo_head ex = Returned pub"
    by (rule demo_publication)
  from replica_publication_readable [OF demo_env_page_size demo_env_lz4(1) pub] pub show ?thesis by fastforce
qed

end
