(* ===== verification/Gc.thy ===== *)
theory Gc
  imports Head
begin

text \<open>
  Cluster garbage collection, \<^verbatim>\<open>crates/core/src/gc.rs\<close>.  One pass over a bucket listing marks
  what the heads, the base roots and the pending publications reach, and sweeps the rest once it
  is older than the grace.  A root that cannot be read empties the plan.  \<open>root_reaches\<close> and
  \<open>root_intact\<close> say which keys a root protects and when it can be followed, with no reference to
  the order of marking; the plan is proved to be exactly the sweep they describe.
\<close>

text \<open>One listed object: its key, its last-write time and its bytes.\<close>

type_synonym store_object = "string \<times> u64 \<times> bytes"

text \<open>The marker's state: the keys to keep, and whether some root could not be followed.\<close>

type_synonym mark_state = "string set \<times> bool"

definition find_object :: "store_object list \<Rightarrow> string \<Rightarrow> store_object option" where
  "find_object objects key = find (\<lambda>(k, _, _). k = key) objects"

definition mark_objects :: "store_object list \<Rightarrow> string set \<Rightarrow> object_ref list \<Rightarrow> string set" where
  "mark_objects objects keep references =
     foldl (\<lambda>keep r. case find_object objects (identity_store_key (or_identity r)) of
              Some (key, _, _) \<Rightarrow> insert key keep
            | None \<Rightarrow> keep) keep references"

definition root_of_base_ref :: "base_ref \<Rightarrow> base_root" where
  "root_of_base_ref b = \<lparr> bt_base_id = br_base_id b, bt_manifest_id = br_manifest_id b,
     bt_manifest_checksum = br_manifest_checksum b, bt_post_state_checksum = br_post_state_checksum b \<rparr>"

definition mark_base :: "env \<Rightarrow> store_object list \<Rightarrow> string set \<Rightarrow> base_root \<Rightarrow> string set \<times> bool" where
  "mark_base E objects keep root =
     (case find_object objects (base_manifest_key (bt_base_id root) (bt_manifest_id root)) of
        None \<Rightarrow> (keep, False)
      | Some (key, _, bs) \<Rightarrow>
          let keep = insert key keep in
          case base_manifest_decode E root bs of
            None \<Rightarrow> (keep, False)
          | Some b \<Rightarrow> (mark_objects objects keep (bs_objects b), True))"

definition mark_files ::
  "env \<Rightarrow> store_object list \<Rightarrow> string set \<Rightarrow> manifest \<Rightarrow> complete_file_list option \<Rightarrow> (string set \<times> bool) option" where
  "mark_files E objects keep m l =
     (case current_files E m l of
        Panicked \<Rightarrow> None
      | Failed _ \<Rightarrow> Some (keep, False)
      | Returned current \<Rightarrow>
          let keep = mark_objects objects keep current in
          case mf_base m of
            None \<Rightarrow> Some (keep, True)
          | Some base \<Rightarrow> Some (mark_base E objects keep (root_of_base_ref base)))"

text \<open>The flag of the result is the code's: whether the whole closure was readable.\<close>

definition mark_manifest ::
  "env \<Rightarrow> store_object list \<Rightarrow> string set \<Rightarrow> manifest \<Rightarrow> (string set \<times> bool) option" where
  "mark_manifest E objects keep m =
     (case mf_complete_list m of
        None \<Rightarrow> mark_files E objects keep m None
      | Some reference \<Rightarrow>
          (case find_object objects (list_ref_store_key reference (mf_volume m)) of
             None \<Rightarrow> Some (keep, False)
           | Some (key, _, bs) \<Rightarrow>
               let keep = insert key keep in
               case file_list_decode E reference (mf_volume m) bs of
                 None \<Rightarrow> Some (keep, False)
               | Some l \<Rightarrow> mark_files E objects keep m (Some l)))"

definition mark_head ::
  "env \<Rightarrow> store_object list \<Rightarrow> mark_state \<Rightarrow> string \<Rightarrow> volume_id \<Rightarrow> bytes \<Rightarrow> mark_state option" where
  "mark_head E objects st key volume bs =
     (let (keep, unsafe_root) = st; keep = insert key keep in
      case head_decode E volume bs of
        None \<Rightarrow> Some (keep, True)
      | Some head \<Rightarrow>
          (case hd_manifest head of
             None \<Rightarrow> Some (keep, unsafe_root)
           | Some ptr \<Rightarrow>
               (case find_object objects (ptr_manifest_key ptr volume) of
                  None \<Rightarrow> Some (keep, True)
                | Some (key, _, manifest_bytes) \<Rightarrow>
                    let keep = insert key keep in
                    if checksum64 E manifest_bytes \<noteq> mp_checksum ptr then Some (keep, True)
                    else case manifest_decode E volume manifest_bytes of
                      None \<Rightarrow> Some (keep, True)
                    | Some m \<Rightarrow>
                        map_option (\<lambda>(keep, ok). (keep, unsafe_root \<or> \<not> ok)) (mark_manifest E objects keep m))))"

definition mark_base_root ::
  "env \<Rightarrow> store_object list \<Rightarrow> mark_state \<Rightarrow> string \<Rightarrow> u64 \<Rightarrow> bytes \<Rightarrow> mark_state" where
  "mark_base_root E objects st key base bs =
     (let (keep, unsafe_root) = st; keep = insert key keep in
      case base_root_decode E base bs of
        None \<Rightarrow> (keep, True)
      | Some root \<Rightarrow>
          (case find_object objects (base_manifest_key base (bt_manifest_id root)) of
             None \<Rightarrow> (keep, True)
           | Some (key, _, manifest_bytes) \<Rightarrow>
               let keep = insert key keep in
               case base_manifest_decode E root manifest_bytes of
                 None \<Rightarrow> (keep, True)
               | Some b \<Rightarrow> (mark_objects objects keep (bs_objects b), unsafe_root)))"

text \<open>The body of the first loop: heads and base roots.\<close>

definition mark_root :: "env \<Rightarrow> store_object list \<Rightarrow> mark_state \<Rightarrow> store_object \<Rightarrow> mark_state option" where
  "mark_root E objects st object =
     (let (key, _, bs) = object in
      case parse_key key of
        Some (Head_Key volume) \<Rightarrow> mark_head E objects st key volume bs
      | Some (Base_Root_Key base) \<Rightarrow> Some (mark_base_root E objects st key base bs)
      | _ \<Rightarrow> Some st)"

text \<open>Whether the volume's head already reaches a pending manifest.\<close>

definition pending_published :: "env \<Rightarrow> store_object list \<Rightarrow> volume_id \<Rightarrow> manifest \<Rightarrow> bool" where
  "pending_published E objects volume m =
     (case find_object objects (head_key volume) of
        None \<Rightarrow> False
      | Some (_, _, bs) \<Rightarrow>
          (case Option.bind (head_decode E volume bs) hd_manifest of
             None \<Rightarrow> False
           | Some current \<Rightarrow> (mf_capture_seq m, mf_archive_seq m) \<le> (mp_capture_seq current, mp_seq current)))"

text \<open>The body of the second loop: pending publications.\<close>

definition mark_pending :: "env \<Rightarrow> store_object list \<Rightarrow> mark_state \<Rightarrow> store_object \<Rightarrow> mark_state option" where
  "mark_pending E objects st object =
     (let (key, _, bs) = object; (keep, unsafe_root) = st in
      case parse_key key of
        Some (Pending_Manifest_Key volume fence seq) \<Rightarrow>
          (case manifest_decode E volume bs of
             None \<Rightarrow> Some (insert key keep, True)
           | Some m \<Rightarrow>
               if mf_writer_fence m \<noteq> fence \<or> mf_archive_seq m \<noteq> seq then Some (insert key keep, True)
               else if pending_published E objects volume m then Some st
               else map_option (\<lambda>(keep, ok). (keep, unsafe_root \<or> \<not> ok))
                      (mark_manifest E objects (insert key keep) m))
      | _ \<Rightarrow> Some st)"

primrec try_fold :: "('s \<Rightarrow> 'a \<Rightarrow> 's option) \<Rightarrow> 'a list \<Rightarrow> 's \<Rightarrow> 's option" where
  "try_fold f [] s = Some s"
| "try_fold f (x # xs) s = Option.bind (f s x) (try_fold f xs)"

definition gc_plan :: "env \<Rightarrow> u64 \<Rightarrow> u64 \<Rightarrow> store_object list \<Rightarrow> string list option" where
  "gc_plan E now grace objects =
     do { st \<leftarrow> try_fold (mark_root E objects) objects ({}, False);
          (keep, unsafe_root) \<leftarrow> try_fold (mark_pending E objects) objects st;
          let keep = keep - {''''};
          if unsafe_root then Some []
          else Some (map fst (filter (\<lambda>(key, put_at, _). key \<notin> keep \<and> grace < saturating_sub now put_at) objects)) }"

section \<open>What a root protects\<close>

definition lookup_object :: "store_object list \<Rightarrow> string \<Rightarrow> bytes option" where
  "lookup_object objects key = map_option (snd \<circ> snd) (find_object objects key)"

definition base_files :: "env \<Rightarrow> store_object list \<Rightarrow> base_root \<Rightarrow> object_ref list option" where
  "base_files E objects root =
     do { bs \<leftarrow> lookup_object objects (base_manifest_key (bt_base_id root) (bt_manifest_id root));
          b \<leftarrow> base_manifest_decode E root bs;
          Some (bs_objects b) }"

definition manifest_files :: "env \<Rightarrow> store_object list \<Rightarrow> manifest \<Rightarrow> object_ref list option" where
  "manifest_files E objects m =
     do { l \<leftarrow> (case mf_complete_list m of
                  None \<Rightarrow> Some None
                | Some reference \<Rightarrow>
                    do { bs \<leftarrow> lookup_object objects (list_ref_store_key reference (mf_volume m));
                         l \<leftarrow> file_list_decode E reference (mf_volume m) bs;
                         Some (Some l) });
          case current_files E m l of Returned files \<Rightarrow> Some files | _ \<Rightarrow> None }"

definition manifest_intact :: "env \<Rightarrow> store_object list \<Rightarrow> manifest \<Rightarrow> bool" where
  "manifest_intact E objects m \<longleftrightarrow> manifest_files E objects m \<noteq> None \<and>
     pred_option (\<lambda>base. base_files E objects (root_of_base_ref base) \<noteq> None) (mf_base m)"

definition file_keys :: "object_ref list option \<Rightarrow> string set" where
  "file_keys files = (\<lambda>r. identity_store_key (or_identity r)) ` (\<Union>fs \<in> set_option files. set fs)"

definition manifest_keys :: "env \<Rightarrow> store_object list \<Rightarrow> manifest \<Rightarrow> string set" where
  "manifest_keys E objects m =
     (\<lambda>reference. list_ref_store_key reference (mf_volume m)) ` set_option (mf_complete_list m) \<union>
     file_keys (manifest_files E objects m) \<union>
     (\<Union>base \<in> set_option (mf_base m).
        insert (base_manifest_key (br_base_id base) (br_manifest_id base))
          (file_keys (base_files E objects (root_of_base_ref base))))"

text \<open>The manifest a head points at: present, with the pointer's checksum, and decodable.\<close>

definition pointed_manifest :: "env \<Rightarrow> store_object list \<Rightarrow> volume_id \<Rightarrow> manifest_ptr \<Rightarrow> manifest option" where
  "pointed_manifest E objects volume ptr =
     do { bs \<leftarrow> lookup_object objects (ptr_manifest_key ptr volume);
          guard_opt (checksum64 E bs = mp_checksum ptr);
          manifest_decode E volume bs }"

definition root_intact :: "env \<Rightarrow> store_object list \<Rightarrow> string \<Rightarrow> bytes \<Rightarrow> bool" where
  "root_intact E objects key bs =
     (case parse_key key of
        Some (Head_Key volume) \<Rightarrow>
          (\<exists>head. head_decode E volume bs = Some head \<and>
             pred_option (\<lambda>ptr. \<exists>m. pointed_manifest E objects volume ptr = Some m \<and> manifest_intact E objects m)
               (hd_manifest head))
      | Some (Base_Root_Key base) \<Rightarrow>
          (\<exists>root. base_root_decode E base bs = Some root \<and> base_files E objects root \<noteq> None)
      | Some (Pending_Manifest_Key volume fence seq) \<Rightarrow>
          (\<exists>m. manifest_decode E volume bs = Some m \<and> mf_writer_fence m = fence \<and> mf_archive_seq m = seq \<and>
             (pending_published E objects volume m \<or> manifest_intact E objects m))
      | _ \<Rightarrow> True)"

definition root_reaches :: "env \<Rightarrow> store_object list \<Rightarrow> string \<Rightarrow> bytes \<Rightarrow> string set" where
  "root_reaches E objects key bs =
     (case parse_key key of
        Some (Head_Key volume) \<Rightarrow>
          insert key (\<Union>ptr \<in> set_option (Option.bind (head_decode E volume bs) hd_manifest).
            insert (ptr_manifest_key ptr volume)
              (\<Union>m \<in> set_option (pointed_manifest E objects volume ptr). manifest_keys E objects m))
      | Some (Base_Root_Key base) \<Rightarrow>
          insert key (\<Union>root \<in> set_option (base_root_decode E base bs).
            insert (base_manifest_key base (bt_manifest_id root)) (file_keys (base_files E objects root)))
      | Some (Pending_Manifest_Key volume fence seq) \<Rightarrow>
          (\<Union>m \<in> set_option (manifest_decode E volume bs).
             if pending_published E objects volume m then {} else insert key (manifest_keys E objects m))
      | _ \<Rightarrow> {})"

definition roots_intact :: "env \<Rightarrow> store_object list \<Rightarrow> bool" where
  "roots_intact E objects \<longleftrightarrow> (\<forall>(key, _, bs) \<in> set objects. root_intact E objects key bs)"

definition live_keys :: "env \<Rightarrow> store_object list \<Rightarrow> string set" where
  "live_keys E objects = (\<Union>(key, _, bs) \<in> set objects. root_reaches E objects key bs)"

section \<open>Marking\<close>

lemma find_object_Some: "find_object objects key = Some (k, t, bs) \<Longrightarrow> k = key \<and> (key, t, bs) \<in> set objects"
  by (auto simp: find_object_def find_Some_iff dest: nth_mem)

lemma find_object_None: "find_object objects key = None \<longleftrightarrow> key \<notin> fst ` set objects"
  by (force simp: find_object_def find_None_iff)

lemma lookup_object_iff: "lookup_object objects key = Some bs \<longleftrightarrow> (\<exists>t. find_object objects key = Some (key, t, bs))"
  by (auto simp: lookup_object_def dest: find_object_Some)

lemma lookup_object_None: "lookup_object objects key = None \<longleftrightarrow> find_object objects key = None"
  by (simp add: lookup_object_def)

text \<open>Two keep sets agree when they agree on the keys that exist.\<close>

definition agree :: "store_object list \<Rightarrow> string set \<Rightarrow> string set \<Rightarrow> bool" where
  "agree objects A B \<longleftrightarrow> (\<forall>key \<in> fst ` set objects. key \<in> A \<longleftrightarrow> key \<in> B)"

lemma agree_refl [simp]: "agree objects A A"
  by (simp add: agree_def)

lemma agree_trans: "agree objects A B \<Longrightarrow> agree objects B C \<Longrightarrow> agree objects A C"
  by (simp add: agree_def)

lemma mark_objects_agree:
  "agree objects (mark_objects objects keep refs) (keep \<union> file_keys (Some refs))"
proof (induction refs arbitrary: keep)
  case Nil
  then show ?case by (simp add: mark_objects_def file_keys_def)
next
  case (Cons r refs)
  let ?k = "identity_store_key (or_identity r)"
  let ?keep = "case find_object objects ?k of Some (key, _, _) \<Rightarrow> insert key keep | None \<Rightarrow> keep"
  have "agree objects ?keep (insert ?k keep)"
  proof (cases "find_object objects ?k")
    case None
    then have "?k \<notin> fst ` set objects" by (simp add: find_object_None)
    then have "agree objects keep (insert ?k keep)" unfolding agree_def by blast
    then show ?thesis by (simp only: None option.case)
  next
    case (Some a)
    then show ?thesis by (cases a) (auto dest: find_object_Some)
  qed
  then have "agree objects (?keep \<union> file_keys (Some refs)) (keep \<union> file_keys (Some (r # refs)))"
    by (auto simp: agree_def file_keys_def)
  from agree_trans [OF Cons.IH [of ?keep] this] show ?case by (simp add: mark_objects_def)
qed

lemma mark_base_spec:
  assumes "mark_base E objects keep root = (keep', ok)"
  shows "ok \<longleftrightarrow> base_files E objects root \<noteq> None"
    and "ok \<Longrightarrow> agree objects keep' (keep \<union> insert (base_manifest_key (bt_base_id root) (bt_manifest_id root))
           (file_keys (base_files E objects root)))"
proof -
  let ?k = "base_manifest_key (bt_base_id root) (bt_manifest_id root)"
  show "ok \<longleftrightarrow> base_files E objects root \<noteq> None"
    using assms by (auto simp: mark_base_def base_files_def lookup_object_def Let_def split: option.splits prod.splits)
  assume ok
  with assms obtain t bs b where "find_object objects ?k = Some (?k, t, bs)" "base_manifest_decode E root bs = Some b"
    "keep' = mark_objects objects (insert ?k keep) (bs_objects b)"
    by (auto simp: mark_base_def Let_def split: option.splits dest: find_object_Some)
  then show "agree objects keep' (keep \<union> insert ?k (file_keys (base_files E objects root)))"
    using mark_objects_agree [of objects "insert ?k keep" "bs_objects b"] by (simp add: base_files_def lookup_object_def)
qed

lemma mark_files_spec:
  assumes "mark_files E objects keep m l = Some (keep', ok)" "manifest_files E objects m = (case current_files E m l of Returned files \<Rightarrow> Some files | _ \<Rightarrow> None)"
    and "l = None \<longleftrightarrow> mf_complete_list m = None"
    and "\<And>reference. mf_complete_list m = Some reference \<Longrightarrow> list_ref_store_key reference (mf_volume m) \<in> keep"
  shows "ok \<longleftrightarrow> manifest_intact E objects m"
    and "ok \<Longrightarrow> agree objects keep' (keep \<union> manifest_keys E objects m)"
proof -
  show intact: "ok \<longleftrightarrow> manifest_intact E objects m"
  proof (cases "mf_base m")
    case (Some b)
    then show ?thesis
      using assms(1,2) mark_base_spec(1) [of E objects _ "root_of_base_ref b" keep' ok]
      by (auto simp: mark_files_def Let_def manifest_intact_def split: outcome.splits)
  qed (use assms(1,2) in \<open>auto simp: mark_files_def Let_def manifest_intact_def split: outcome.splits\<close>)
  assume ok
  with assms(1) obtain files where f: "current_files E m l = Returned files"
    by (auto simp: mark_files_def split: outcome.splits)
  let ?k = "mark_objects objects keep files"
  have marked: "agree objects ?k (keep \<union> file_keys (manifest_files E objects m))"
    using mark_objects_agree assms(2) f by simp
  show "agree objects keep' (keep \<union> manifest_keys E objects m)"
  proof (cases "mf_base m")
    case None
    then have "keep' = ?k" using assms(1) f by (simp add: mark_files_def)
    with marked None assms(4) show ?thesis by (auto simp: agree_def manifest_keys_def)
  next
    case (Some b)
    then have "mark_base E objects ?k (root_of_base_ref b) = (keep', ok)" using assms(1) f by (simp add: mark_files_def)
    from mark_base_spec(2) [OF this \<open>ok\<close>] marked assms(4) Some show ?thesis
      by (auto simp: agree_def manifest_keys_def root_of_base_ref_def)
  qed
qed

lemma mark_files_total: "pred_option (\<lambda>l. file_list_reference E l \<noteq> None) l \<Longrightarrow> mark_files E objects keep m l \<noteq> None"
  by (auto simp: mark_files_def Let_def current_files_def of_option_def split: outcome.splits option.splits if_splits)

lemma mark_manifest_spec:
  "\<exists>keep' ok. mark_manifest E objects keep m = Some (keep', ok) \<and> (ok \<longleftrightarrow> manifest_intact E objects m) \<and>
     (ok \<longrightarrow> agree objects keep' (keep \<union> manifest_keys E objects m))"
proof (cases "mf_complete_list m")
  case None
  then obtain keep' ok where "mark_files E objects keep m None = Some (keep', ok)"
    using mark_files_total [of E None objects keep m] by auto
  with None mark_files_spec [OF this] show ?thesis by (simp add: mark_manifest_def manifest_files_def)
next
  case (Some reference)
  let ?key = "list_ref_store_key reference (mf_volume m)"
  show ?thesis
  proof (cases "Option.bind (lookup_object objects ?key) (file_list_decode E reference (mf_volume m))")
    case None
    then show ?thesis
      using Some by (auto simp: mark_manifest_def manifest_intact_def manifest_files_def lookup_object_def split: option.splits)
  next
    case (Some l)
    then obtain t bs where bs: "find_object objects ?key = Some (?key, t, bs)" "file_list_decode E reference (mf_volume m) bs = Some l"
      by (auto simp: bind_eq_Some_conv lookup_object_iff)
    then have "file_list_reference E l = Some reference" by (simp add: file_list_decode_iff)
    then obtain keep' ok where mark: "mark_files E objects (insert ?key keep) m (Some l) = Some (keep', ok)"
      using mark_files_total [of E "Some l" objects "insert ?key keep" m] by auto
    have "manifest_files E objects m = (case current_files E m (Some l) of Returned files \<Rightarrow> Some files | _ \<Rightarrow> None)"
      using bs \<open>mf_complete_list m = Some reference\<close> by (simp add: manifest_files_def lookup_object_def)
    note spec = mark_files_spec [OF mark this]
    have "insert ?key keep \<union> manifest_keys E objects m = keep \<union> manifest_keys E objects m"
      using \<open>mf_complete_list m = Some reference\<close> by (auto simp: manifest_keys_def)
    with spec bs mark \<open>mf_complete_list m = Some reference\<close> show ?thesis by (simp add: mark_manifest_def)
  qed
qed

text \<open>One step of either loop: it never panics, it notices a root it cannot follow, and otherwise it
  keeps what the root reaches.\<close>

definition marks :: "store_object list \<Rightarrow> mark_state \<Rightarrow> bool \<Rightarrow> string set \<Rightarrow> mark_state option \<Rightarrow> bool" where
  "marks objects st ok reached st' \<longleftrightarrow>
     (\<exists>keep' unsafe'. st' = Some (keep', unsafe') \<and> (unsafe' \<longleftrightarrow> snd st \<or> \<not> ok) \<and>
        (ok \<longrightarrow> agree objects keep' (fst st \<union> reached)))"

lemma marks_skip: "marks objects st True {} (Some st)"
  by (cases st) (simp add: marks_def)

lemma marks_unsafe: "\<not> ok \<Longrightarrow> marks objects st ok reached (Some (keep, True))"
  by (auto simp: marks_def)

lemma marks_manifest:
  assumes "ok \<longleftrightarrow> manifest_intact E objects m" "fst st \<union> reached = keep \<union> manifest_keys E objects m"
  shows "marks objects st ok reached
    (map_option (\<lambda>(keep, ok). (keep, snd st \<or> \<not> ok)) (mark_manifest E objects keep m))"
  using mark_manifest_spec [of E objects keep m] assms by (auto simp: marks_def)

lemma mark_head_marks:
  assumes "parse_key key = Some (Head_Key volume)"
  shows "marks objects st (root_intact E objects key bs) (root_reaches E objects key bs) (mark_head E objects st key volume bs)"
proof (cases "head_decode E volume bs")
  case None
  then show ?thesis using assms by (cases st) (auto simp: mark_head_def root_intact_def intro: marks_unsafe)
next
  case (Some head)
  show ?thesis
  proof (cases "hd_manifest head")
    case None
    with Some assms show ?thesis
      by (cases st) (auto simp: mark_head_def root_intact_def root_reaches_def marks_def agree_def)
  next
    case (Some ptr)
    let ?mk = "ptr_manifest_key ptr volume"
    show ?thesis
    proof (cases "pointed_manifest E objects volume ptr")
      case None
      with Some \<open>head_decode E volume bs = Some head\<close> assms show ?thesis
        by (cases st) (auto simp: mark_head_def root_intact_def pointed_manifest_def lookup_object_def Let_def
            split: option.splits if_splits intro!: marks_unsafe)
    next
      case (Some m)
      then obtain t mb where mb: "find_object objects ?mk = Some (?mk, t, mb)" "checksum64 E mb = mp_checksum ptr"
        "manifest_decode E volume mb = Some m"
        by (auto simp: pointed_manifest_def bind_eq_Some_conv lookup_object_iff)
      let ?keep = "insert ?mk (insert key (fst st))"
      have "mark_head E objects st key volume bs =
        map_option (\<lambda>(keep, ok). (keep, snd st \<or> \<not> ok)) (mark_manifest E objects ?keep m)"
        using mb \<open>head_decode E volume bs = Some head\<close> \<open>hd_manifest head = Some ptr\<close>
        by (cases st) (simp add: mark_head_def)
      moreover have "root_intact E objects key bs \<longleftrightarrow> manifest_intact E objects m"
        "fst st \<union> root_reaches E objects key bs = ?keep \<union> manifest_keys E objects m"
        using Some \<open>head_decode E volume bs = Some head\<close> \<open>hd_manifest head = Some ptr\<close> assms
        by (auto simp: root_intact_def root_reaches_def)
      ultimately show ?thesis using marks_manifest by metis
    qed
  qed
qed

lemma base_root_id: "base_root_decode E base bs = Some root \<Longrightarrow> bt_base_id root = base"
  by (simp add: base_root_decode_iff)

lemma mark_base_root_marks:
  assumes "parse_key key = Some (Base_Root_Key base)"
  shows "marks objects st (root_intact E objects key bs) (root_reaches E objects key bs)
    (Some (mark_base_root E objects st key base bs))"
proof (cases "base_root_decode E base bs")
  case None
  then show ?thesis using assms by (cases st) (auto simp: mark_base_root_def root_intact_def intro: marks_unsafe)
next
  case (Some root)
  obtain keep u where st: "st = (keep, u)" by (cases st)
  obtain keep' ok where mb: "mark_base E objects (insert key keep) root = (keep', ok)" by fastforce
  have "mark_base_root E objects st key base bs = (keep', u \<or> \<not> ok)"
    using mb base_root_id [OF Some] Some
    by (auto simp: mark_base_root_def mark_base_def st Let_def split: option.splits prod.splits)
  then show ?thesis
    using mark_base_spec [OF mb] Some assms base_root_id [OF Some]
    by (auto simp: marks_def root_intact_def root_reaches_def st insert_commute)
qed

lemma mark_pending_marks:
  assumes "parse_key key = Some (Pending_Manifest_Key volume fence seq)"
  shows "marks objects st (root_intact E objects key bs) (root_reaches E objects key bs)
    (mark_pending E objects st (key, t, bs))"
proof (cases "\<exists>m. manifest_decode E volume bs = Some m \<and> mf_writer_fence m = fence \<and> mf_archive_seq m = seq")
  case False
  then have "\<not> root_intact E objects key bs" using assms by (auto simp: root_intact_def)
  with False assms show ?thesis
    by (cases st) (auto simp: mark_pending_def split: option.splits intro: marks_unsafe)
next
  case True
  then obtain m where m: "manifest_decode E volume bs = Some m" "mf_writer_fence m = fence" "mf_archive_seq m = seq"
    by blast
  show ?thesis
  proof (cases "pending_published E objects volume m")
    case True
    with m assms show ?thesis
      by (cases st) (simp add: mark_pending_def root_intact_def root_reaches_def marks_skip)
  next
    case False
    have "mark_pending E objects st (key, t, bs) =
      map_option (\<lambda>(keep, ok). (keep, snd st \<or> \<not> ok)) (mark_manifest E objects (insert key (fst st)) m)"
      using False m assms by (cases st) (simp add: mark_pending_def)
    then show ?thesis
      using False m assms marks_manifest [of _ E objects m st] by (simp add: root_intact_def root_reaches_def)
  qed
qed

definition is_pending :: "store_object \<Rightarrow> bool" where
  "is_pending object = (case parse_key (fst object) of Some (Pending_Manifest_Key _ _ _) \<Rightarrow> True | _ \<Rightarrow> False)"

definition object_intact :: "env \<Rightarrow> store_object list \<Rightarrow> store_object \<Rightarrow> bool" where
  "object_intact E objects object = root_intact E objects (fst object) (snd (snd object))"

definition object_reaches :: "env \<Rightarrow> store_object list \<Rightarrow> store_object \<Rightarrow> string set" where
  "object_reaches E objects object = root_reaches E objects (fst object) (snd (snd object))"

lemma mark_root_marks:
  "marks objects st (is_pending object \<or> object_intact E objects object)
    (if is_pending object then {} else object_reaches E objects object) (mark_root E objects st object)"
proof (cases object)
  case (fields key t bs)
  show ?thesis
    using mark_head_marks [of key _ objects st E bs] mark_base_root_marks [of key _ objects st E bs]
    by (auto simp: fields mark_root_def is_pending_def object_intact_def object_reaches_def root_intact_def
        root_reaches_def marks_skip split: option.splits store_key.splits)
qed

lemma mark_pending_step_marks:
  "marks objects st (\<not> is_pending object \<or> object_intact E objects object)
    (if is_pending object then object_reaches E objects object else {}) (mark_pending E objects st object)"
proof (cases object)
  case (fields key t bs)
  show ?thesis
  proof (cases "is_pending object")
    case True
    then show ?thesis
      using mark_pending_marks [of key _ _ _ objects st E bs t]
      by (auto simp: fields is_pending_def object_intact_def object_reaches_def split: option.splits store_key.splits)
  next
    case False
    then show ?thesis
      by (cases st) (auto simp: fields mark_pending_def is_pending_def marks_skip split: option.splits store_key.splits)
  qed
qed

lemma try_fold_marks:
  assumes "\<And>st x. marks objects st (ok x) (reach x) (f st x)"
  shows "marks objects st (\<forall>x \<in> set xs. ok x) (\<Union>x \<in> set xs. reach x) (try_fold f xs st)"
proof (induction xs arbitrary: st)
  case Nil
  then show ?case using marks_skip by simp
next
  case (Cons x xs)
  from assms [of st x] obtain keep u where step: "f st x = Some (keep, u)" "u \<longleftrightarrow> snd st \<or> \<not> ok x"
    "ok x \<longrightarrow> agree objects keep (fst st \<union> reach x)" by (auto simp: marks_def)
  from Cons.IH [of "(keep, u)"] obtain keep' u' where rest: "try_fold f xs (keep, u) = Some (keep', u')"
    "u' \<longleftrightarrow> u \<or> \<not> (\<forall>x \<in> set xs. ok x)" "(\<forall>x \<in> set xs. ok x) \<longrightarrow> agree objects keep' (keep \<union> (\<Union>x \<in> set xs. reach x))"
    by (auto simp: marks_def)
  then show ?case using step by (auto simp: marks_def agree_def)
qed

lemma key_nonempty: "'''' \<notin> root_reaches E objects key bs"
proof -
  have "'''' \<noteq> identity_store_key i" for i
    by (simp add: identity_store_key_def blx_key_def base_blx_key_def split: namespace_kind.split)
  moreover have "parse_key '''' = None" by (simp add: parse_key_def strip_prefix_def)
  ultimately show ?thesis
    by (auto simp: root_reaches_def manifest_keys_def file_keys_def base_manifest_key_def ptr_manifest_key_def
        manifest_key_def archive_manifest_key_def list_ref_store_key_def complete_file_list_key_def
        split: option.splits store_key.splits if_splits)
qed

lemma gc_plan_spec:
  "gc_plan E now grace objects = Some
     (if roots_intact E objects
      then map fst (filter (\<lambda>(key, put_at, _). key \<notin> live_keys E objects \<and> grace < saturating_sub now put_at) objects)
      else [])"
proof -
  let ?f = "object_reaches E objects" and ?i = "object_intact E objects"
  obtain k1 u1 where one: "try_fold (mark_root E objects) objects ({}, False) = Some (k1, u1)"
    "u1 \<longleftrightarrow> \<not> (\<forall>x \<in> set objects. is_pending x \<or> ?i x)"
    "(\<forall>x \<in> set objects. is_pending x \<or> ?i x) \<longrightarrow> agree objects k1 (\<Union>x \<in> set objects. if is_pending x then {} else ?f x)"
    using try_fold_marks [where f = "mark_root E objects" and xs = objects and st = "({}, False)", OF mark_root_marks]
    by (auto simp: marks_def)
  obtain k2 u2 where two: "try_fold (mark_pending E objects) objects (k1, u1) = Some (k2, u2)"
    "u2 \<longleftrightarrow> u1 \<or> \<not> (\<forall>x \<in> set objects. \<not> is_pending x \<or> ?i x)"
    "(\<forall>x \<in> set objects. \<not> is_pending x \<or> ?i x) \<longrightarrow>
       agree objects k2 (k1 \<union> (\<Union>x \<in> set objects. if is_pending x then ?f x else {}))"
    using try_fold_marks [where f = "mark_pending E objects" and xs = objects and st = "(k1, u1)", OF mark_pending_step_marks]
    by (auto simp: marks_def)
  have intact: "roots_intact E objects \<longleftrightarrow> \<not> u2"
    using one(2) two(2) unfolding roots_intact_def object_intact_def by (simp add: case_prod_beta) blast
  have live: "live_keys E objects = (\<Union>x \<in> set objects. ?f x)"
    by (force simp: live_keys_def object_reaches_def)
  have "agree objects (k2 - {''''}) (live_keys E objects)" if "\<not> u2"
  proof -
    have "agree objects k2 (live_keys E objects)"
      using one two that unfolding live by (auto simp: agree_def split: if_splits)
    moreover have "'''' \<notin> live_keys E objects" using key_nonempty by (auto simp: live_keys_def)
    ultimately show ?thesis by (auto simp: agree_def)
  qed
  then have "\<not> u2 \<Longrightarrow> filter (\<lambda>(key, put_at, _). key \<notin> k2 - {''''} \<and> grace < saturating_sub now put_at) objects =
    filter (\<lambda>(key, put_at, _). key \<notin> live_keys E objects \<and> grace < saturating_sub now put_at) objects"
    by (intro filter_cong) (force simp: agree_def)+
  with one(1) two(1) intact show ?thesis by (simp add: gc_plan_def)
qed

text \<open>
  C4: Garbage collection deletes exactly the garbage.  A pass never panics.  When every head, base
  root and pending publication of the listing can be followed through intact metadata, the plan is
  the listed keys that no root reaches and that were last written more than the grace ago, in
  listing order; when any root cannot be followed, the plan is empty.
\<close>

theorem gc_plan_exact:
  "gc_plan E now grace objects = Some
     (if roots_intact E objects
      then map fst (filter (\<lambda>(key, put_at, _). key \<notin> live_keys E objects \<and> grace < saturating_sub now put_at) objects)
      else [])"
  by (rule gc_plan_spec)

end
