(* ===== verification/Object_Store.thy ===== *)
theory Object_Store
  imports Head "HOL-Library.List_Lexorder" "HOL-Library.Char_ord"
begin

text \<open>
  The object store.  \<open>store_ops\<close> is the trait \<^verbatim>\<open>Store\<close> of \<^verbatim>\<open>crates/core/src/world.rs\<close>, on an
  arbitrary world type; the locale \<open>versioned_store\<close> is the contract its clients rely on.  The
  interpretation is the store that the deterministic world of \<^verbatim>\<open>crates/sim/src/world.rs\<close> gives to
  every simulated host, with its outage switch, its size cap, its version counter and its traffic
  counters.  Simulated latency is not modelled: every operation takes effect in one step, before
  its delay.
\<close>

section \<open>The trait\<close>

datatype store_fault = Unavailable | Cas_Conflict "u64 option"
datatype store_error = Fault store_fault | Too_Large

type_synonym 'a store_result = "store_error + 'a"

record 'w store_ops =
  so_put :: "string \<Rightarrow> bytes \<Rightarrow> 'w \<Rightarrow> 'w \<times> u64 store_result"
  so_put_cas :: "string \<Rightarrow> u64 option \<Rightarrow> bytes \<Rightarrow> 'w \<Rightarrow> 'w \<times> u64 store_result"
  so_get :: "string \<Rightarrow> 'w \<Rightarrow> 'w \<times> (u64 \<times> bytes) option store_result"
  so_get_range :: "string \<Rightarrow> u64 \<Rightarrow> u64 \<Rightarrow> 'w \<Rightarrow> 'w \<times> (u64 \<times> bytes) option store_result"
  so_delete :: "string \<Rightarrow> 'w \<Rightarrow> 'w \<times> bool store_result"
  so_list_prefix :: "string \<Rightarrow> 'w \<Rightarrow> 'w \<times> string list store_result"

text \<open>
  The part of the contract that conditional writers use.  \<open>used\<close> is every version the store ever
  gave out, \<open>room\<close> says that it has versions left.  \<^verbatim>\<open>Unavailable\<close> leaves the outcome unknown:
  the write may have landed.
\<close>

locale versioned_store =
  fixes ops :: "'w store_ops"
    and objects :: "'w \<Rightarrow> string \<Rightarrow> (u64 \<times> bytes) option"
    and used :: "'w \<Rightarrow> u64 set"
    and room :: "'w \<Rightarrow> bool"
    and wf :: "'w \<Rightarrow> bool"
  assumes get_objects: "so_get ops key w = (w', r) \<Longrightarrow> objects w' = objects w \<and> used w' = used w"
    and get_value: "so_get ops key w = (w', Inr found) \<Longrightarrow> found = objects w key"
    and cas_effect: "so_put_cas ops key expected bs w = (w', written) \<Longrightarrow>
        (\<exists>e. written = Inl e) \<and> objects w' = objects w \<and> used w' = used w \<or>
        (\<exists>v. (written = Inr v \<or> written = Inl (Fault Unavailable)) \<and> map_option fst (objects w key) = expected \<and>
           objects w' = (objects w)(key \<mapsto> (v, bs)) \<and> used w' = insert v (used w) \<and> (wf w \<and> room w \<longrightarrow> v \<notin> used w))"
    and versions_used: "wf w \<Longrightarrow> objects w key = Some (v, bs) \<Longrightarrow> v \<in> used w"
    and get_wf: "so_get ops key w = (w', r) \<Longrightarrow> wf w \<Longrightarrow> wf w'"
    and cas_wf: "so_put_cas ops key expected bs w = (w', written) \<Longrightarrow> wf w \<Longrightarrow> wf w'"
begin

lemma cas_value:
  "so_put_cas ops key expected bs w = (w', Inr v) \<Longrightarrow>
     map_option fst (objects w key) = expected \<and> objects w' = (objects w)(key \<mapsto> (v, bs)) \<and> used w' = insert v (used w)"
  using cas_effect by fastforce

lemma cas_fresh: "so_put_cas ops key expected bs w = (w', Inr v) \<Longrightarrow> wf w \<Longrightarrow> room w \<Longrightarrow> v \<notin> used w"
  using cas_effect by fastforce

text \<open>
  Compare-and-swap excludes: once one conditional write against a version has succeeded, no
  conditional write against that same version can, as long as the version is not given out again.
\<close>

lemma cas_once:
  assumes first: "so_put_cas ops key (Some e) bs w = (w1, Inr v)" and wf: "wf w" "room w"
    and second: "so_put_cas ops key (Some e) bs' w1 = (w2, Inr v')"
  shows False
proof -
  from cas_value [OF first] obtain old where "objects w key = Some (e, old)" and w1: "objects w1 = (objects w)(key \<mapsto> (v, bs))"
    by auto
  then have "e \<in> used w" using versions_used wf by blast
  moreover have "e = v" using cas_value [OF second] w1 by simp
  ultimately show False using cas_fresh [OF first] wf by simp
qed

text \<open>A read of the key right after a successful conditional write sees it.\<close>

lemma get_after_cas:
  "so_put_cas ops key expected bs w = (w1, Inr v) \<Longrightarrow> so_get ops key w1 = (w2, Inr r) \<Longrightarrow> r = Some (v, bs)"
  by (auto dest!: cas_value get_value)

end

section \<open>The simulated store\<close>

datatype store_object_kind = Kind_Head | Kind_Manifest | Kind_Blx | Kind_Base | Kind_Other

fun kind_index :: "store_object_kind \<Rightarrow> nat" where
  "kind_index Kind_Head = 0"
| "kind_index Kind_Manifest = 1"
| "kind_index Kind_Blx = 2"
| "kind_index Kind_Base = 5"
| "kind_index Kind_Other = 6"

record put_counters =
  pc_attempts :: u64
  pc_successes :: u64
  pc_attempted_bytes :: u64
  pc_successful_bytes :: u64

record store_counters =
  sc_gets :: u64
  sc_puts :: u64
  sc_deletes :: u64
  sc_put_attempts :: u64
  sc_put_successes :: u64
  sc_cas_attempts :: u64
  sc_cas_successes :: u64
  sc_cas_conflicts :: u64
  sc_unavailable :: u64
  sc_too_large :: u64
  sc_bytes_put :: u64
  sc_unique_bytes :: u64
  sc_retry_bytes :: u64
  sc_bytes_got :: u64
  sc_bitflips :: u64
  sc_puts_by_kind :: "put_counters list"
  sc_object_size_histogram :: "u64 list"
  sc_logical_changed_bytes :: u64

record store_state =
  sv_objects :: "(string, u64 \<times> bytes) btree_map"
  sv_next_version :: u64
  sv_outage :: bool
  sv_attempted_payloads :: "(string \<times> nat \<times> u32) set"
  sv_seen_payloads :: "(string \<times> nat \<times> u32) set"
  sv_archived_generations :: "(volume_id, (page_id, gen_no) btree_map) btree_map"
  sv_counters :: store_counters

text \<open>The simulated store's own cap, \<^verbatim>\<open>64 << 20\<close>.\<close>

definition SIM_MAX_OBJECT_BYTES :: nat where
  "SIM_MAX_OBJECT_BYTES = 64 * 1024 * 1024"

text \<open>\<^verbatim>\<open>str::contains\<close>, \<^verbatim>\<open>starts_with\<close>, \<^verbatim>\<open>ends_with\<close>, and \<^verbatim>\<open>Path::extension\<close> on a slash-separated key.\<close>

definition str_starts_with :: "string \<Rightarrow> string \<Rightarrow> bool" where
  "str_starts_with s p \<longleftrightarrow> strip_prefix p s \<noteq> None"

definition str_ends_with :: "string \<Rightarrow> string \<Rightarrow> bool" where
  "str_ends_with s p \<longleftrightarrow> strip_suffix p s \<noteq> None"

fun str_contains :: "string \<Rightarrow> string \<Rightarrow> bool" where
  "str_contains [] p \<longleftrightarrow> p = []"
| "str_contains (c # cs) p \<longleftrightarrow> str_starts_with (c # cs) p \<or> str_contains cs p"

definition path_extension :: "string \<Rightarrow> string option" where
  "path_extension key =
     (let parts = filter (\<lambda>part. part \<noteq> '''' \<and> part \<noteq> ''.'') (split_on (CHR ''/'') key) in
      if parts = [] \<or> last parts = ''..'' then None
      else let pieces = split_on (CHR ''.'') (last parts) in
        if length pieces \<le> 1 \<or> (length pieces = 2 \<and> hd pieces = '''') then None else Some (last pieces))"

definition object_kind :: "string \<Rightarrow> store_object_kind" where
  "object_kind key =
     (if str_ends_with key ''/head'' then Kind_Head
      else if str_contains key ''/m/'' then Kind_Manifest
      else if str_starts_with key ''b/'' then Kind_Base
      else if str_contains key ''/o/'' \<and> path_extension key = Some ''blx'' then Kind_Blx
      else Kind_Other)"

definition payload_identity :: "env \<Rightarrow> string \<Rightarrow> bytes \<Rightarrow> string \<times> nat \<times> u32" where
  "payload_identity E key bs = (key, length bs, env_crc32c E bs)"

definition write_attempt :: "env \<Rightarrow> string \<Rightarrow> bytes \<Rightarrow> bool \<Rightarrow> store_state \<Rightarrow> store_state \<times> store_object_kind" where
  "write_attempt E key bs cas st =
     (let kind = object_kind key; i = kind_index kind; len = of_nat (length bs); c = sv_counters st;
          p = sc_puts_by_kind c ! i;
          p = p\<lparr> pc_attempts := pc_attempts p + 1, pc_attempted_bytes := pc_attempted_bytes p + len \<rparr>;
          ident = payload_identity E key bs;
          c = c\<lparr> sc_put_attempts := sc_put_attempts c + 1, sc_puts_by_kind := (sc_puts_by_kind c)[i := p],
                 sc_cas_attempts := sc_cas_attempts c + (if cas then 1 else 0),
                 sc_retry_bytes := sc_retry_bytes c + (if ident \<in> sv_attempted_payloads st then len else 0) \<rparr>
      in (st\<lparr> sv_attempted_payloads := insert ident (sv_attempted_payloads st), sv_counters := c \<rparr>, kind))"

definition size_bucket :: "nat \<Rightarrow> nat" where
  "size_bucket n =
     (if n \<le> 4096 then 0 else if n \<le> 65536 then 1 else if n \<le> 1048576 then 2 else if n \<le> 8388608 then 3
      else if n \<le> 33554432 then 4 else if n \<le> 67108864 then 5 else 6)"

definition write_success :: "env \<Rightarrow> string \<Rightarrow> bytes \<Rightarrow> store_object_kind \<Rightarrow> bool \<Rightarrow> store_state \<Rightarrow> store_state" where
  "write_success E key bs kind cas st =
     (let i = kind_index kind; len = of_nat (length bs); c = sv_counters st;
          p = sc_puts_by_kind c ! i;
          p = p\<lparr> pc_successes := pc_successes p + 1, pc_successful_bytes := pc_successful_bytes p + len \<rparr>;
          ident = payload_identity E key bs; b = size_bucket (length bs); h = sc_object_size_histogram c;
          c = c\<lparr> sc_puts := sc_puts c + 1, sc_put_successes := sc_put_successes c + 1,
                 sc_bytes_put := sc_bytes_put c + len, sc_puts_by_kind := (sc_puts_by_kind c)[i := p],
                 sc_cas_successes := sc_cas_successes c + (if cas then 1 else 0),
                 sc_unique_bytes := sc_unique_bytes c + (if ident \<in> sv_seen_payloads st then 0 else len),
                 sc_object_size_histogram := h[b := h ! b + 1] \<rparr>
      in st\<lparr> sv_seen_payloads := insert ident (sv_seen_payloads st), sv_counters := c \<rparr>)"

text \<open>\<open>closure_decode\<close> never panics (\<open>closure_decode_no_panic\<close> below), so \<^verbatim>\<open>.ok()\<close> covers both failures.\<close>

definition sim_manifest_closure :: "env \<Rightarrow> volume_id \<Rightarrow> manifest_ptr \<Rightarrow> store_state \<Rightarrow> manifest_closure option" where
  "sim_manifest_closure E volume pointer st =
     do { (_, manifest_bytes) \<leftarrow> map_of (sv_objects st) (ptr_manifest_key pointer volume);
          m \<leftarrow> manifest_decode E volume manifest_bytes;
          let list_bytes = do { reference \<leftarrow> mf_complete_list m;
                                (_, bs) \<leftarrow> map_of (sv_objects st) (list_ref_store_key reference volume);
                                Some bs };
          case closure_decode E volume pointer manifest_bytes list_bytes of Returned c \<Rightarrow> Some c | _ \<Rightarrow> None }"

definition file_generations ::
  "env \<Rightarrow> volume_kind \<Rightarrow> volume_id \<Rightarrow> store_state \<Rightarrow> object_ref list \<Rightarrow> (page_id, gen_no) btree_map" where
  "file_generations E kind volume st files =
     foldl (\<lambda>current file.
       case map_of (sv_objects st) (identity_store_key (or_identity file)) of
         None \<Rightarrow> current
       | Some (_, bs) \<Rightarrow>
           (case scan_object E bs of
              None \<Rightarrow> current
            | Some (_, footer) \<Rightarrow>
                foldl (\<lambda>current entry.
                  case to_page (fe_key entry) kind volume of
                    None \<Rightarrow> current
                  | Some page \<Rightarrow> bm_insert (<) page (fe_generation entry) current) current footer)) [] files"

definition observe_archive_head :: "env \<Rightarrow> string \<Rightarrow> bytes \<Rightarrow> store_state \<Rightarrow> store_state" where
  "observe_archive_head E key bs st =
     (case do { rest \<leftarrow> strip_prefix ''v/'' key;
                volume \<leftarrow> parse_u64 (hd (split_on (CHR ''/'') rest));
                head \<leftarrow> head_decode E volume bs;
                pointer \<leftarrow> hd_manifest head;
                closure \<leftarrow> sim_manifest_closure E volume pointer st;
                Some (volume, closure) } of
        None \<Rightarrow> st
      | Some (volume, closure) \<Rightarrow>
          let current = file_generations E (vc_kind (mf_config (mc_manifest closure))) volume st (mc_files closure);
              previous = (case map_of (sv_archived_generations st) volume of None \<Rightarrow> [] | Some g \<Rightarrow> g);
              changed = length (filter (\<lambda>(page, generation). map_of previous page \<noteq> Some generation) current);
              c = sv_counters st
          in st\<lparr> sv_counters := c\<lparr> sc_logical_changed_bytes :=
                   sc_logical_changed_bytes c + of_nat changed * of_nat (env_page_size E) \<rparr>,
                 sv_archived_generations := bm_insert (<) volume current (sv_archived_generations st) \<rparr>)"

text \<open>
  The world around the store that a write touches: the checkpoint oracle remembers the newest
  snapshot of a volume under the capture instant of each manifest put for it.
\<close>

record oracle_snapshot =
  os_pages :: "(page_id, bytes) btree_map"
  os_unknown :: "page_id btree_set"

record sim_world =
  sw_store :: store_state
  sw_latest :: "(volume_id, oracle_snapshot) btree_map"
  sw_by_capture :: "(volume_id \<times> u64, oracle_snapshot) btree_map"

definition count_unavailable :: "store_state \<Rightarrow> store_state" where
  "count_unavailable st = st\<lparr> sv_counters := (sv_counters st)
     \<lparr> sc_unavailable := saturating_add (sc_unavailable (sv_counters st)) 1 \<rparr> \<rparr>"

definition count_too_large :: "store_state \<Rightarrow> store_state" where
  "count_too_large st = st\<lparr> sv_counters := (sv_counters st)
     \<lparr> sc_too_large := saturating_add (sc_too_large (sv_counters st)) 1 \<rparr> \<rparr>"

definition count_conflict :: "store_state \<Rightarrow> store_state" where
  "count_conflict st = st\<lparr> sv_counters := (sv_counters st)
     \<lparr> sc_cas_conflicts := saturating_add (sc_cas_conflicts (sv_counters st)) 1 \<rparr> \<rparr>"

definition count_get :: "(u64 \<times> bytes) option \<Rightarrow> store_state \<Rightarrow> store_state" where
  "count_get found st =
     (let c = sv_counters st; n = (case found of None \<Rightarrow> 0 | Some (_, bs) \<Rightarrow> of_nat (length bs)) in
      st\<lparr> sv_counters := c\<lparr> sc_gets := saturating_add (sc_gets c) 1, sc_bytes_got := saturating_add (sc_bytes_got c) n \<rparr> \<rparr>)"

definition remember_capture :: "env \<Rightarrow> string \<Rightarrow> bytes \<Rightarrow> sim_world \<Rightarrow> sim_world" where
  "remember_capture E key bs w =
     (case parse_key key of
        Some (Archive_Manifest_Key volume _ _) \<Rightarrow>
          (case (manifest_decode E volume bs, map_of (sw_latest w) volume) of
             (Some m, Some snapshot) \<Rightarrow>
               w\<lparr> sw_by_capture := bm_insert (<) (volume, mf_capture_seq m) snapshot (sw_by_capture w) \<rparr>
           | _ \<Rightarrow> w)
      | _ \<Rightarrow> w)"

text \<open>Give the object the next version.\<close>

definition commit_object :: "string \<Rightarrow> bytes \<Rightarrow> store_state \<Rightarrow> store_state" where
  "commit_object key bs st = st\<lparr> sv_objects := bm_insert (<) key (sv_next_version st, bs) (sv_objects st) \<rparr>"

definition next_version :: "store_state \<Rightarrow> store_state" where
  "next_version st = st\<lparr> sv_next_version := saturating_add (sv_next_version st) 1 \<rparr>"

definition sim_put :: "env \<Rightarrow> string \<Rightarrow> bytes \<Rightarrow> sim_world \<Rightarrow> sim_world \<times> u64 store_result" where
  "sim_put E key bs w =
     (let (st, kind) = write_attempt E key bs False (sw_store w) in
      if sv_outage st then (w\<lparr> sw_store := count_unavailable st \<rparr>, Inl (Fault Unavailable))
      else if length bs > SIM_MAX_OBJECT_BYTES then (w\<lparr> sw_store := count_too_large st \<rparr>, Inl Too_Large)
      else let st = next_version st; st = write_success E key bs kind False st in
        (remember_capture E key bs (w\<lparr> sw_store := commit_object key bs st \<rparr>), Inr (sv_next_version st)))"

definition sim_put_cas ::
  "env \<Rightarrow> string \<Rightarrow> u64 option \<Rightarrow> bytes \<Rightarrow> sim_world \<Rightarrow> sim_world \<times> u64 store_result" where
  "sim_put_cas E key expected bs w =
     (let (st, kind) = write_attempt E key bs True (sw_store w) in
      if sv_outage st then (w\<lparr> sw_store := count_unavailable st \<rparr>, Inl (Fault Unavailable))
      else if length bs > SIM_MAX_OBJECT_BYTES then (w\<lparr> sw_store := count_too_large st \<rparr>, Inl Too_Large)
      else let actual = map_option fst (map_of (sv_objects st) key) in
        if actual = expected then
          let st = write_success E key bs kind True (next_version st);
              st = (if kind = Kind_Head then observe_archive_head E key bs st else st)
          in (w\<lparr> sw_store := commit_object key bs st \<rparr>, Inr (sv_next_version st))
        else (w\<lparr> sw_store := count_conflict st \<rparr>, Inl (Fault (Cas_Conflict actual))))"

definition sim_get :: "string \<Rightarrow> sim_world \<Rightarrow> sim_world \<times> (u64 \<times> bytes) option store_result" where
  "sim_get key w =
     (let st = sw_store w in
      if sv_outage st then (w\<lparr> sw_store := count_unavailable st \<rparr>, Inl (Fault Unavailable))
      else let found = map_of (sv_objects st) key in
        (w\<lparr> sw_store := count_get found st \<rparr>, Inr found))"

text \<open>\<^verbatim>\<open>bytes[start..end]\<close> with both ends clamped to the object.\<close>

definition clamp_range :: "u64 \<Rightarrow> u64 \<Rightarrow> bytes \<Rightarrow> bytes" where
  "clamp_range offset len bs =
     (let start = min (unat offset) (length bs); stop = min (unat (saturating_add offset len)) (length bs) in
      take (stop - start) (drop start bs))"

definition sim_get_range :: "string \<Rightarrow> u64 \<Rightarrow> u64 \<Rightarrow> sim_world \<Rightarrow> sim_world \<times> (u64 \<times> bytes) option store_result" where
  "sim_get_range key offset len w =
     (let st = sw_store w in
      if sv_outage st then (w\<lparr> sw_store := count_unavailable st \<rparr>, Inl (Fault Unavailable))
      else let found = map_option (\<lambda>(version, bs). (version, clamp_range offset len bs)) (map_of (sv_objects st) key) in
        (w\<lparr> sw_store := count_get found st \<rparr>, Inr found))"

definition sim_delete :: "string \<Rightarrow> sim_world \<Rightarrow> sim_world \<times> bool store_result" where
  "sim_delete key w =
     (let st = sw_store w; c = sv_counters st in
      if sv_outage st then (w\<lparr> sw_store := count_unavailable st \<rparr>, Inl (Fault Unavailable))
      else (w\<lparr> sw_store := st\<lparr> sv_counters := c\<lparr> sc_deletes := saturating_add (sc_deletes c) 1 \<rparr>,
                sv_objects := bm_remove key (sv_objects st) \<rparr> \<rparr>,
            Inr (map_of (sv_objects st) key \<noteq> None)))"

definition sim_list_prefix :: "string \<Rightarrow> sim_world \<Rightarrow> sim_world \<times> string list store_result" where
  "sim_list_prefix prefix w =
     (let st = sw_store w in
      if sv_outage st then (w\<lparr> sw_store := count_unavailable st \<rparr>, Inl (Fault Unavailable))
      else (w, Inr (filter (\<lambda>key. str_starts_with key prefix) (bm_keys (sv_objects st)))))"

definition sim_ops :: "env \<Rightarrow> sim_world store_ops" where
  "sim_ops E = \<lparr> so_put = sim_put E, so_put_cas = sim_put_cas E, so_get = sim_get, so_get_range = sim_get_range,
     so_delete = sim_delete, so_list_prefix = sim_list_prefix \<rparr>"

section \<open>The simulated store meets the contract\<close>

lemma closure_decode_no_panic: "closure_decode E volume pointer mb lb \<noteq> Panicked"
  by (auto simp: closure_decode_def current_files_def of_option_def file_list_decode_iff Let_def
      outcome_bind_Panicked split: option.splits outcome.splits if_splits)

lemma write_attempt_keeps:
  assumes "write_attempt E key bs cas st = (st', kind)"
  shows "sv_objects st' = sv_objects st" "sv_next_version st' = sv_next_version st" "sv_outage st' = sv_outage st"
  using assms by (auto simp: write_attempt_def Let_def)

lemma bookkeeping_keeps [simp]:
  "sv_objects (write_success E key bs kind cas st) = sv_objects st"
  "sv_next_version (write_success E key bs kind cas st) = sv_next_version st"
  "sv_objects (count_unavailable st) = sv_objects st" "sv_next_version (count_unavailable st) = sv_next_version st"
  "sv_objects (count_too_large st) = sv_objects st" "sv_next_version (count_too_large st) = sv_next_version st"
  "sv_objects (count_conflict st) = sv_objects st" "sv_next_version (count_conflict st) = sv_next_version st"
  "sv_objects (count_get found st) = sv_objects st" "sv_next_version (count_get found st) = sv_next_version st"
  "sv_objects (observe_archive_head E key bs st) = sv_objects st"
  "sv_next_version (observe_archive_head E key bs st) = sv_next_version st"
  "sv_objects (next_version st) = sv_objects st" "sv_next_version (commit_object key bs st) = sv_next_version st"
  "sw_store (remember_capture E key bs w) = sw_store w"
  by (simp_all add: write_success_def count_unavailable_def count_too_large_def count_conflict_def count_get_def
      observe_archive_head_def next_version_def commit_object_def remember_capture_def Let_def
      split: option.splits store_key.splits)

definition sim_objects :: "sim_world \<Rightarrow> string \<Rightarrow> (u64 \<times> bytes) option" where
  "sim_objects w = map_of (sv_objects (sw_store w))"

definition sim_used :: "sim_world \<Rightarrow> u64 set" where
  "sim_used w = {v. 0 < v \<and> v \<le> sv_next_version (sw_store w)}"

definition sim_room :: "sim_world \<Rightarrow> bool" where
  "sim_room w \<longleftrightarrow> sv_next_version (sw_store w) \<noteq> - 1"

definition sim_wf :: "sim_world \<Rightarrow> bool" where
  "sim_wf w \<longleftrightarrow> bm_ordered (<) (sv_objects (sw_store w)) \<and>
     (\<forall>key v bs. sim_objects w key = Some (v, bs) \<longrightarrow> v \<in> sim_used w)"

lemma unat_max_u64: "unat (- 1 :: u64) = 2 ^ 64 - 1"
  by (simp add: unsigned_minus_1_eq_mask mask_eq_exp_minus_1)

lemma unat_saturating_succ: "unat (saturating_add (n :: u64) 1) = min (unat n + 1) (2 ^ 64 - 1)"
proof -
  have "unat n < 2 ^ 64" using unsigned_less [of n, where ?'a = nat] by simp
  then show ?thesis by (auto simp: saturating_add_def unat_word_ariths unat_max_u64)
qed

lemma saturating_succ:
  fixes n :: u64
  shows "0 < saturating_add n 1" "n \<noteq> - 1 \<Longrightarrow> n < saturating_add n 1"
    "v \<le> saturating_add n 1 \<longleftrightarrow> v \<le> n \<or> v = saturating_add n 1"
proof -
  have n: "unat n < 2 ^ 64" "unat v < 2 ^ 64"
    using unsigned_less [of n, where ?'a = nat] unsigned_less [of v, where ?'a = nat] by simp_all
  show "0 < saturating_add n 1" by (simp add: word_less_nat_alt unat_saturating_succ)
  show "v \<le> saturating_add n 1 \<longleftrightarrow> v \<le> n \<or> v = saturating_add n 1"
    using n by (auto simp: word_le_nat_alt word_unat_eq_iff unat_saturating_succ)
  assume "n \<noteq> - 1"
  then have "unat n \<noteq> 2 ^ 64 - 1" by (auto simp: word_unat_eq_iff unat_max_u64)
  with n show "n < saturating_add n 1" by (simp add: word_less_nat_alt unat_saturating_succ)
qed

lemma sim_put_cas_cases:
  assumes "sim_put_cas E key expected bs w = (w', r)"
  shows "(\<exists>e. r = Inl e \<and> sv_objects (sw_store w') = sv_objects (sw_store w) \<and>
             sv_next_version (sw_store w') = sv_next_version (sw_store w)) \<or>
         (\<exists>v. r = Inr v \<and> map_option fst (sim_objects w key) = expected \<and>
             v = saturating_add (sv_next_version (sw_store w)) 1 \<and> sv_next_version (sw_store w') = v \<and>
             sv_objects (sw_store w') = bm_insert (<) key (v, bs) (sv_objects (sw_store w)))"
proof -
  obtain st kind where a: "write_attempt E key bs True (sw_store w) = (st, kind)" by fastforce
  note keeps = write_attempt_keeps [OF a]
  show ?thesis
    using assms keeps unfolding sim_put_cas_def a
    by (auto simp: Let_def commit_object_def next_version_def sim_objects_def split: if_splits)
qed

lemma sim_put_cas_Inr:
  assumes "sim_put_cas E key expected bs w = (w', Inr v)"
  shows "map_option fst (sim_objects w key) = expected" "sim_objects w' = (sim_objects w)(key \<mapsto> (v, bs))"
    "sim_used w' = insert v (sim_used w)" "sim_wf w \<Longrightarrow> sim_wf w'"
proof -
  show "map_option fst (sim_objects w key) = expected" and objects: "sim_objects w' = (sim_objects w)(key \<mapsto> (v, bs))"
    and used: "sim_used w' = insert v (sim_used w)"
    using sim_put_cas_cases [OF assms] saturating_succ
    by (auto simp: sim_objects_def sim_used_def linear.map_of_insert)
  have "bm_ordered (<) (sv_objects (sw_store w)) \<Longrightarrow> bm_ordered (<) (sv_objects (sw_store w'))"
    using sim_put_cas_cases [OF assms] by (auto simp: linear.ordered_insert)
  then show "sim_wf w \<Longrightarrow> sim_wf w'" by (auto simp: sim_wf_def objects used)
qed

lemma sim_put_cas_Inl:
  assumes "sim_put_cas E key expected bs w = (w', Inl e)"
  shows "sim_objects w' = sim_objects w" "sim_used w' = sim_used w" "sim_wf w \<Longrightarrow> sim_wf w'"
  using sim_put_cas_cases [OF assms] by (auto simp: sim_wf_def sim_objects_def sim_used_def)

interpretation sim: versioned_store "sim_ops E" sim_objects sim_used sim_room sim_wf
proof unfold_locales
  fix key w w' and found r :: "(u64 \<times> bytes) option store_result"
  assume get: "so_get (sim_ops E) key w = (w', r)"
  then show "sim_objects w' = sim_objects w \<and> sim_used w' = sim_used w"
    by (auto simp: sim_ops_def sim_get_def sim_objects_def sim_used_def Let_def split: if_splits)
  then show "sim_wf w \<Longrightarrow> sim_wf w'"
    using get by (auto simp: sim_wf_def sim_ops_def sim_get_def Let_def split: if_splits)
next
  fix key w w' v
  assume "so_get (sim_ops E) key w = (w', Inr v)"
  then show "v = sim_objects w key"
    by (auto simp: sim_ops_def sim_get_def sim_objects_def Let_def split: if_splits)
next
  fix key expected bs w w' and written :: "u64 store_result"
  assume "so_put_cas (sim_ops E) key expected bs w = (w', written)"
  then have cas: "sim_put_cas E key expected bs w = (w', written)" by (simp add: sim_ops_def)
  show "(\<exists>e. written = Inl e) \<and> sim_objects w' = sim_objects w \<and> sim_used w' = sim_used w \<or>
      (\<exists>v. (written = Inr v \<or> written = Inl (Fault Unavailable)) \<and> map_option fst (sim_objects w key) = expected \<and>
         sim_objects w' = (sim_objects w)(key \<mapsto> (v, bs)) \<and> sim_used w' = insert v (sim_used w) \<and>
         (sim_wf w \<and> sim_room w \<longrightarrow> v \<notin> sim_used w))"
  proof (cases written)
    case (Inl e)
    with cas sim_put_cas_Inl show ?thesis by blast
  next
    case (Inr v)
    have "sim_room w \<Longrightarrow> v \<notin> sim_used w"
      using sim_put_cas_cases [OF cas] Inr saturating_succ(2) [of "sv_next_version (sw_store w)"]
      by (auto simp: sim_used_def sim_room_def)
    with Inr sim_put_cas_Inr [OF cas [unfolded Inr]] show ?thesis by blast
  qed
  show "sim_wf w \<Longrightarrow> sim_wf w'"
    using cas by (cases written) (auto intro: sim_put_cas_Inr sim_put_cas_Inl)
next
  fix w key v bs
  show "sim_wf w \<Longrightarrow> sim_objects w key = Some (v, bs) \<Longrightarrow> v \<in> sim_used w" by (auto simp: sim_wf_def)
qed

end
