(* ===== verification/Collector.thy ===== *)
theory Collector
  imports Gc Object_Store
begin

text \<open>
  The archive collector, \<^verbatim>\<open>crates/runtime/src/collector.rs\<close>, over the runtime's object store trait,
  \<^verbatim>\<open>crates/runtime/src/store.rs\<close>.  A backend is a record of operations on an arbitrary world; an
  operation may change the world in any way before it answers, so whatever other processes do
  between two awaits is inside the world.  A pass lists the bucket, reads the metadata objects at
  the generations it listed, plans with \<open>gc_plan\<close> and deletes each planned key at the generation
  it has been watching.
\<close>

section \<open>The backend trait\<close>

record listed_object =
  lo_key :: string
  lo_generation :: u64
  lo_fingerprint :: "string option"

record 'w object_store =
  bk_put :: "string \<Rightarrow> bytes \<Rightarrow> 'w \<Rightarrow> 'w \<times> (store_fault + u64)"
  bk_put_cas :: "string \<Rightarrow> u64 option \<Rightarrow> bytes \<Rightarrow> 'w \<Rightarrow> 'w \<times> (store_fault + u64)"
  bk_get :: "string \<Rightarrow> 'w \<Rightarrow> 'w \<times> (store_fault + (u64 \<times> bytes) option)"
  bk_get_range :: "string \<Rightarrow> u64 \<Rightarrow> u64 \<Rightarrow> 'w \<Rightarrow> 'w \<times> (store_fault + (u64 \<times> bytes) option)"
  bk_delete :: "string \<Rightarrow> 'w \<Rightarrow> 'w \<times> (store_fault + bool)"
  bk_delete_cas :: "string \<Rightarrow> u64 \<Rightarrow> 'w \<Rightarrow> 'w \<times> (store_fault + bool)"
  bk_list_prefix :: "string \<Rightarrow> 'w \<Rightarrow> 'w \<times> (store_fault + string list)"
  bk_list_prefix_versioned :: "string \<Rightarrow> 'w \<Rightarrow> 'w \<times> (store_fault + listed_object list)"

text \<open>The provided methods of the trait.\<close>

definition default_delete_cas :: "'w object_store \<Rightarrow> string \<Rightarrow> u64 \<Rightarrow> 'w \<Rightarrow> 'w \<times> (store_fault + bool)" where
  "default_delete_cas S key expected w =
     (case bk_get_range S key 0 1 w of
        (w, Inl e) \<Rightarrow> (w, Inl e)
      | (w, Inr found) \<Rightarrow>
          let actual = map_option fst found in
          if actual \<noteq> Some expected then (w, Inl (Cas_Conflict actual)) else bk_delete S key w)"

definition default_list_prefix :: "string \<Rightarrow> 'w \<Rightarrow> 'w \<times> (store_fault + string list)" where
  "default_list_prefix prefix w = (w, Inl Unavailable)"

fun list_versions :: "'w object_store \<Rightarrow> string list \<Rightarrow> 'w \<Rightarrow> 'w \<times> (store_fault + listed_object list)" where
  "list_versions S [] w = (w, Inr [])"
| "list_versions S (key # keys) w =
     (case bk_get_range S key 0 1 w of
        (w, Inl e) \<Rightarrow> (w, Inl e)
      | (w, Inr found) \<Rightarrow>
          (case list_versions S keys w of
             (w, Inl e) \<Rightarrow> (w, Inl e)
           | (w, Inr listed) \<Rightarrow>
               (w, Inr (case found of
                  None \<Rightarrow> listed
                | Some (generation, _) \<Rightarrow>
                    \<lparr> lo_key = key, lo_generation = generation, lo_fingerprint = None \<rparr> # listed))))"

definition default_list_prefix_versioned ::
  "'w object_store \<Rightarrow> string \<Rightarrow> 'w \<Rightarrow> 'w \<times> (store_fault + listed_object list)" where
  "default_list_prefix_versioned S prefix w =
     (case bk_list_prefix S prefix w of
        (w, Inl e) \<Rightarrow> (w, Inl e)
      | (w, Inr keys) \<Rightarrow> list_versions S keys w)"

section \<open>The engine's store on a backend\<close>

definition MAX_OBJECT_BYTES :: nat where
  "MAX_OBJECT_BYTES = 64 * 1024 * 1024 + 4096"

text \<open>\<^verbatim>\<open>RuntimeStore\<close> of \<^verbatim>\<open>crates/runtime/src/world.rs\<close>: the size cap, and faults wrapped as errors.\<close>

definition map_fault :: "'w \<times> (store_fault + 'a) \<Rightarrow> 'w \<times> 'a store_result" where
  "map_fault r = (case r of (w, Inl e) \<Rightarrow> (w, Inl (Fault e)) | (w, Inr v) \<Rightarrow> (w, Inr v))"

definition runtime_put :: "'w object_store \<Rightarrow> string \<Rightarrow> bytes \<Rightarrow> 'w \<Rightarrow> 'w \<times> u64 store_result" where
  "runtime_put S key bs w =
     (if length bs > MAX_OBJECT_BYTES then (w, Inl Too_Large) else map_fault (bk_put S key bs w))"

definition runtime_put_cas :: "'w object_store \<Rightarrow> string \<Rightarrow> u64 option \<Rightarrow> bytes \<Rightarrow> 'w \<Rightarrow> 'w \<times> u64 store_result" where
  "runtime_put_cas S key expected bs w =
     (if length bs > MAX_OBJECT_BYTES then (w, Inl Too_Large) else map_fault (bk_put_cas S key expected bs w))"

definition runtime_ops :: "'w object_store \<Rightarrow> 'w store_ops" where
  "runtime_ops S = \<lparr> so_put = runtime_put S, so_put_cas = runtime_put_cas S,
     so_get = (\<lambda>key w. map_fault (bk_get S key w)),
     so_get_range = (\<lambda>key offset len w. map_fault (bk_get_range S key offset len w)),
     so_delete = (\<lambda>key w. map_fault (bk_delete S key w)),
     so_list_prefix = (\<lambda>prefix w. map_fault (bk_list_prefix S prefix w)) \<rparr>"

section \<open>A pass\<close>

text \<open>When the collector first saw a generation of a key; instants and durations are nanoseconds.\<close>

record observation =
  ob_generation :: u64
  ob_first_seen :: nat

type_synonym observed = "string \<rightharpoonup> observation"

text \<open>\<^verbatim>\<open>Vec::dedup_by\<close> on a key: the first of each run of equal keys stays.\<close>

fun dedup_by_key :: "('a \<Rightarrow> 'k) \<Rightarrow> 'a list \<Rightarrow> 'a list" where
  "dedup_by_key f (x # y # ys) = (if f x = f y then dedup_by_key f (x # ys) else x # dedup_by_key f (y # ys))"
| "dedup_by_key f xs = xs"

definition canonical_listing :: "listed_object list \<Rightarrow> listed_object list" where
  "canonical_listing listed =
     dedup_by_key lo_key (sort_key lo_key (filter (\<lambda>e. parse_key (lo_key e) \<noteq> None) listed))"

definition needs_body :: "string \<Rightarrow> bool" where
  "needs_body key =
     (case parse_key key of
        Some (Head_Key _) \<Rightarrow> True
      | Some (Archive_Manifest_Key _ _ _) \<Rightarrow> True
      | Some (Complete_File_List_Key _ _ _) \<Rightarrow> True
      | Some (Pending_Manifest_Key _ _ _) \<Rightarrow> True
      | Some (Base_Root_Key _) \<Rightarrow> True
      | Some (Base_Manifest_Key _ _) \<Rightarrow> True
      | _ \<Rightarrow> False)"

definition observe :: "nat \<Rightarrow> string \<Rightarrow> u64 \<Rightarrow> observed \<Rightarrow> observation" where
  "observe now key generation seen =
     (case seen key of
        Some ob \<Rightarrow> if ob_generation ob \<noteq> generation then \<lparr> ob_generation = generation, ob_first_seen = now \<rparr> else ob
      | None \<Rightarrow> \<lparr> ob_generation = generation, ob_first_seen = now \<rparr>)"

definition age_tag :: "nat \<Rightarrow> nat \<Rightarrow> observation \<Rightarrow> u64" where
  "age_tag grace now ob = (if grace \<le> now - ob_first_seen ob then 0 else 2)"

fun read_listed ::
  "'w object_store \<Rightarrow> nat \<Rightarrow> nat \<Rightarrow> listed_object list \<Rightarrow> observed \<Rightarrow> 'w \<Rightarrow> 'w \<times> observed \<times> (store_fault + store_object list)" where
  "read_listed S grace now [] seen w = (w, seen, Inr [])"
| "read_listed S grace now (e # es) seen w =
     (let key = lo_key e; generation = lo_generation e;
          admit = (\<lambda>bs w.
            let ob = observe now key generation seen in
            case read_listed S grace now es (seen(key \<mapsto> ob)) w of
              (w, seen, Inl fault) \<Rightarrow> (w, seen, Inl fault)
            | (w, seen, Inr objects) \<Rightarrow> (w, seen, Inr ((key, age_tag grace now ob, bs) # objects))) in
      if needs_body key then
        (case bk_get S key w of
           (w, Inl fault) \<Rightarrow> (w, seen, Inl fault)
         | (w, Inr None) \<Rightarrow> read_listed S grace now es (seen(key := None)) w
         | (w, Inr (Some (found_generation, bs))) \<Rightarrow>
             if found_generation \<noteq> generation then read_listed S grace now es (seen(key := None)) w
             else admit bs w)
      else admit [] w)"

definition collector_snapshot ::
  "'w object_store \<Rightarrow> nat \<Rightarrow> nat \<Rightarrow> observed \<Rightarrow> 'w \<Rightarrow> 'w \<times> observed \<times> (store_fault + store_object list)" where
  "collector_snapshot S grace now seen w =
     (if grace = 0 then (w, seen, Inl Unavailable)
      else case bk_list_prefix_versioned S ''v/'' w of
        (w, Inl fault) \<Rightarrow> (w, seen, Inl fault)
      | (w, Inr volumes) \<Rightarrow>
          (case bk_list_prefix_versioned S ''b/'' w of
             (w, Inl fault) \<Rightarrow> (w, seen, Inl fault)
           | (w, Inr bases) \<Rightarrow>
               let listed = canonical_listing (volumes @ bases) in
               read_listed S grace now listed (seen |` (lo_key ` set listed)) w))"

text \<open>
  The deletions, with the conditional deletes that were issued, in order; the count is the
  number of objects the backend reports removed.
\<close>

fun delete_planned ::
  "'w object_store \<Rightarrow> string list \<Rightarrow> observed \<Rightarrow> nat \<Rightarrow> 'w \<Rightarrow>
     'w \<times> observed \<times> (string \<times> u64) list \<times> (store_fault, nat) outcome" where
  "delete_planned S [] seen deleted w = (w, seen, [], Returned deleted)"
| "delete_planned S (key # keys) seen deleted w =
     (case seen key of
        None \<Rightarrow> delete_planned S keys seen deleted w
      | Some ob \<Rightarrow>
          let request = (key, ob_generation ob);
              continue = (\<lambda>deleted w.
                case delete_planned S keys (seen(key := None)) deleted w of
                  (w, seen, issued, result) \<Rightarrow> (w, seen, request # issued, result)) in
          (case bk_delete_cas S key (ob_generation ob) w of
             (w, Inr was_present) \<Rightarrow> continue (deleted + (if was_present then 1 else 0)) w
           | (w, Inl (Cas_Conflict _)) \<Rightarrow> continue deleted w
           | (w, Inl fault) \<Rightarrow> (w, seen, [request], Failed fault)))"

definition collector_pass ::
  "env \<Rightarrow> 'w object_store \<Rightarrow> nat \<Rightarrow> nat \<Rightarrow> observed \<Rightarrow> 'w \<Rightarrow>
     'w \<times> observed \<times> (string \<times> u64) list \<times> (store_fault, nat) outcome" where
  "collector_pass E S grace now seen w =
     (case collector_snapshot S grace now seen w of
        (w, seen, Inl fault) \<Rightarrow> (w, seen, [], Failed fault)
      | (w, seen, Inr objects) \<Rightarrow>
          (case gc_plan E 2 1 objects of
             None \<Rightarrow> (w, seen, [], Panicked)
           | Some planned \<Rightarrow> delete_planned S planned seen 0 w))"

section \<open>What a pass deletes\<close>

lemma dedup_by_key_set: "set (dedup_by_key f xs) \<subseteq> set xs"
  by (induction f xs rule: dedup_by_key.induct) auto

lemma dedup_by_key_distinct: "sorted (map f xs) \<Longrightarrow> distinct (map f (dedup_by_key f xs))"
proof (induction f xs rule: dedup_by_key.induct)
  case (1 f x y ys)
  show ?case
  proof (cases "f x = f y")
    case True
    with 1 show ?thesis by simp
  next
    case False
    with 1 have "distinct (map f (dedup_by_key f (y # ys)))" by simp
    moreover have "f x < f z" if "z \<in> set (y # ys)" for z
      using 1(3) False that by (auto simp: order_less_le)
    then have "f x \<notin> f ` set (dedup_by_key f (y # ys))"
      using dedup_by_key_set [of f "y # ys"] by fastforce
    ultimately show ?thesis using False by simp
  qed
qed auto

lemma canonical_listing_distinct: "distinct (map lo_key (canonical_listing listed))"
  by (simp add: canonical_listing_def dedup_by_key_distinct)

lemma canonical_listing_parses: "e \<in> set (canonical_listing listed) \<Longrightarrow> parse_key (lo_key e) \<noteq> None"
  using dedup_by_key_set by (fastforce simp: canonical_listing_def)

text \<open>A listed object carries the age of its observation, which is either an old one or starts now.\<close>

definition watched :: "nat \<Rightarrow> nat \<Rightarrow> observed \<Rightarrow> observed \<Rightarrow> store_object \<Rightarrow> bool" where
  "watched grace now seen seen' object \<longleftrightarrow> (\<exists>ob. seen' (fst object) = Some ob \<and>
     fst (snd object) = age_tag grace now ob \<and> (seen (fst object) = Some ob \<or> ob_first_seen ob = now))"

lemma watched_forget: "watched grace now (seen(key := None)) seen' object \<Longrightarrow> watched grace now seen seen' object"
  by (auto simp: watched_def split: if_splits)

lemma watched_other:
  "watched grace now (seen(key := x)) seen' object \<Longrightarrow> fst object \<noteq> key \<Longrightarrow> watched grace now seen seen' object"
  by (auto simp: watched_def)

lemma read_listed_spec:
  assumes "read_listed S grace now es seen w = (w', seen', Inr objects)" "distinct (map lo_key es)"
  shows "set (map fst objects) \<subseteq> lo_key ` set es \<and> distinct (map fst objects) \<and>
    (\<forall>key. key \<notin> lo_key ` set es \<longrightarrow> seen' key = seen key) \<and> list_all (watched grace now seen seen') objects"
  using assms
proof (induction es arbitrary: seen w w' seen' objects)
  case Nil
  then show ?case by simp
next
  case (Cons e es)
  let ?key = "lo_key e" and ?ob = "observe now (lo_key e) (lo_generation e) seen"
  have fresh: "?key \<notin> lo_key ` set es" "distinct (map lo_key es)" using Cons.prems(2) by simp_all
  consider (skip) w1 where "read_listed S grace now es (seen(?key := None)) w1 = (w', seen', Inr objects)"
    | (admit) bs w1 rest where "read_listed S grace now es (seen(?key \<mapsto> ?ob)) w1 = (w', seen', Inr rest)"
      "objects = (?key, age_tag grace now ?ob, bs) # rest"
    using Cons.prems(1) by (auto simp: Let_def split: if_splits prod.splits sum.splits option.splits)
  then show ?case
  proof cases
    case skip
    note ih = Cons.IH [OF this fresh(2)]
    then have "list_all (watched grace now seen seen') objects"
      unfolding list_all_iff using watched_forget by blast
    with ih show ?thesis by auto
  next
    case admit
    have ob: "seen ?key = Some ?ob \<or> ob_first_seen ?ob = now"
      by (auto simp: observe_def split: option.splits)
    note ih = Cons.IH [OF admit(1) fresh(2)]
    then have key: "seen' ?key = Some ?ob" "?key \<notin> fst ` set rest" using fresh(1) by auto
    then have "list_all (watched grace now seen seen') rest"
      using ih unfolding list_all_iff by (metis image_eqI watched_other)
    moreover have "watched grace now seen seen' (?key, age_tag grace now ?ob, bs)"
      using key(1) ob by (auto simp: watched_def)
    ultimately show ?thesis using ih key(2) unfolding admit(2) by auto
  qed
qed

lemma snapshot_spec:
  assumes "collector_snapshot S grace now seen w = (w', seen', Inr objects)"
  shows "0 < grace" "distinct (map fst objects)" "list_all (watched grace now seen seen') objects"
    "\<forall>key \<in> fst ` set objects. parse_key key \<noteq> None"
proof -
  show "0 < grace" using assms by (auto simp: collector_snapshot_def split: if_splits)
  from assms obtain w2 listed where r: "read_listed S grace now (canonical_listing listed)
      (seen |` (lo_key ` set (canonical_listing listed))) w2 = (w', seen', Inr objects)"
    by (auto simp: collector_snapshot_def Let_def split: if_splits prod.splits sum.splits)
  note spec = read_listed_spec [OF r canonical_listing_distinct]
  then show "distinct (map fst objects)" by blast
  show "list_all (watched grace now seen seen') objects"
  proof -
    have "watched grace now seen seen' object"
      if "watched grace now (seen |` A) seen' object" for object A
      using that by (auto simp: watched_def restrict_map_def split: if_splits)
    then show ?thesis using spec unfolding list_all_iff by blast
  qed
  show "\<forall>key \<in> fst ` set objects. parse_key key \<noteq> None"
  proof
    fix key assume "key \<in> fst ` set objects"
    then have "key \<in> lo_key ` set (canonical_listing listed)" using spec by auto
    then show "parse_key key \<noteq> None" using canonical_listing_parses by auto
  qed
qed

lemma delete_planned_issued:
  assumes "delete_planned S keys seen deleted w = (w', seen', issued, result)" "distinct keys"
  shows "result \<noteq> Panicked \<and> distinct (map fst issued) \<and> fst ` set issued \<subseteq> set keys \<and>
    (\<forall>(key, generation) \<in> set issued. \<exists>ob. seen key = Some ob \<and> generation = ob_generation ob)"
  using assms
proof (induction keys arbitrary: seen deleted w w' seen' issued result)
  case Nil
  then show ?case by auto
next
  case (Cons key keys)
  show ?case
  proof (cases "seen key")
    case None
    with Cons.prems have "delete_planned S keys seen deleted w = (w', seen', issued, result)" by simp
    from Cons.IH [OF this] Cons.prems(2) show ?thesis by auto
  next
    case (Some ob)
    from Cons.prems(1) Some consider (last) "issued = [(key, ob_generation ob)]" "result \<noteq> Panicked"
      | (more) d w1 rest where "delete_planned S keys (seen(key := None)) d w1 = (w', seen', rest, result)"
        "issued = (key, ob_generation ob) # rest"
      by (auto simp: Let_def split: prod.splits sum.splits store_fault.splits)
    then show ?thesis
    proof cases
      case last
      then show ?thesis using Some by simp
    next
      case more
      from Cons.IH [OF more(1)] Cons.prems(2) Some show ?thesis unfolding more(2)
        by (fastforce split: if_splits)
    qed
  qed
qed

lemma mature_tag: "(1 :: u64) < saturating_sub 2 (age_tag grace now ob) \<longleftrightarrow> grace \<le> now - ob_first_seen ob"
  by (simp add: age_tag_def saturating_sub_def)

text \<open>
  C9: What a collector pass deletes.  A pass never panics, and it issues deletes only when it read
  a full snapshot in which every root it holds can be followed.  Each delete names a distinct
  archive key that no root of that snapshot reaches, at a generation the collector had already
  recorded before this pass, at least the grace ago.
\<close>

theorem collector_deletes_only_garbage:
  assumes "collector_pass E S grace now seen w = (w', seen', issued, result)"
  shows "result \<noteq> Panicked \<and> distinct (map fst issued) \<and>
    (\<forall>(key, generation) \<in> set issued. \<exists>w1 seen1 objects.
       collector_snapshot S grace now seen w = (w1, seen1, Inr objects) \<and> roots_intact E objects \<and>
       parse_key key \<noteq> None \<and> key \<notin> live_keys E objects \<and>
       (\<exists>ob. seen key = Some ob \<and> ob_generation ob = generation \<and> ob_first_seen ob + grace \<le> now))"
proof -
  obtain w1 seen1 r where snap: "collector_snapshot S grace now seen w = (w1, seen1, r)" by (metis surj_pair)
  show ?thesis
  proof (cases r)
    case (Inl fault)
    with assms snap show ?thesis by (auto simp: collector_pass_def)
  next
    case (Inr objects)
    note spec = snapshot_spec [OF snap [unfolded Inr]]
    define plan where "plan = (if roots_intact E objects
      then map fst (filter (\<lambda>(key, put_at, _). key \<notin> live_keys E objects \<and> 1 < saturating_sub 2 put_at) objects) else [])"
    have del: "delete_planned S plan seen1 0 w1 = (w', seen', issued, result)"
      using assms snap Inr by (simp add: collector_pass_def gc_plan_spec plan_def)
    have "distinct plan" using spec(2) by (simp add: plan_def distinct_map_filter)
    note issued = delete_planned_issued [OF del this]
    have "roots_intact E objects \<and> parse_key key \<noteq> None \<and> key \<notin> live_keys E objects \<and>
       (\<exists>ob. seen key = Some ob \<and> ob_generation ob = generation \<and> ob_first_seen ob + grace \<le> now)"
      if mem: "(key, generation) \<in> set issued" for key generation
    proof -
      have "fst (key, generation) \<in> fst ` set issued" using mem by (rule imageI)
      then have "key \<in> set plan" using issued by (simp add: subset_iff)
      then obtain tag bs where intact: "roots_intact E objects" and obj: "(key, tag, bs) \<in> set objects"
        and dead: "key \<notin> live_keys E objects" and old: "1 < saturating_sub 2 tag"
        by (auto simp: plan_def split: if_splits)
      obtain ob where ob: "seen1 key = Some ob" "generation = ob_generation ob" using issued mem by fast
      have "watched grace now seen seen1 (key, tag, bs)" using spec(3) obj by (simp add: list_all_iff)
      then have "tag = age_tag grace now ob" "seen key = Some ob \<or> ob_first_seen ob = now"
        using ob by (auto simp: watched_def)
      moreover have "parse_key key \<noteq> None" using spec(4) obj by force
      ultimately show ?thesis using old ob spec(1) intact dead mature_tag [of grace now ob] by auto
    qed
    then show ?thesis using issued snap Inr by auto
  qed
qed

text \<open>
  The snapshot a pass plans on is not the listing: a root whose object moved between the listing
  and the read is dropped from it, and with the root everything it protects.  Here a head is
  rewritten after the listing, and the head that the read returns still reaches the volume's data
  file; the pass deletes the file and the manifest of the live volume.
\<close>

lemma append_less: "(xs @ ys :: string) < xs @ zs \<longleftrightarrow> ys < zs"
  by (induction xs) auto

lemma volume_keys_ascend:
  "head_key v < archive_manifest_key v f s" "archive_manifest_key v f s < blx_key v f' i"
  by (simp_all add: head_key_def archive_manifest_key_def blx_key_def append_less less_char_def)

lemma collector_forgets_moved_head:
  fixes S :: "'w object_store" and v f s f' i :: u64
  defines "hk \<equiv> head_key v" and "mk \<equiv> archive_manifest_key v f s" and "fk \<equiv> blx_key v f' i"
  assumes listing: "\<And>w. bk_list_prefix_versioned S ''v/'' w = (w, Inr [\<lparr> lo_key = hk, lo_generation = g, lo_fingerprint = None \<rparr>,
      \<lparr> lo_key = mk, lo_generation = gm, lo_fingerprint = None \<rparr>, \<lparr> lo_key = fk, lo_generation = gf, lo_fingerprint = None \<rparr>])"
    "\<And>w. bk_list_prefix_versioned S ''b/'' w = (w, Inr [])"
    and reads: "\<And>w. bk_get S hk w = (w, Inr (Some (g', bs)))" "g' \<noteq> g"
      "\<And>w. bk_get S mk w = (w, Inr (Some (gm, mb)))"
    and live: "fk \<in> root_reaches E [(hk, 0, bs), (mk, 0, mb), (fk, 0, fb)] hk bs"
    and deletes: "\<And>w key generation. bk_delete_cas S key generation w = (w, Inr True)"
    and age: "seen mk = Some \<lparr> ob_generation = gm, ob_first_seen = t \<rparr>" "seen fk = Some \<lparr> ob_generation = gf, ob_first_seen = t \<rparr>"
      "0 < grace" "t + grace \<le> now"
  shows "\<exists>seen'. collector_pass E S grace now seen w = (w, seen', [(mk, gm), (fk, gf)], Returned 2)"
proof -
  have keys: "parse_key hk = Some (Head_Key v)" "parse_key mk = Some (Archive_Manifest_Key v f s)"
    "parse_key fk = Some (Blx_Key v f' i)"
    by (simp_all add: hk_def mk_def fk_def parse_key_names)
  have less: "hk < mk" "mk < fk" by (simp_all add: hk_def mk_def fk_def volume_keys_ascend)
  then have neq: "hk \<noteq> mk" "mk \<noteq> fk" "hk \<noteq> fk" by auto
  let ?listed = "[\<lparr> lo_key = hk, lo_generation = g, lo_fingerprint = None \<rparr>,
      \<lparr> lo_key = mk, lo_generation = gm, lo_fingerprint = None \<rparr>, \<lparr> lo_key = fk, lo_generation = gf, lo_fingerprint = None \<rparr>]"
  have "sorted (map lo_key ?listed)" using less by auto
  then have sorted: "sort_key lo_key ?listed = ?listed" by (rule sort_key_id_if_sorted)
  have canon: "canonical_listing (?listed @ []) = ?listed"
    using sorted neq by (simp add: canonical_listing_def keys)
  obtain seen1 where read: "read_listed S grace now ?listed (seen |` {hk, mk, fk}) w = (w, seen1, Inr [(mk, 0, mb), (fk, 0, [])])"
    and watched: "seen1 mk = seen mk" "seen1 fk = seen fk"
    using age neq reads by (simp add: needs_body_def keys observe_def age_tag_def)
  have snap: "collector_snapshot S grace now seen w = (w, seen1, Inr [(mk, 0, mb), (fk, 0, [])])"
    unfolding collector_snapshot_def listing using age(3) canon read by (simp add: Let_def)
  have plan: "gc_plan E 2 1 [(mk, 0, mb), (fk, 0, [])] = Some [mk, fk]"
    by (simp add: gc_plan_spec roots_intact_def live_keys_def root_intact_def root_reaches_def keys saturating_sub_def)
  show ?thesis
    unfolding collector_pass_def snap using neq age deletes watched by (simp add: plan Let_def)
qed

text \<open>A backend that holds one orphaned data file.\<close>

definition demo_backend :: "unit object_store" where
  "demo_backend = \<lparr> bk_put = (\<lambda>key bs w. (w, Inr 1)), bk_put_cas = (\<lambda>key expected bs w. (w, Inr 1)),
     bk_get = (\<lambda>key w. (w, Inr None)), bk_get_range = (\<lambda>key offset len w. (w, Inr None)),
     bk_delete = (\<lambda>key w. (w, Inr True)), bk_delete_cas = (\<lambda>key generation w. (w, Inr True)),
     bk_list_prefix = default_list_prefix,
     bk_list_prefix_versioned = (\<lambda>prefix w. (w, Inr (if prefix = ''v/''
       then [\<lparr> lo_key = blx_key 3 1 7, lo_generation = 5, lo_fingerprint = None \<rparr>] else []))) \<rparr>"

theorem collector_deletes_only_garbage_witness:
  "\<exists>seen'. collector_pass demo_env demo_backend 10 30 [blx_key 3 1 7 \<mapsto> \<lparr> ob_generation = 5, ob_first_seen = 20 \<rparr>] () =
     ((), seen', [(blx_key 3 1 7, 5)], Returned 1) \<and>
     (\<exists>objects. blx_key 3 1 7 \<notin> live_keys demo_env objects \<and> roots_intact demo_env objects)"
proof -
  let ?seen = "[blx_key 3 1 7 \<mapsto> \<lparr> ob_generation = 5, ob_first_seen = 20 \<rparr>]"
  have plan: "gc_plan demo_env 2 1 [(blx_key 3 1 7, 0, [])] = Some [blx_key 3 1 7]"
    by (simp add: gc_plan_spec roots_intact_def live_keys_def root_intact_def root_reaches_def parse_key_names saturating_sub_def)
  obtain seen1 where "collector_snapshot demo_backend 10 30 ?seen () = ((), seen1, Inr [(blx_key 3 1 7, 0, [])])"
    "seen1 (blx_key 3 1 7) = Some \<lparr> ob_generation = 5, ob_first_seen = 20 \<rparr>"
    by (simp add: collector_snapshot_def demo_backend_def canonical_listing_def parse_key_names needs_body_def observe_def age_tag_def Let_def)
  then have "\<exists>seen'. collector_pass demo_env demo_backend 10 30 ?seen () = ((), seen', [(blx_key 3 1 7, 5)], Returned 1)"
    unfolding collector_pass_def by (simp add: plan demo_backend_def)
  then obtain seen' where pass: "collector_pass demo_env demo_backend 10 30 ?seen () = ((), seen', [(blx_key 3 1 7, 5)], Returned 1)"
    by blast
  from collector_deletes_only_garbage [OF pass] have "\<exists>objects. blx_key 3 1 7 \<notin> live_keys demo_env objects \<and> roots_intact demo_env objects"
    by auto
  with pass show ?thesis by blast
qed

end
