(* ===== verification/Prost_Wire.thy ===== *)
theory Prost_Wire
  imports Format
begin

text \<open>
  Protobuf messages.  The \<^verbatim>\<open>prost\<close> crate derives an encoder and a decoder for each wire struct;
  neither is under \<^verbatim>\<open>src/\<close>, so a message type's pair of functions is the parameter \<open>prost\<close> of
  every codec built on it.  All of the program's protobuf codecs accept a payload only when
  re-encoding the decoded message gives the payload back, which \<open>prost_open\<close> captures.
\<close>

record 'm prost =
  pr_encode :: "'m \<Rightarrow> bytes"
  pr_decode :: "bytes \<Rightarrow> 'm option"

text \<open>The documented behaviour: decoding what was encoded gives the message back.\<close>

definition prost_roundtrips :: "'m prost \<Rightarrow> bool" where
  "prost_roundtrips P \<longleftrightarrow> (\<forall>m. pr_decode P (pr_encode P m) = Some m)"

definition prost_open :: "'m prost \<Rightarrow> bytes \<Rightarrow> 'm option" where
  "prost_open P payload =
     do { m \<leftarrow> pr_decode P payload; guard_opt (pr_encode P m = payload); Some m }"

lemma prost_open_iff:
  "prost_roundtrips P \<Longrightarrow> prost_open P payload = Some m \<longleftrightarrow> payload = pr_encode P m"
  by (auto simp: prost_open_def prost_roundtrips_def bind_eq_Some_conv)

section \<open>A concrete pair for closed examples\<close>

text \<open>Sequences as flagged elements: a one before each element, a zero at the end.\<close>

fun enc_seq :: "('a \<Rightarrow> bytes) \<Rightarrow> 'a list \<Rightarrow> bytes" where
  "enc_seq enc [] = [0]"
| "enc_seq enc (x # xs) = 1 # enc x @ enc_seq enc xs"

fun dec_seq :: "(bytes \<Rightarrow> ('a \<times> bytes) option) \<Rightarrow> nat \<Rightarrow> bytes \<Rightarrow> ('a list \<times> bytes) option" where
  "dec_seq dec n [] = None"
| "dec_seq dec 0 (b # d) = (if b = 0 then Some ([], d) else None)"
| "dec_seq dec (Suc n) (b # d) =
     (if b = 0 then Some ([], d)
      else do { (x, d) \<leftarrow> dec d; (xs, d) \<leftarrow> dec_seq dec n d; Some (x # xs, d) })"

lemma length_enc_seq: "length xs < length (enc_seq enc xs)"
  by (induction xs) auto

context codec
begin

lemma seq_enc:
  "list_all ok xs \<Longrightarrow> length xs \<le> n \<Longrightarrow> dec_seq dec n (enc_seq enc xs @ r) = Some (xs, r)"
proof (induction xs arbitrary: n)
  case Nil
  then show ?case by (cases n) auto
next
  case (Cons x xs)
  then show ?case by (cases n) (auto simp: dec_enc)
qed

end

text \<open>The sequence decoder bounds itself by the bytes it is given.\<close>

definition dec_list :: "(bytes \<Rightarrow> ('a \<times> bytes) option) \<Rightarrow> bytes \<Rightarrow> ('a list \<times> bytes) option" where
  "dec_list dec d = dec_seq dec (length d) d"

context codec
begin

lemma list_enc:
  assumes "list_all ok xs"
  shows "dec_list dec (enc_seq enc xs @ r) = Some (xs, r)"
proof -
  have "length xs \<le> length (enc_seq enc xs @ r)" using length_enc_seq [of xs enc] by simp
  then show ?thesis unfolding dec_list_def by (rule seq_enc [OF assms])
qed

end

end
