(* ===== verification/Placement.thy ===== *)
theory Placement
  imports Prost_Wire Head
begin

text \<open>
  Deterministic passive-stash placement, \<^verbatim>\<open>crates/core/src/placement.rs\<close>: the cluster's durable
  membership snapshot and its codec, and the ranking of the peers that may hold a volume's stash,
  by rendezvous hashing.
\<close>

section \<open>The membership snapshot\<close>

definition CLUSTER_PLACEMENT_MAGIC :: u32 where
  "CLUSTER_PLACEMENT_MAGIC = magic ''BCPL''"

definition CLUSTER_PLACEMENT_VERSION :: u32 where
  "CLUSTER_PLACEMENT_VERSION = 1"

definition MAX_CLUSTER_PLACEMENT_PAYLOAD_BYTES :: nat where
  "MAX_CLUSTER_PLACEMENT_PAYLOAD_BYTES = 2 * 1024 * 1024"

definition MIN_PLACEMENT_MEMBERS :: nat where
  "MIN_PLACEMENT_MEMBERS = 3"

record placement_wire =
  pw_version :: u32
  pw_cluster_id :: u64
  pw_epoch :: u64
  pw_roster :: "u32 list"

record cluster_placement =
  cp_cluster_id :: u64
  cp_epoch :: u64
  cp_roster :: "host_id list"

definition placement_validate :: "cluster_placement \<Rightarrow> unit option" where
  "placement_validate p = guard_opt (cp_cluster_id p \<noteq> 0 \<and> cp_epoch p \<noteq> 0 \<and>
     MIN_PLACEMENT_MEMBERS \<le> length (cp_roster p) \<and> successively (<) (cp_roster p))"

definition from_members :: "u64 \<Rightarrow> u64 \<Rightarrow> host_id list \<Rightarrow> cluster_placement" where
  "from_members cluster_id epoch members =
     \<lparr> cp_cluster_id = cluster_id, cp_epoch = epoch, cp_roster = remdups_adj (sort members) \<rparr>"

definition placement_new :: "u64 \<Rightarrow> u64 \<Rightarrow> host_id list \<Rightarrow> cluster_placement option" where
  "placement_new cluster_id epoch members =
     do { let placement = from_members cluster_id epoch members;
          placement_validate placement;
          Some placement }"

definition placement_to_wire :: "cluster_placement \<Rightarrow> placement_wire" where
  "placement_to_wire p = \<lparr> pw_version = CLUSTER_PLACEMENT_VERSION, pw_cluster_id = cp_cluster_id p,
     pw_epoch = cp_epoch p, pw_roster = cp_roster p \<rparr>"

text \<open>The encoder panics on an invalid placement and on a payload over the bound.\<close>

definition placement_encode :: "env \<Rightarrow> placement_wire prost \<Rightarrow> cluster_placement \<Rightarrow> bytes option" where
  "placement_encode E P p =
     do { placement_validate p;
          let payload = pr_encode P (placement_to_wire p);
          guard_opt (length payload \<le> MAX_CLUSTER_PLACEMENT_PAYLOAD_BYTES);
          seal_frame E CLUSTER_PLACEMENT_MAGIC payload }"

definition placement_decode :: "env \<Rightarrow> placement_wire prost \<Rightarrow> bytes \<Rightarrow> cluster_placement option" where
  "placement_decode E P bs =
     do { payload \<leftarrow> open_frame E CLUSTER_PLACEMENT_MAGIC bs;
          guard_opt (\<not> length payload > MAX_CLUSTER_PLACEMENT_PAYLOAD_BYTES);
          wire \<leftarrow> prost_open P payload;
          guard_opt (\<not> (pw_version wire \<noteq> CLUSTER_PLACEMENT_VERSION \<or> pw_cluster_id wire = 0 \<or> pw_epoch wire = 0));
          let placement = \<lparr> cp_cluster_id = pw_cluster_id wire, cp_epoch = pw_epoch wire, cp_roster = pw_roster wire \<rparr>;
          placement_validate placement;
          Some placement }"

definition placement_contains :: "cluster_placement \<Rightarrow> host_id \<Rightarrow> bool" where
  "placement_contains p host =
     (binary_search (<) (\<lambda>h. h) host (cp_roster p) 0 (length (cp_roster p)) \<noteq> None)"

section \<open>Ranking\<close>

definition fnv_step :: "u64 \<Rightarrow> u8 \<Rightarrow> u64" where
  "fnv_step hash byte = (hash XOR ucast byte) * 0x100000001B3"

definition splitmix :: "u64 \<Rightarrow> u64" where
  "splitmix hash =
     (let mixed = hash + 0x9E3779B97F4A7C15;
          mixed = (mixed XOR drop_bit 30 mixed) * 0xBF58476D1CE4E5B9;
          mixed = (mixed XOR drop_bit 27 mixed) * 0x94D049BB133111EB
      in mixed XOR drop_bit 31 mixed)"

definition placement_hash :: "u64 \<Rightarrow> host_id \<Rightarrow> volume_id \<Rightarrow> host_id \<Rightarrow> u64" where
  "placement_hash membership_epoch primary volume candidate =
     splitmix (foldl fnv_step 0xCBF29CE484222325
       (enc_u64 membership_epoch @ enc_u32 primary @ enc_u64 volume @ enc_u32 candidate))"

text \<open>
  The comparator of \<^verbatim>\<open>sort_unstable_by\<close>: descending score, then ascending host.  It is total on the
  pairs, so an unstable sort has one result.
\<close>

definition rank_key :: "u64 \<times> host_id \<Rightarrow> nat \<times> host_id" where
  "rank_key c = (2 ^ 64 - unat (fst c), snd c)"

definition rank_stash_candidates :: "u64 \<Rightarrow> host_id \<Rightarrow> volume_id \<Rightarrow> host_id list \<Rightarrow> host_id list" where
  "rank_stash_candidates membership_epoch primary volume roster =
     map snd (sort_key rank_key
       (map (\<lambda>candidate. (placement_hash membership_epoch primary volume candidate, candidate))
          (filter (\<lambda>candidate. candidate \<noteq> primary) roster)))"

section \<open>The codec is canonical\<close>

definition placement_ok :: "cluster_placement \<Rightarrow> bool" where
  "placement_ok p \<longleftrightarrow> cp_cluster_id p \<noteq> 0 \<and> cp_epoch p \<noteq> 0 \<and> 3 \<le> length (cp_roster p) \<and>
     sorted_wrt (<) (cp_roster p)"

lemma placement_validate_iff: "placement_validate p = Some u \<longleftrightarrow> placement_ok p"
  by (simp add: placement_validate_def placement_ok_def MIN_PLACEMENT_MEMBERS_def successively_conv_sorted_wrt)

lemma placement_to_wire_iff:
  "pw_version w = CLUSTER_PLACEMENT_VERSION \<and> pw_cluster_id w = cp_cluster_id p \<and> pw_epoch w = cp_epoch p \<and>
   pw_roster w = cp_roster p \<longleftrightarrow> w = placement_to_wire p"
  by (cases w) (auto simp: placement_to_wire_def)

lemma placement_decode_iff:
  assumes "prost_roundtrips P"
  shows "placement_decode E P bs = Some p \<longleftrightarrow> placement_encode E P p = Some bs"
proof -
  have "placement_decode E P bs = Some p \<longleftrightarrow> (\<exists>w. seal_frame E CLUSTER_PLACEMENT_MAGIC (pr_encode P w) = Some bs \<and>
      length (pr_encode P w) \<le> MAX_CLUSTER_PLACEMENT_PAYLOAD_BYTES \<and> placement_ok p \<and>
      (pw_version w = CLUSTER_PLACEMENT_VERSION \<and> pw_cluster_id w = cp_cluster_id p \<and> pw_epoch w = cp_epoch p \<and>
       pw_roster w = cp_roster p))"
    by (cases p) (auto simp: placement_decode_def bind_eq_Some_conv prost_open_iff [OF assms] frame_open_seal
        placement_validate_iff Let_def placement_ok_def)
  also have "\<dots> \<longleftrightarrow> placement_encode E P p = Some bs"
    unfolding placement_to_wire_iff by (auto simp: placement_encode_def bind_eq_Some_conv placement_validate_iff Let_def)
  finally show ?thesis .
qed

lemma placement_contains_iff: "placement_ok p \<Longrightarrow> placement_contains p host \<longleftrightarrow> host \<in> set (cp_roster p)"
  using linear.binary_search_iff [of "\<lambda>h. h" "cp_roster p" "length (cp_roster p)" host 0]
  by (auto simp: placement_contains_def placement_ok_def in_set_conv_nth)

lemma sorted_dedup_strict: "sorted xs \<Longrightarrow> sorted_wrt (<) (remdups_adj (xs :: 'a::linorder list))"
proof (induction xs rule: remdups_adj.induct)
  case (3 x y xs)
  then show ?case by (auto simp: order_less_le)
qed simp_all

text \<open>The constructor keeps the members, without repetition, in ascending order.\<close>

lemma placement_new_iff:
  "placement_new c e members = Some p \<longleftrightarrow> placement_ok p \<and> cp_cluster_id p = c \<and> cp_epoch p = e \<and>
     set (cp_roster p) = set members"
proof -
  let ?r = "remdups_adj (sort members)"
  have strict: "sorted_wrt (<) ?r" by (simp add: sorted_dedup_strict)
  have "placement_new c e members = Some p \<longleftrightarrow> placement_ok p \<and> cp_cluster_id p = c \<and> cp_epoch p = e \<and> cp_roster p = ?r"
    by (cases p) (auto simp: placement_new_def from_members_def bind_eq_Some_conv placement_validate_iff Let_def)
  also have "\<dots> \<longleftrightarrow> placement_ok p \<and> cp_cluster_id p = c \<and> cp_epoch p = e \<and> set (cp_roster p) = set members"
    using linear.sorted_ext [OF _ strict, of "cp_roster p"] by (auto simp: placement_ok_def)
  finally show ?thesis .
qed

section \<open>The ranking is a rendezvous hash\<close>

definition candidate_key :: "u64 \<Rightarrow> host_id \<Rightarrow> volume_id \<Rightarrow> host_id \<Rightarrow> nat \<times> host_id" where
  "candidate_key e primary volume c = rank_key (placement_hash e primary volume c, c)"

lemma sort_key_map: "sort_key g (map f xs) = map f (sort_key (\<lambda>x. g (f x)) xs)"
proof (induction xs)
  case (Cons x xs)
  have "insort_key g (f x) (map f ys) = map f (insort_key (\<lambda>x. g (f x)) x ys)" for ys
    by (induction ys) auto
  with Cons show ?case by simp
qed simp

lemma rank_is_sort:
  "rank_stash_candidates e primary volume roster = sort_key (candidate_key e primary volume) (filter (\<lambda>c. c \<noteq> primary) roster)"
  by (simp add: rank_stash_candidates_def sort_key_map candidate_key_def [abs_def] o_def)

lemma candidate_key_less:
  "candidate_key e p v a < candidate_key e p v b \<longleftrightarrow>
   placement_hash e p v b < placement_hash e p v a \<or> placement_hash e p v a = placement_hash e p v b \<and> a < b"
proof -
  have bound: "unat h < 2 ^ 64" for h :: u64 using unsigned_less [of h, where ?'a = nat] by simp
  have "2 ^ 64 - unat h < 2 ^ 64 - unat k \<longleftrightarrow> k < h" "2 ^ 64 - unat h \<le> 2 ^ 64 - unat k \<longleftrightarrow> k \<le> h" for h k :: u64
    using bound [of h] bound [of k] by (auto simp: word_less_nat_alt word_le_nat_alt)
  then show ?thesis by (auto simp: candidate_key_def rank_key_def order.order_iff_strict [of "placement_hash e p v b"])
qed

interpretation candidate_order: key_order "\<lambda>a b. candidate_key e p v a < candidate_key e p v b" for e p v
  by (rule key_order_of_rank) (simp add: candidate_key_def rank_key_def)

lemma rank_sorted:
  assumes "distinct roster"
  shows "sorted_wrt (\<lambda>a b. candidate_key e p v a < candidate_key e p v b) (rank_stash_candidates e p v roster)"
proof -
  let ?k = "candidate_key e p v" and ?r = "rank_stash_candidates e p v roster"
  have "inj ?k" by (auto simp: inj_def candidate_key_def rank_key_def)
  have "sorted (map ?k ?r)" by (simp add: rank_is_sort)
  moreover have "distinct (map ?k ?r)"
    using assms \<open>inj ?k\<close> by (simp add: rank_is_sort distinct_map inj_on_subset [OF \<open>inj ?k\<close>])
  ultimately have "sorted_wrt (<) (map ?k ?r)" by (simp add: strict_sorted_iff)
  then show ?thesis by (simp add: sorted_wrt_map)
qed

lemma rank_unique:
  assumes "distinct roster" "distinct xs" "set xs = set roster - {p}"
    and "sorted_wrt (\<lambda>a b. candidate_key e p v a < candidate_key e p v b) xs"
  shows "rank_stash_candidates e p v roster = xs"
proof (rule candidate_order.sorted_ext [OF rank_sorted [OF assms(1)] assms(4)])
  show "set (rank_stash_candidates e p v roster) = set xs" using assms(3) by (auto simp: rank_is_sort)
qed

text \<open>
  C32: The ranking of stash peers is a rendezvous hash.  For a roster without repetitions it lists
  every member but the primary once, highest score first and lower host first among equal scores;
  it depends only on the set of members; and when any host leaves the roster the others keep their
  order, so a volume's stash moves only if its own target left.
\<close>

theorem rank_stash_rendezvous:
  assumes "distinct roster"
  shows "distinct (rank_stash_candidates e p v roster) \<and>
    set (rank_stash_candidates e p v roster) = set roster - {p} \<and>
    sorted_wrt (\<lambda>a b. placement_hash e p v b < placement_hash e p v a \<or>
        placement_hash e p v a = placement_hash e p v b \<and> a < b) (rank_stash_candidates e p v roster) \<and>
    (\<forall>other. distinct other \<and> set other = set roster \<longrightarrow>
       rank_stash_candidates e p v other = rank_stash_candidates e p v roster) \<and>
    (\<forall>gone. rank_stash_candidates e p v (filter (\<lambda>h. h \<noteq> gone) roster) =
       filter (\<lambda>h. h \<noteq> gone) (rank_stash_candidates e p v roster))"
proof -
  let ?r = "rank_stash_candidates e p v roster"
  note sorted = rank_sorted [OF assms, of e p v]
  have set: "set ?r = set roster - {p}" by (auto simp: rank_is_sort)
  have distinct: "distinct ?r" by (rule candidate_order.sorted_distinct [OF sorted])
  have "rank_stash_candidates e p v other = ?r" if "distinct other" "set other = set roster" for other
    using that set distinct sorted by (intro rank_unique) auto
  moreover have "rank_stash_candidates e p v (filter (\<lambda>h. h \<noteq> gone) roster) = filter (\<lambda>h. h \<noteq> gone) ?r" for gone
    using assms set distinct sorted by (intro rank_unique) (auto intro: sorted_wrt_filter)
  ultimately show ?thesis using set distinct sorted unfolding candidate_key_less by blast
qed

theorem rank_stash_rendezvous_witness:
  "distinct [1, 2, 3 :: host_id] \<and>
   rank_stash_candidates 7 1 9 (filter (\<lambda>h. h \<noteq> 2) [1, 2, 3]) = filter (\<lambda>h. h \<noteq> 2) (rank_stash_candidates 7 1 9 [1, 2, 3])"
proof -
  have "distinct [1, 2, 3 :: host_id]" by simp
  with rank_stash_rendezvous [OF this, of 7 1 9] show ?thesis by blast
qed

end
