(* ===== verification/Authority.thy ===== *)
theory Authority
  imports Placement Object_Store
begin

text \<open>
  Host sessions and placement authority: the durable records of \<^verbatim>\<open>crates/core/src/authority.rs\<close> and
  the conditional-write operations of \<^verbatim>\<open>crates/core/src/engine/authority.rs\<close>.  The operations run
  over any store; each store call is one step of the world, and \<open>between\<close> is whatever other
  processes do to it while an operation that reads and then writes is suspended.
\<close>

section \<open>Session records\<close>

definition MAGIC_HOST_SESSION :: u32 where
  "MAGIC_HOST_SESSION = magic ''BHS1''"

definition SESSION_FORMAT_VERSION :: u32 where
  "SESSION_FORMAT_VERSION = 1"

definition MAX_HOST_SESSION_PAYLOAD_BYTES :: nat where
  "MAX_HOST_SESSION_PAYLOAD_BYTES = 256"

datatype session_state_wire =
    Active_Wire u64 u64
  | Challenge_Wire u64 u64 u64 u64
  | Revoked_Wire u64 u64 u64

record session_wire =
  sw_version :: u32
  sw_state :: "session_state_wire option"

datatype host_session =
    Active (hs_session: u64) (hs_epoch: u64)
  | Challenge (hs_session: u64) (hs_epoch: u64) (hs_nonce: u64) (hs_challenged_at: u64)
  | Revoked (hs_old_session: u64) (hs_epoch: u64) (hs_nonce: u64)

definition session_initial :: "u64 \<Rightarrow> host_session option" where
  "session_initial session = (if session = 0 then None else Some (Active session 1))"

fun session_challenge :: "host_session \<Rightarrow> u64 \<Rightarrow> u64 \<Rightarrow> host_session option" where
  "session_challenge (Active session epoch) nonce challenged_at =
     (if nonce = 0 then None else Some (Challenge session epoch nonce challenged_at))"
| "session_challenge _ nonce challenged_at = None"

fun session_defend :: "host_session \<Rightarrow> u64 \<Rightarrow> u64 \<Rightarrow> host_session option" where
  "session_defend (Challenge challenged_session epoch challenged_nonce _) session nonce =
     (if session \<noteq> challenged_session \<or> nonce \<noteq> challenged_nonce then None else Some (Active session epoch))"
| "session_defend _ session nonce = None"

fun session_retire :: "host_session \<Rightarrow> u64 \<Rightarrow> u64 \<Rightarrow> host_session option" where
  "session_retire (Active active_session epoch) session nonce =
     (if session \<noteq> active_session \<or> nonce = 0 then None
      else map_option (\<lambda>epoch. Revoked session epoch nonce) (checked_add epoch 1))"
| "session_retire _ session nonce = None"

fun session_revoke :: "host_session \<Rightarrow> u64 \<Rightarrow> host_session option" where
  "session_revoke (Challenge session epoch challenged_nonce _) nonce =
     (if nonce \<noteq> challenged_nonce then None
      else map_option (\<lambda>epoch. Revoked session epoch nonce) (checked_add epoch 1))"
| "session_revoke _ nonce = None"

fun session_activate :: "host_session \<Rightarrow> u64 \<Rightarrow> host_session option" where
  "session_activate (Revoked _ epoch _) session = (if session = 0 then None else Some (Active session epoch))"
| "session_activate _ session = None"

fun session_to_wire :: "host_session \<Rightarrow> session_state_wire" where
  "session_to_wire (Active session epoch) = Active_Wire session epoch"
| "session_to_wire (Challenge session epoch nonce challenged_at) = Challenge_Wire session epoch nonce challenged_at"
| "session_to_wire (Revoked old_session epoch nonce) = Revoked_Wire old_session epoch nonce"

fun session_from_wire :: "session_state_wire \<Rightarrow> host_session" where
  "session_from_wire (Active_Wire session epoch) = Active session epoch"
| "session_from_wire (Challenge_Wire session epoch nonce challenged_at) = Challenge session epoch nonce challenged_at"
| "session_from_wire (Revoked_Wire old_session epoch nonce) = Revoked old_session epoch nonce"

definition session_encode :: "env \<Rightarrow> session_wire prost \<Rightarrow> host_session \<Rightarrow> bytes option" where
  "session_encode E P r =
     seal_frame E MAGIC_HOST_SESSION
       (pr_encode P \<lparr> sw_version = SESSION_FORMAT_VERSION, sw_state = Some (session_to_wire r) \<rparr>)"

text \<open>The zero fields that the decoder refuses.\<close>

definition session_malformed :: "host_session \<Rightarrow> bool" where
  "session_malformed r \<longleftrightarrow> hs_epoch r = 0 \<or>
     (case r of
        Active session _ \<Rightarrow> session = 0
      | Challenge session _ nonce _ \<Rightarrow> session = 0 \<or> nonce = 0
      | Revoked old_session _ nonce \<Rightarrow> old_session = 0 \<or> nonce = 0)"

definition session_decode :: "env \<Rightarrow> session_wire prost \<Rightarrow> bytes \<Rightarrow> host_session option" where
  "session_decode E P bs =
     do { payload \<leftarrow> open_frame E MAGIC_HOST_SESSION bs;
          guard_opt (\<not> length payload > MAX_HOST_SESSION_PAYLOAD_BYTES);
          wire \<leftarrow> prost_open P payload;
          guard_opt (sw_version wire = SESSION_FORMAT_VERSION);
          state \<leftarrow> sw_state wire;
          let record = session_from_wire state;
          guard_opt (\<not> session_malformed record);
          Some record }"

section \<open>Placement proofs\<close>

record placement_proof =
  pp_store_version :: u64
  pp_placement :: cluster_placement

definition valid_placement_transition :: "cluster_placement \<Rightarrow> cluster_placement \<Rightarrow> unit option" where
  "valid_placement_transition previous next =
     do { placement_validate previous;
          placement_validate next;
          guard_opt (\<not> (cp_cluster_id previous \<noteq> cp_cluster_id next \<or>
                         checked_add (cp_epoch previous) 1 \<noteq> Some (cp_epoch next))) }"

section \<open>Operations on the store\<close>

datatype authority_error = AE_Unavailable | AE_Conflict | AE_Corrupt | AE_Fenced | AE_Invalid

type_synonym ('w, 'a) authority_call = "'w \<times> (authority_error, 'a) outcome"

fun map_store_error :: "store_error \<Rightarrow> authority_error" where
  "map_store_error (Fault Unavailable) = AE_Unavailable"
| "map_store_error (Fault (Cas_Conflict _)) = AE_Conflict"
| "map_store_error Too_Large = AE_Invalid"

definition call_map :: "('a \<Rightarrow> 'b) \<Rightarrow> 'w \<times> 'a store_result \<Rightarrow> ('w, 'b) authority_call" where
  "call_map f r = (case r of (w, Inl e) \<Rightarrow> (w, Failed (map_store_error e)) | (w, Inr v) \<Rightarrow> (w, Returned (f v)))"

record versioned_session =
  vs_host :: host_id
  vs_store_version :: u64
  vs_record :: host_session

record 'w authority_env =
  ae_env :: env
  ae_session :: "session_wire prost"
  ae_placement :: "placement_wire prost"
  ae_ops :: "'w store_ops"
  ae_between :: "'w \<Rightarrow> 'w"

definition session_replace ::
  "'w authority_env \<Rightarrow> versioned_session \<Rightarrow> host_session \<Rightarrow> 'w \<Rightarrow> ('w, versioned_session) authority_call" where
  "session_replace A s r w =
     (case session_encode (ae_env A) (ae_session A) r of
        None \<Rightarrow> (w, Panicked)
      | Some bs \<Rightarrow>
          call_map (\<lambda>v. \<lparr> vs_host = vs_host s, vs_store_version = v, vs_record = r \<rparr>)
            (so_put_cas (ae_ops A) (host_session_key (vs_host s)) (Some (vs_store_version s)) bs w))"

definition replace_or ::
  "'w authority_env \<Rightarrow> authority_error \<Rightarrow> versioned_session \<Rightarrow> host_session option \<Rightarrow> 'w \<Rightarrow>
     ('w, versioned_session) authority_call" where
  "replace_or A e s next w = (case next of None \<Rightarrow> (w, Failed e) | Some r \<Rightarrow> session_replace A s r w)"

definition vs_defend ::
  "'w authority_env \<Rightarrow> versioned_session \<Rightarrow> u64 \<Rightarrow> u64 \<Rightarrow> 'w \<Rightarrow> ('w, versioned_session) authority_call" where
  "vs_defend A s session nonce = replace_or A AE_Invalid s (session_defend (vs_record s) session nonce)"

definition vs_challenge ::
  "'w authority_env \<Rightarrow> versioned_session \<Rightarrow> u64 \<Rightarrow> u64 \<Rightarrow> 'w \<Rightarrow> ('w, versioned_session) authority_call" where
  "vs_challenge A s nonce challenged_at = replace_or A AE_Fenced s (session_challenge (vs_record s) nonce challenged_at)"

definition revoke_host_session ::
  "'w authority_env \<Rightarrow> versioned_session \<Rightarrow> u64 \<Rightarrow> 'w \<Rightarrow> ('w, versioned_session) authority_call" where
  "revoke_host_session A s nonce = replace_or A AE_Invalid s (session_revoke (vs_record s) nonce)"

definition activate_host_session ::
  "'w authority_env \<Rightarrow> versioned_session \<Rightarrow> u64 \<Rightarrow> 'w \<Rightarrow> ('w, versioned_session) authority_call" where
  "activate_host_session A s session = replace_or A AE_Invalid s (session_activate (vs_record s) session)"

definition create_host_session ::
  "'w authority_env \<Rightarrow> host_id \<Rightarrow> u64 \<Rightarrow> 'w \<Rightarrow> ('w, versioned_session) authority_call" where
  "create_host_session A host session w =
     (case session_initial session of
        None \<Rightarrow> (w, Failed AE_Invalid)
      | Some r \<Rightarrow>
          (case session_encode (ae_env A) (ae_session A) r of
             None \<Rightarrow> (w, Panicked)
           | Some bs \<Rightarrow>
               call_map (\<lambda>v. \<lparr> vs_host = host, vs_store_version = v, vs_record = r \<rparr>)
                 (so_put_cas (ae_ops A) (host_session_key host) None bs w)))"

definition read_host_session ::
  "'w authority_env \<Rightarrow> host_id \<Rightarrow> 'w \<Rightarrow> ('w, versioned_session option) authority_call" where
  "read_host_session A host w =
     (case so_get (ae_ops A) (host_session_key host) w of
        (w, Inl e) \<Rightarrow> (w, Failed (map_store_error e))
      | (w, Inr None) \<Rightarrow> (w, Returned None)
      | (w, Inr (Some (version, bs))) \<Rightarrow>
          (w, outcome_bind (or_fail AE_Corrupt (session_decode (ae_env A) (ae_session A) bs))
                (\<lambda>r. Returned (Some \<lparr> vs_host = host, vs_store_version = version, vs_record = r \<rparr>))))"

text \<open>\<^verbatim>\<open>read_host_session(..).await?.ok_or(Fenced)?\<close>, then the rest of the operation.\<close>

definition with_session ::
  "'w authority_env \<Rightarrow> host_id \<Rightarrow> (versioned_session \<Rightarrow> 'w \<Rightarrow> ('w, 'a) authority_call) \<Rightarrow> 'w \<Rightarrow> ('w, 'a) authority_call" where
  "with_session A host f w =
     (case read_host_session A host w of
        (w, Failed e) \<Rightarrow> (w, Failed e)
      | (w, Panicked) \<Rightarrow> (w, Panicked)
      | (w, Returned None) \<Rightarrow> (w, Failed AE_Fenced)
      | (w, Returned (Some s)) \<Rightarrow> f s (ae_between A w))"

datatype poll_session = Poll_Active versioned_session | Poll_Defended versioned_session

definition poll_or_defend_host_session ::
  "'w authority_env \<Rightarrow> host_id \<Rightarrow> u64 \<Rightarrow> 'w \<Rightarrow> ('w, poll_session) authority_call" where
  "poll_or_defend_host_session A host session =
     with_session A host (\<lambda>s w.
       case vs_record s of
         Active found _ \<Rightarrow> (w, if found = session then Returned (Poll_Active s) else Failed AE_Fenced)
       | Challenge found _ nonce _ \<Rightarrow>
           if found = session then
             (case vs_defend A s session nonce w of (w, r) \<Rightarrow> (w, outcome_bind r (\<lambda>s. Returned (Poll_Defended s))))
           else (w, Failed AE_Fenced)
       | Revoked _ _ _ \<Rightarrow> (w, Failed AE_Fenced))"

definition challenge_host_session ::
  "'w authority_env \<Rightarrow> host_id \<Rightarrow> u64 \<Rightarrow> u64 \<Rightarrow> 'w \<Rightarrow> ('w, versioned_session) authority_call" where
  "challenge_host_session A host nonce challenged_at =
     with_session A host (\<lambda>s w.
       case vs_record s of Challenge _ _ _ _ \<Rightarrow> (w, Returned s) | _ \<Rightarrow> vs_challenge A s nonce challenged_at w)"

definition read_placement :: "'w authority_env \<Rightarrow> 'w \<Rightarrow> ('w, placement_proof option) authority_call" where
  "read_placement A w =
     (case so_get (ae_ops A) placement_key w of
        (w, Inl e) \<Rightarrow> (w, Failed (map_store_error e))
      | (w, Inr None) \<Rightarrow> (w, Returned None)
      | (w, Inr (Some (version, bs))) \<Rightarrow>
          (w, outcome_bind (or_fail AE_Corrupt (placement_decode (ae_env A) (ae_placement A) bs))
                (\<lambda>p. Returned (Some \<lparr> pp_store_version = version, pp_placement = p \<rparr>))))"

definition cas_placement ::
  "'w authority_env \<Rightarrow> placement_proof option \<Rightarrow> cluster_placement \<Rightarrow> 'w \<Rightarrow> ('w, placement_proof) authority_call" where
  "cas_placement A expected next w =
     (if placement_validate next = None then (w, Failed AE_Invalid)
      else if (case expected of
                 None \<Rightarrow> cp_epoch next \<noteq> 1
               | Some previous \<Rightarrow> valid_placement_transition (pp_placement previous) next = None)
        then (w, Failed AE_Invalid)
      else case placement_encode (ae_env A) (ae_placement A) next of
        None \<Rightarrow> (w, Panicked)
      | Some bs \<Rightarrow>
          call_map (\<lambda>v. \<lparr> pp_store_version = v, pp_placement = next \<rparr>)
            (so_put_cas (ae_ops A) placement_key (map_option pp_store_version expected) bs w))"

section \<open>The session codec\<close>

lemma session_wire_inverse [simp]: "session_from_wire (session_to_wire r) = r"
  by (cases r) simp_all

lemma session_wire_surj: "session_from_wire x = r \<longleftrightarrow> x = session_to_wire r"
  by (cases x; cases r) auto

definition session_ok :: "host_session \<Rightarrow> bool" where
  "session_ok r \<longleftrightarrow> \<not> session_malformed r"

definition session_message :: "host_session \<Rightarrow> session_wire" where
  "session_message r = \<lparr> sw_version = SESSION_FORMAT_VERSION, sw_state = Some (session_to_wire r) \<rparr>"

lemma session_message_iff:
  "sw_version w = SESSION_FORMAT_VERSION \<and> (\<exists>x. sw_state w = Some x \<and> session_from_wire x = r) \<longleftrightarrow> w = session_message r"
  by (cases w) (auto simp: session_message_def session_wire_surj)

lemma session_decode_iff:
  assumes "prost_roundtrips P"
  shows "session_decode E P bs = Some r \<longleftrightarrow> session_encode E P r = Some bs \<and> session_ok r \<and>
    length (pr_encode P (session_message r)) \<le> MAX_HOST_SESSION_PAYLOAD_BYTES"
proof -
  have "session_decode E P bs = Some r \<longleftrightarrow> (\<exists>w. seal_frame E MAGIC_HOST_SESSION (pr_encode P w) = Some bs \<and>
      length (pr_encode P w) \<le> MAX_HOST_SESSION_PAYLOAD_BYTES \<and> session_ok r \<and>
      (sw_version w = SESSION_FORMAT_VERSION \<and> (\<exists>x. sw_state w = Some x \<and> session_from_wire x = r)))"
    by (fastforce simp: session_decode_def bind_eq_Some_conv prost_open_iff [OF assms] frame_open_seal session_ok_def Let_def)
  then show ?thesis unfolding session_message_iff
    by (auto simp: session_encode_def session_message_def)
qed

section \<open>One session per epoch\<close>

text \<open>The transitions of a session record, whoever performs them.\<close>

definition session_step :: "host_session \<Rightarrow> host_session \<Rightarrow> bool" where
  "session_step r r' \<longleftrightarrow>
     (\<exists>nonce at. session_challenge r nonce at = Some r') \<or> (\<exists>session nonce. session_defend r session nonce = Some r') \<or>
     (\<exists>session nonce. session_retire r session nonce = Some r') \<or> (\<exists>nonce. session_revoke r nonce = Some r') \<or>
     (\<exists>session. session_activate r session = Some r')"

fun holds :: "host_session \<Rightarrow> bool" where
  "holds (Revoked _ _ _) = False"
| "holds _ = True"

text \<open>A record precedes another when its epoch is older, or the same with the same holder, if it has one.\<close>

definition precedes :: "host_session \<Rightarrow> host_session \<Rightarrow> bool" where
  "precedes r r' \<longleftrightarrow> hs_epoch r < hs_epoch r' \<or>
     hs_epoch r = hs_epoch r' \<and> (holds r \<longrightarrow> holds r' \<and> hs_session r = hs_session r')"

lemma precedes_refl [simp]: "precedes r r"
  by (simp add: precedes_def)

lemma precedes_trans: "precedes a b \<Longrightarrow> precedes b c \<Longrightarrow> precedes a c"
  by (auto simp: precedes_def)

lemma checked_succ_less: "checked_add (e :: u64) 1 = Some e' \<Longrightarrow> e < e'"
  by (auto dest!: checked_add_SomeD simp: word_less_nat_alt)

lemma session_step_precedes: "session_step r r' \<Longrightarrow> precedes r r'"
  by (cases r) (auto simp: session_step_def precedes_def dest: checked_succ_less split: if_splits)

lemma session_step_ok: "session_step r r' \<Longrightarrow> session_ok r \<Longrightarrow> session_ok r'"
  by (cases r) (auto simp: session_step_def session_ok_def session_malformed_def dest: checked_succ_less split: if_splits)

lemma session_initial_ok: "session_initial s = Some r \<Longrightarrow> session_ok r"
  by (auto simp: session_initial_def session_ok_def session_malformed_def split: if_splits)

fun returned :: "(authority_error, versioned_session) outcome \<Rightarrow> versioned_session set" where
  "returned (Returned s) = {s}"
| "returned _ = {}"

text \<open>
  The runs of one host's session key: any process may create it, read it, or perform a transition
  on any session it has ever read or been given; between such calls other keys of the store may
  change.  \<open>K\<close> collects every session value that any process ever held.
\<close>

inductive session_run ::
  "'w authority_env \<Rightarrow> ('w \<Rightarrow> string \<Rightarrow> (u64 \<times> bytes) option) \<Rightarrow> ('w \<Rightarrow> u64 set) \<Rightarrow> ('w \<Rightarrow> bool) \<Rightarrow> ('w \<Rightarrow> bool) \<Rightarrow>
     host_id \<Rightarrow> 'w \<Rightarrow> versioned_session set \<Rightarrow> 'w \<Rightarrow> bool"
  for A objects used room wf host w0 where
  start: "session_run A objects used room wf host w0 {} w0"
| create: "session_run A objects used room wf host w0 K w \<Longrightarrow> room w \<Longrightarrow>
    create_host_session A host session w = (w', r) \<Longrightarrow>
    session_run A objects used room wf host w0 (K \<union> returned r) w'"
| observe: "session_run A objects used room wf host w0 K w \<Longrightarrow>
    read_host_session A host w = (w', Returned (Some s)) \<Longrightarrow>
    session_run A objects used room wf host w0 (insert s K) w'"
| transition: "session_run A objects used room wf host w0 K w \<Longrightarrow> room w \<Longrightarrow> s \<in> K \<Longrightarrow>
    session_step (vs_record s) r' \<Longrightarrow> session_replace A s r' w = (w', r) \<Longrightarrow>
    session_run A objects used room wf host w0 (K \<union> returned r) w'"
| elsewhere: "session_run A objects used room wf host w0 K w \<Longrightarrow>
    objects w' (host_session_key host) = objects w (host_session_key host) \<Longrightarrow> used w \<subseteq> used w' \<Longrightarrow> wf w' \<Longrightarrow>
    session_run A objects used room wf host w0 K w'"

text \<open>The invariant of such runs, on the object stored under the key.\<close>

definition session_inv ::
  "'w authority_env \<Rightarrow> host_id \<Rightarrow> u64 set \<Rightarrow> (u64 \<times> bytes) option \<Rightarrow> versioned_session set \<Rightarrow> bool" where
  "session_inv A host versions stored K \<longleftrightarrow>
     (case stored of
        None \<Rightarrow> K = {}
      | Some (v, bs) \<Rightarrow> \<exists>cur. session_decode (ae_env A) (ae_session A) bs = Some cur \<and>
          (\<forall>s \<in> K. vs_host s = host \<and> vs_store_version s \<in> versions \<and> session_ok (vs_record s) \<and>
             precedes (vs_record s) cur \<and> (vs_store_version s = v \<longrightarrow> vs_record s = cur)) \<and>
          (\<forall>s \<in> K. \<forall>s' \<in> K. hs_epoch (vs_record s) = hs_epoch (vs_record s') \<and> holds (vs_record s) \<and> holds (vs_record s')
             \<longrightarrow> hs_session (vs_record s) = hs_session (vs_record s')))"

text \<open>The message of every session record fits the bound that the decoder checks.\<close>

definition session_messages_fit :: "session_wire prost \<Rightarrow> bool" where
  "session_messages_fit P \<longleftrightarrow> (\<forall>r. length (pr_encode P (session_message r)) \<le> MAX_HOST_SESSION_PAYLOAD_BYTES)"

lemma session_decode_encode:
  assumes "prost_roundtrips P" "session_messages_fit P" "session_encode E P r = Some bs" "session_ok r"
  shows "session_decode E P bs = Some r"
  using assms by (simp add: session_decode_iff session_messages_fit_def)

lemma session_inv_new:
  assumes inv: "session_inv A host versions stored K"
    and dec: "session_decode (ae_env A) (ae_session A) bs = Some r'" "session_ok r'"
    and v: "v \<notin> versions" and step: "\<And>s. s \<in> K \<Longrightarrow> precedes (vs_record s) r'"
    and N: "N \<subseteq> {\<lparr> vs_host = host, vs_store_version = v, vs_record = r' \<rparr>}"
  shows "session_inv A host (insert v versions) (Some (v, bs)) (K \<union> N)"
proof -
  have old: "vs_host s = host \<and> vs_store_version s \<in> versions \<and> session_ok (vs_record s)" if "s \<in> K" for s
    using inv that by (auto simp: session_inv_def split: option.splits)
  have same: "hs_session (vs_record s) = hs_session (vs_record s')"
    if "s \<in> K" "s' \<in> K" "hs_epoch (vs_record s) = hs_epoch (vs_record s')" "holds (vs_record s)" "holds (vs_record s')" for s s'
    using inv that by (auto simp: session_inv_def split: option.splits)
  have new: "hs_session (vs_record s) = hs_session r'"
    if "s \<in> K" "hs_epoch (vs_record s) = hs_epoch r'" "holds (vs_record s)" for s
    using step [OF that(1)] that by (simp add: precedes_def)
  have fresh: "vs_store_version s \<noteq> v" if "s \<in> K" for s using old [OF that] v by blast
  have N': "vs_host s = host \<and> vs_store_version s = v \<and> vs_record s = r'" if "s \<in> N" for s
    using N that by auto
  have "vs_host s = host \<and> vs_store_version s \<in> insert v versions \<and> session_ok (vs_record s) \<and>
      precedes (vs_record s) r' \<and> (vs_store_version s = v \<longrightarrow> vs_record s = r')" if "s \<in> K \<union> N" for s
    using that old [of s] step [of s] fresh [of s] N' [of s] dec(2) by auto
  moreover have "hs_session (vs_record s) = hs_session (vs_record s')"
    if "s \<in> K \<union> N" "s' \<in> K \<union> N" "hs_epoch (vs_record s) = hs_epoch (vs_record s')"
      "holds (vs_record s)" "holds (vs_record s')" for s s'
    using that same [of s s'] new [of s] new [of s'] N' [of s] N' [of s'] by auto
  ultimately show ?thesis unfolding session_inv_def using dec(1) by (simp only: option.case case_prod_conv) blast
qed

lemma session_inv_mono:
  "session_inv A host versions stored K \<Longrightarrow> versions \<subseteq> versions' \<Longrightarrow> session_inv A host versions' stored K"
  unfolding session_inv_def by (auto split: option.splits)

lemma session_inv_observe:
  assumes "session_inv A host versions (Some (v, bs)) K" "session_decode (ae_env A) (ae_session A) bs = Some r"
    and "session_ok r" "v \<in> versions"
  shows "session_inv A host versions (Some (v, bs)) (insert \<lparr> vs_host = host, vs_store_version = v, vs_record = r \<rparr> K)"
proof -
  have old: "vs_host s = host \<and> vs_store_version s \<in> versions \<and> session_ok (vs_record s) \<and>
      precedes (vs_record s) r \<and> (vs_store_version s = v \<longrightarrow> vs_record s = r)" if "s \<in> K" for s
    using assms(1,2) that by (auto simp: session_inv_def)
  have same: "hs_session (vs_record s) = hs_session (vs_record s')"
    if "s \<in> K" "s' \<in> K" "hs_epoch (vs_record s) = hs_epoch (vs_record s')" "holds (vs_record s)" "holds (vs_record s')" for s s'
    using assms(1) [unfolded session_inv_def option.case case_prod_conv] that by blast
  have "hs_session (vs_record s) = hs_session r"
    if "s \<in> K" "hs_epoch (vs_record s) = hs_epoch r" "holds (vs_record s)" for s
    using old [OF that(1)] that by (simp add: precedes_def)
  note new = this
  let ?n = "\<lparr> vs_host = host, vs_store_version = v, vs_record = r \<rparr>"
  have "vs_host s = host \<and> vs_store_version s \<in> versions \<and> session_ok (vs_record s) \<and>
      precedes (vs_record s) r \<and> (vs_store_version s = v \<longrightarrow> vs_record s = r)" if "s \<in> insert ?n K" for s
    using that old [of s] assms(3,4) by auto
  moreover have "hs_session (vs_record s) = hs_session (vs_record s')"
    if "s \<in> insert ?n K" "s' \<in> insert ?n K" "hs_epoch (vs_record s) = hs_epoch (vs_record s')"
      "holds (vs_record s)" "holds (vs_record s')" for s s'
    using that same [of s s'] new [of s] new [of s'] by auto
  ultimately show ?thesis unfolding session_inv_def using assms(2) by (simp only: option.case case_prod_conv) blast
qed

context versioned_store
begin

lemma cas_session_inv:
  assumes cas: "so_put_cas ops (host_session_key host) expected bs w = (w', written)" and wf: "wf w" "room w"
    and inv: "session_inv A host (used w) (objects w (host_session_key host)) K"
    and dec: "session_decode (ae_env A) (ae_session A) bs = Some r'" "session_ok r'"
    and step: "\<And>s. map_option fst (objects w (host_session_key host)) = expected \<Longrightarrow> s \<in> K \<Longrightarrow> precedes (vs_record s) r'"
  shows "session_inv A host (used w') (objects w' (host_session_key host))
    (K \<union> returned (snd (call_map (\<lambda>v. \<lparr> vs_host = host, vs_store_version = v, vs_record = r' \<rparr>) (w', written))))"
proof -
  from cas_effect [OF cas] consider (kept) e where "written = Inl e" "objects w' = objects w" "used w' = used w"
    | (landed) v where "written = Inr v \<or> written = Inl (Fault Unavailable)"
      "map_option fst (objects w (host_session_key host)) = expected"
      "objects w' = (objects w)(host_session_key host \<mapsto> (v, bs))" "used w' = insert v (used w)" "v \<notin> used w"
    using wf by blast
  then show ?thesis
  proof cases
    case kept
    then show ?thesis using inv by (simp add: call_map_def)
  next
    case landed
    have "returned (snd (call_map (\<lambda>v. \<lparr> vs_host = host, vs_store_version = v, vs_record = r' \<rparr>) (w', written)))
        \<subseteq> {\<lparr> vs_host = host, vs_store_version = v, vs_record = r' \<rparr>}"
      using landed(1) by (auto simp: call_map_def)
    from session_inv_new [OF inv dec landed(5) step [OF landed(2)] this] landed show ?thesis by simp
  qed
qed

lemma call_map_pair: "call_map f (w', x) = (w'', r) \<Longrightarrow> w'' = w' \<and> r = snd (call_map f (w', x))"
  by (auto simp: call_map_def split: sum.splits)

lemma create_inv:
  assumes "create_host_session A host session w = (w', r)" and ops: "ae_ops A = ops" and wf: "wf w" "room w"
    and prost: "prost_roundtrips (ae_session A)" "session_messages_fit (ae_session A)"
    and inv: "session_inv A host (used w) (objects w (host_session_key host)) K"
  shows "wf w' \<and> session_inv A host (used w') (objects w' (host_session_key host)) (K \<union> returned r)"
proof (cases "session_initial session")
  case None
  with assms show ?thesis by (auto simp: create_host_session_def)
next
  case (Some rec)
  show ?thesis
  proof (cases "session_encode (ae_env A) (ae_session A) rec")
    case None
    with Some assms show ?thesis by (auto simp: create_host_session_def)
  next
    case (Some bs)
    note ok = session_initial_ok [OF \<open>session_initial session = Some rec\<close>]
    obtain w1 x where cas: "so_put_cas ops (host_session_key host) None bs w = (w1, x)" by fastforce
    have call: "w' = w1" "r = snd (call_map (\<lambda>v. \<lparr> vs_host = host, vs_store_version = v, vs_record = rec \<rparr>) (w1, x))"
      using assms(1) Some \<open>session_initial session = Some rec\<close> cas ops call_map_pair by (fastforce simp: create_host_session_def)+
    have "precedes (vs_record s) rec" if "map_option fst (objects w (host_session_key host)) = None" "s \<in> K" for s
      using inv that by (simp add: session_inv_def)
    from cas_session_inv [OF cas wf inv session_decode_encode [OF prost Some ok] ok this] cas_wf [OF cas] wf
    show ?thesis by (simp add: call)
  qed
qed

lemma replace_inv:
  assumes "session_replace A s r' w = (w', r)" and ops: "ae_ops A = ops" and wf: "wf w" "room w"
    and prost: "prost_roundtrips (ae_session A)" "session_messages_fit (ae_session A)"
    and inv: "session_inv A host (used w) (objects w (host_session_key host)) K"
    and s: "s \<in> K" "session_step (vs_record s) r'"
  shows "wf w' \<and> session_inv A host (used w') (objects w' (host_session_key host)) (K \<union> returned r)"
proof -
  from inv s(1) obtain v bs0 where stored: "objects w (host_session_key host) = Some (v, bs0)"
    by (auto simp: session_inv_def split: option.splits)
  obtain cur where all: "\<forall>s \<in> K. vs_host s = host \<and> vs_store_version s \<in> used w \<and> session_ok (vs_record s) \<and>
      precedes (vs_record s) cur \<and> (vs_store_version s = v \<longrightarrow> vs_record s = cur)"
    using inv [unfolded stored session_inv_def option.case case_prod_conv] by blast
  then have held: "vs_host s = host" "session_ok (vs_record s)" "vs_store_version s = v \<longrightarrow> vs_record s = cur"
    and older: "\<And>s. s \<in> K \<Longrightarrow> precedes (vs_record s) cur"
    using s(1) by blast+
  have ok: "session_ok r'" using session_step_ok s(2) held(2) by blast
  show ?thesis
  proof (cases "session_encode (ae_env A) (ae_session A) r'")
    case None
    with assms show ?thesis by (auto simp: session_replace_def)
  next
    case (Some bs)
    obtain w1 x where cas: "so_put_cas ops (host_session_key host) (Some (vs_store_version s)) bs w = (w1, x)" by fastforce
    have call: "w' = w1" "r = snd (call_map (\<lambda>v. \<lparr> vs_host = host, vs_store_version = v, vs_record = r' \<rparr>) (w1, x))"
      using assms(1) Some cas ops held(1) call_map_pair by (fastforce simp: session_replace_def)+
    have "precedes (vs_record t) r'"
      if "map_option fst (objects w (host_session_key host)) = Some (vs_store_version s)" "t \<in> K" for t
      using that stored held(3) older [OF that(2)] session_step_precedes [OF s(2)] precedes_trans by auto
    from cas_session_inv [OF cas wf inv session_decode_encode [OF prost Some ok] ok this] cas_wf [OF cas] wf
    show ?thesis by (simp add: call)
  qed
qed

lemma run_inv:
  assumes "session_run A objects used room wf host w0 K w" and ops: "ae_ops A = ops"
    and prost: "prost_roundtrips (ae_session A)" "session_messages_fit (ae_session A)"
    and init: "wf w0" "objects w0 (host_session_key host) = None"
  shows "wf w \<and> session_inv A host (used w) (objects w (host_session_key host)) K"
  using assms(1)
proof induction
  case start
  then show ?case using init by (simp add: session_inv_def)
next
  case (create K w session w' r)
  then show ?case using create_inv [OF create(3) ops _ _ prost] by blast
next
  case (observe K w w' s)
  obtain r where get: "so_get ops (host_session_key host) w = (w', r)"
    using observe(2) ops by (auto simp: read_host_session_def split: prod.splits sum.splits option.splits)
  then obtain v bs rec where r: "r = Inr (Some (v, bs))" "session_decode (ae_env A) (ae_session A) bs = Some rec"
    "s = \<lparr> vs_host = host, vs_store_version = v, vs_record = rec \<rparr>"
    using observe(2) ops by (auto simp: read_host_session_def outcome_bind_Returned split: sum.splits option.splits)
  have "objects w (host_session_key host) = Some (v, bs)" using get_value [OF get [unfolded r]] by simp
  moreover from this have "v \<in> used w" using versions_used observe(3) by blast
  moreover have "session_ok rec" using r(2) prost(1) by (simp add: session_decode_iff)
  ultimately show ?case
    using session_inv_observe [OF _ r(2)] observe(3) get_objects [OF get] get_wf [OF get] r(3) by simp
next
  case (transition K w s r' w' r)
  then show ?case using replace_inv [OF transition(5) ops _ _ prost _ transition(3,4)] by blast
next
  case (elsewhere K w w')
  then show ?case using session_inv_mono by auto
qed


text \<open>A session of an older epoch than the stored one cannot be written from.\<close>

lemma stale_replace_fails:
  assumes "session_inv A host (used w) (objects w (host_session_key host)) K" "s \<in> K" "s' \<in> K"
    and "hs_epoch (vs_record s) < hs_epoch (vs_record s')"
    and "session_replace A s r w = (w', x)" and ops: "ae_ops A = ops"
  shows "returned x = {} \<and> objects w' = objects w"
proof -
  from assms(1,2) obtain v bs0 where stored: "objects w (host_session_key host) = Some (v, bs0)"
    by (auto simp: session_inv_def split: option.splits)
  obtain cur where all: "\<forall>s \<in> K. vs_host s = host \<and> vs_store_version s \<in> used w \<and> session_ok (vs_record s) \<and>
      precedes (vs_record s) cur \<and> (vs_store_version s = v \<longrightarrow> vs_record s = cur)"
    using assms(1) [unfolded stored session_inv_def option.case case_prod_conv] by blast
  then have "hs_epoch (vs_record s') \<le> hs_epoch cur" using assms(3) by (auto simp: precedes_def)
  then have "vs_store_version s \<noteq> v" using all assms(2,4) by auto
  moreover have "vs_host s = host" using all assms(2) by blast
  ultimately show ?thesis
    using assms(5) stored ops cas_effect [of "host_session_key host" "Some (vs_store_version s)" _ w]
    by (auto simp: session_replace_def call_map_def split: option.splits sum.splits prod.splits)
qed

end

lemma sim_put_cas_succeeds:
  assumes "\<not> sv_outage (sw_store w)" "length bs \<le> SIM_MAX_OBJECT_BYTES" "map_option fst (sim_objects w key) = expected"
  shows "\<exists>w'. sim_put_cas E key expected bs w = (w', Inr (saturating_add (sv_next_version (sw_store w)) 1)) \<and>
     \<not> sv_outage (sw_store w') \<and> sv_next_version (sw_store w') = saturating_add (sv_next_version (sw_store w)) 1"
proof -
  obtain st kind where a: "write_attempt E key bs True (sw_store w) = (st, kind)" by fastforce
  have "sv_outage (write_success E key bs k True s) = sv_outage s" "sv_outage (observe_archive_head E key bs s) = sv_outage s" for s k
    by (simp_all add: write_success_def observe_archive_head_def Let_def split: option.splits)
  with assms write_attempt_keeps [OF a] show ?thesis unfolding sim_put_cas_def a
    by (simp add: Let_def commit_object_def next_version_def sim_objects_def)
qed

text \<open>
  C8: At most one session per epoch.  In every run of a host's session key over the simulated
  store, in which any process creates, reads, challenges, defends, retires, revokes or activates
  through any session value anyone ever held, two records of the same epoch that hold the host
  name the same session; and once a later epoch was seen, a write from a session of an earlier
  epoch does not succeed and changes nothing.
\<close>

theorem session_epoch_exclusive:
  assumes "prost_roundtrips (ae_session A)" "session_messages_fit (ae_session A)" "ae_ops A = sim_ops E"
    and "sim_wf w0" "sim_objects w0 (host_session_key host) = None"
    and "session_run A sim_objects sim_used sim_room sim_wf host w0 K w" "s \<in> K" "s' \<in> K"
  shows "(hs_epoch (vs_record s) = hs_epoch (vs_record s') \<and> holds (vs_record s) \<and> holds (vs_record s') \<longrightarrow>
      hs_session (vs_record s) = hs_session (vs_record s')) \<and>
    (hs_epoch (vs_record s) < hs_epoch (vs_record s') \<longrightarrow>
      (\<forall>r w' x. session_replace A s r w = (w', x) \<longrightarrow> returned x = {} \<and> sim_objects w' = sim_objects w))"
proof -
  have inv: "session_inv A host (sim_used w) (sim_objects w (host_session_key host)) K"
    using sim.run_inv [OF assms(6,3,1,2,4,5)] by blast
  have "hs_session (vs_record s) = hs_session (vs_record s')"
    if "hs_epoch (vs_record s) = hs_epoch (vs_record s')" "holds (vs_record s)" "holds (vs_record s')"
    using inv assms(7,8) that unfolding session_inv_def by (cases "sim_objects w (host_session_key host)") auto
  then show ?thesis using sim.stale_replace_fails [OF inv assms(7,8) _ _ assms(3)] by blast
qed

text \<open>
  C35: The session key always holds a well-formed record.  In every such run, what is stored under
  the key decodes, with a nonzero epoch, a nonzero session and, where the record has one, a
  nonzero nonce.
\<close>

theorem stored_session_well_formed:
  assumes "prost_roundtrips (ae_session A)" "session_messages_fit (ae_session A)" "ae_ops A = sim_ops E"
    and "sim_wf w0" "sim_objects w0 (host_session_key host) = None"
    and "session_run A sim_objects sim_used sim_room sim_wf host w0 K w"
    and "sim_objects w (host_session_key host) = Some (v, bs)"
  shows "\<exists>r. session_decode (ae_env A) (ae_session A) bs = Some r \<and> session_encode (ae_env A) (ae_session A) r = Some bs \<and>
    hs_epoch r \<noteq> 0 \<and> (case r of Active session _ \<Rightarrow> session \<noteq> 0 | Challenge session _ nonce _ \<Rightarrow> session \<noteq> 0 \<and> nonce \<noteq> 0
      | Revoked old_session _ nonce \<Rightarrow> old_session \<noteq> 0 \<and> nonce \<noteq> 0)"
proof -
  have "session_inv A host (sim_used w) (sim_objects w (host_session_key host)) K"
    using sim.run_inv [OF assms(6,3,1,2,4,5)] by blast
  then obtain r where r: "session_decode (ae_env A) (ae_session A) bs = Some r"
    using assms(7) by (auto simp: session_inv_def)
  then have "session_encode (ae_env A) (ae_session A) r = Some bs" "session_ok r"
    using assms(1) by (simp_all add: session_decode_iff)
  with r show ?thesis by (auto simp: session_ok_def session_malformed_def split: host_session.splits)
qed

section \<open>A concrete run\<close>

text \<open>A wire form for closed examples: a tag byte and the fields at their width.\<close>

fun enc_session_state :: "session_state_wire option \<Rightarrow> bytes" where
  "enc_session_state None = [0]"
| "enc_session_state (Some (Active_Wire a b)) = 1 # enc_u64 a @ enc_u64 b"
| "enc_session_state (Some (Challenge_Wire a b c d)) = 2 # enc_u64 a @ enc_u64 b @ enc_u64 c @ enc_u64 d"
| "enc_session_state (Some (Revoked_Wire a b c)) = 3 # enc_u64 a @ enc_u64 b @ enc_u64 c"

definition dec_session_state :: "bytes \<Rightarrow> session_state_wire option option" where
  "dec_session_state d =
     do { (t, d) \<leftarrow> dec_u8 d;
          if t = 0 then Some None
          else do { (a, d) \<leftarrow> dec_u64 d; (b, d) \<leftarrow> dec_u64 d;
            if t = 1 then Some (Some (Active_Wire a b))
            else do { (c, d) \<leftarrow> dec_u64 d;
              if t = 3 then Some (Some (Revoked_Wire a b c))
              else do { (e, d) \<leftarrow> dec_u64 d; Some (Some (Challenge_Wire a b c e)) } } } }"

definition demo_session_prost :: "session_wire prost" where
  "demo_session_prost = \<lparr> pr_encode = (\<lambda>w. enc_u32 (sw_version w) @ enc_session_state (sw_state w)),
     pr_decode = (\<lambda>d. do { (version, d) \<leftarrow> dec_u32 d; state \<leftarrow> dec_session_state d;
                          Some \<lparr> sw_version = version, sw_state = state \<rparr> }) \<rparr>"

lemma dec_u8_Cons [simp]: "dec_u8 (b # d) = Some (b, d)"
  using u8c.dec_enc [of b d] by (simp add: enc_u8_def)

lemma demo_session_prost_ok: "prost_roundtrips demo_session_prost" "session_messages_fit demo_session_prost"
proof -
  have "dec_session_state (enc_session_state x) = Some x" for x
    by (cases x rule: enc_session_state.cases) (simp_all add: dec_session_state_def)
  then show "prost_roundtrips demo_session_prost" by (simp add: prost_roundtrips_def demo_session_prost_def)
  have "length (enc_session_state x) \<le> 33" for x by (cases x rule: enc_session_state.cases) simp_all
  then have "length (enc_session_state x) \<le> 252" for x by (rule le_trans) simp
  then show "session_messages_fit demo_session_prost"
    by (simp add: session_messages_fit_def demo_session_prost_def MAX_HOST_SESSION_PAYLOAD_BYTES_def)
qed

text \<open>With the store up and the version current, a transition succeeds.\<close>

lemma session_replace_succeeds:
  assumes "ae_ops A = sim_ops E" "\<not> sv_outage (sw_store w)" "session_messages_fit (ae_session A)"
    and "map_option fst (sim_objects w (host_session_key (vs_host s))) = Some (vs_store_version s)"
  defines "v \<equiv> saturating_add (sv_next_version (sw_store w)) 1"
  shows "\<exists>w'. session_replace A s r w = (w', Returned \<lparr> vs_host = vs_host s, vs_store_version = v, vs_record = r \<rparr>) \<and>
    \<not> sv_outage (sw_store w') \<and> sv_next_version (sw_store w') = v \<and>
    map_option fst (sim_objects w' (host_session_key (vs_host s))) = Some v"
proof -
  have small: "length (pr_encode (ae_session A) (session_message r)) \<le> 256"
    using assms(3) by (simp add: session_messages_fit_def MAX_HOST_SESSION_PAYLOAD_BYTES_def)
  then have "fits_u32 (length (pr_encode (ae_session A) (session_message r)))"
    by (simp add: fits_u32_def)
  then obtain bs where bs: "session_encode (ae_env A) (ae_session A) r = Some bs"
    by (simp add: session_encode_def session_message_def frame_shape)
  then have "length bs = FRAME_HEADER + length (pr_encode (ae_session A) (session_message r))"
    unfolding session_encode_def session_message_def by (rule seal_frame_length)
  then have "length bs \<le> SIM_MAX_OBJECT_BYTES" using small by (simp add: FRAME_HEADER_def SIM_MAX_OBJECT_BYTES_def)
  from sim_put_cas_succeeds [OF assms(2) this assms(4), of E] obtain w' where
    cas: "sim_put_cas E (host_session_key (vs_host s)) (Some (vs_store_version s)) bs w = (w', Inr v)"
    "\<not> sv_outage (sw_store w')" "sv_next_version (sw_store w') = v" unfolding v_def by blast
  with sim_put_cas_Inr(2) [OF cas(1)] show ?thesis
    by (simp add: session_replace_def bs assms(1) sim_ops_def call_map_def)
qed

definition empty_counters :: store_counters where
  "empty_counters = \<lparr> sc_gets = 0, sc_puts = 0, sc_deletes = 0, sc_put_attempts = 0, sc_put_successes = 0,
     sc_cas_attempts = 0, sc_cas_successes = 0, sc_cas_conflicts = 0, sc_unavailable = 0, sc_too_large = 0,
     sc_bytes_put = 0, sc_unique_bytes = 0, sc_retry_bytes = 0, sc_bytes_got = 0, sc_bitflips = 0,
     sc_puts_by_kind = replicate 7 \<lparr> pc_attempts = 0, pc_successes = 0, pc_attempted_bytes = 0, pc_successful_bytes = 0 \<rparr>,
     sc_object_size_histogram = replicate 7 0, sc_logical_changed_bytes = 0 \<rparr>"

definition empty_world :: sim_world where
  "empty_world = \<lparr> sw_store = \<lparr> sv_objects = [], sv_next_version = 0, sv_outage = False, sv_attempted_payloads = {},
     sv_seen_payloads = {}, sv_archived_generations = [], sv_counters = empty_counters \<rparr>, sw_latest = [], sw_by_capture = [] \<rparr>"

definition demo_authority :: "sim_world authority_env" where
  "demo_authority = \<lparr> ae_env = demo_env, ae_session = demo_session_prost,
     ae_placement = \<lparr> pr_encode = (\<lambda>_. []), pr_decode = (\<lambda>_. None) \<rparr>, ae_ops = sim_ops demo_env, ae_between = (\<lambda>w. w) \<rparr>"

lemma empty_world_init: "sim_wf empty_world" "sim_objects empty_world key = None"
  by (simp_all add: empty_world_def sim_wf_def sim_objects_def bm_ordered_def)

text \<open>Create, challenge and revoke host 1's session 5.\<close>

lemma demo_session_run:
  "\<exists>s s' K w. session_run demo_authority sim_objects sim_used sim_room sim_wf 1 empty_world K w \<and> s \<in> K \<and> s' \<in> K \<and>
     vs_record s = Active 5 1 \<and> vs_record s' = Revoked 5 2 7 \<and> (\<exists>v bs. sim_objects w (host_session_key 1) = Some (v, bs))"
proof -
  let ?run = "session_run demo_authority sim_objects sim_used sim_room sim_wf 1 empty_world"
  have A: "ae_ops demo_authority = sim_ops demo_env" "session_messages_fit (ae_session demo_authority)"
    by (simp_all add: demo_authority_def demo_session_prost_ok)
  have room: "sim_room w" if "sv_next_version (sw_store w) = of_nat n" "n < 10" for w n
    using that by (auto simp: sim_room_def word_unat_eq_iff unat_of_nat unat_max_u64)
  have bs: "\<exists>bs. session_encode demo_env demo_session_prost (Active 5 1) = Some bs \<and> length bs \<le> SIM_MAX_OBJECT_BYTES"
    by (simp add: session_encode_def frame_shape demo_session_prost_def fits_u32_def SIM_MAX_OBJECT_BYTES_def)
  then obtain bs where bs: "session_encode demo_env demo_session_prost (Active 5 1) = Some bs" "length bs \<le> SIM_MAX_OBJECT_BYTES"
    by blast
  have "\<not> sv_outage (sw_store empty_world)" by (simp add: empty_world_def)
  from sim_put_cas_succeeds [OF this bs(2), of "host_session_key 1" None demo_env] obtain w1 where
    w1: "sim_put_cas demo_env (host_session_key 1) None bs empty_world = (w1, Inr 1)" "\<not> sv_outage (sw_store w1)"
    "sv_next_version (sw_store w1) = 1"
    by (auto simp: empty_world_init) (simp add: empty_world_def saturating_add_def)
  let ?s1 = "\<lparr> vs_host = 1, vs_store_version = 1, vs_record = Active 5 1 \<rparr>"
  have "create_host_session demo_authority 1 5 empty_world = (w1, Returned ?s1)"
    using w1(1) bs by (simp add: create_host_session_def session_initial_def demo_authority_def sim_ops_def call_map_def)
  from session_run.create [OF session_run.start room [of _ 0] this] have r1: "?run {?s1} w1"
    by (simp add: empty_world_def)
  have "map_option fst (sim_objects w1 (host_session_key 1)) = Some 1" using sim_put_cas_Inr(2) [OF w1(1)] by simp
  with session_replace_succeeds [OF A(1) w1(2) A(2), of ?s1 "Challenge 5 1 7 0"] obtain w2 where
    w2: "session_replace demo_authority ?s1 (Challenge 5 1 7 0) w1 = (w2, Returned \<lparr> vs_host = 1, vs_store_version = 2, vs_record = Challenge 5 1 7 0 \<rparr>)"
    "\<not> sv_outage (sw_store w2)" "sv_next_version (sw_store w2) = 2"
    "map_option fst (sim_objects w2 (host_session_key 1)) = Some 2"
    by (auto simp: w1(3) saturating_add_def)
  let ?s2 = "\<lparr> vs_host = 1, vs_store_version = 2, vs_record = Challenge 5 1 7 0 \<rparr>"
  have "session_challenge (Active 5 1) 7 0 = Some (Challenge 5 1 7 0)" by simp
  then have "session_step (vs_record ?s1) (Challenge 5 1 7 0)" unfolding session_step_def by (metis versioned_session.select_convs(3))
  from session_run.transition [OF r1 room [of _ 1] _ this w2(1)] have r2: "?run {?s1, ?s2} w2"
    by (simp add: w1(3) insert_commute)
  from session_replace_succeeds [OF A(1) w2(2) A(2), of ?s2 "Revoked 5 2 7"] w2(4) obtain w3 where
    w3: "session_replace demo_authority ?s2 (Revoked 5 2 7) w2 = (w3, Returned \<lparr> vs_host = 1, vs_store_version = 3, vs_record = Revoked 5 2 7 \<rparr>)"
    "map_option fst (sim_objects w3 (host_session_key 1)) = Some 3"
    by (auto simp: w2(3) saturating_add_def)
  have "session_revoke (Challenge 5 1 7 0) 7 = Some (Revoked 5 2 7)" by (simp add: checked_add_def)
  then have "session_step (vs_record ?s2) (Revoked 5 2 7)" by (auto simp: session_step_def)
  from session_run.transition [OF r2 room [of _ 2] _ this w3(1)]
  have "?run (insert \<lparr> vs_host = 1, vs_store_version = 3, vs_record = Revoked 5 2 7 \<rparr> {?s1, ?s2}) w3"
    by (simp add: w2(3) insert_commute)
  moreover have "\<exists>v bs. sim_objects w3 (host_session_key 1) = Some (v, bs)" using w3(2) by auto
  moreover have "vs_record ?s1 = Active 5 1"
    "vs_record \<lparr> vs_host = 1, vs_store_version = 3, vs_record = Revoked 5 2 7 \<rparr> = Revoked 5 2 7" by simp_all
  ultimately show ?thesis by (metis insertI1 insertI2)
qed

theorem session_epoch_exclusive_witness:
  "\<exists>s K w. session_run demo_authority sim_objects sim_used sim_room sim_wf 1 empty_world K w \<and> s \<in> K \<and>
     vs_record s = Active 5 1 \<and>
     (\<forall>r w' x. session_replace demo_authority s r w = (w', x) \<longrightarrow> returned x = {} \<and> sim_objects w' = sim_objects w)"
proof -
  obtain s s' K w where run: "session_run demo_authority sim_objects sim_used sim_room sim_wf 1 empty_world K w"
    and s: "s \<in> K" "s' \<in> K" "vs_record s = Active 5 1" "vs_record s' = Revoked 5 2 7"
    using demo_session_run by blast
  have "prost_roundtrips (ae_session demo_authority)" "session_messages_fit (ae_session demo_authority)"
    "ae_ops demo_authority = sim_ops demo_env"
    by (simp_all add: demo_authority_def demo_session_prost_ok)
  from session_epoch_exclusive [OF this empty_world_init run s(1,2)] s run show ?thesis by auto
qed

theorem stored_session_well_formed_witness:
  "\<exists>K w v bs r. session_run demo_authority sim_objects sim_used sim_room sim_wf 1 empty_world K w \<and>
     sim_objects w (host_session_key 1) = Some (v, bs) \<and> session_decode demo_env demo_session_prost bs = Some r \<and> hs_epoch r \<noteq> 0"
proof -
  obtain K w v bs where run: "session_run demo_authority sim_objects sim_used sim_room sim_wf 1 empty_world K w"
    and stored: "sim_objects w (host_session_key 1) = Some (v, bs)"
    using demo_session_run by blast
  have "prost_roundtrips (ae_session demo_authority)" "session_messages_fit (ae_session demo_authority)"
    "ae_ops demo_authority = sim_ops demo_env"
    by (simp_all add: demo_authority_def demo_session_prost_ok)
  from stored_session_well_formed [OF this empty_world_init run stored] obtain r where
    "session_decode demo_env demo_session_prost bs = Some r" "hs_epoch r \<noteq> 0" by (auto simp: demo_authority_def)
  with run stored show ?thesis by blast
qed

end
