(* ===== verification/Keyed_Queue.thy ===== *)
theory Keyed_Queue
  imports Ord_Map "HOL-Library.Sublist" "HOL-Library.Multiset"
begin

text \<open>
  Fair pending work for keys that may have at most one active operation,
  \<^verbatim>\<open>crates/core/src/engine/keyed_queue.rs\<close>.  An operation that asserts returns \<open>None\<close> when the
  assertion fails.  A schedule is any sequence of the operations; the theorems are about every
  schedule that completes only what is active, which is what the executor does.
\<close>

record ('k, 'v) keyed_queue =
  kq_queues :: "('k, 'v list) btree_map"
  kq_ready :: "'k list"
  kq_active :: "'k btree_set"
  kq_pending :: nat

definition kq_new :: "('k, 'v) keyed_queue" where
  "kq_new = \<lparr> kq_queues = [], kq_ready = [], kq_active = [], kq_pending = 0 \<rparr>"

definition queued :: "('k, 'v) keyed_queue \<Rightarrow> 'k \<Rightarrow> 'v list" where
  "queued q k = (case map_of (kq_queues q) k of None \<Rightarrow> [] | Some vs \<Rightarrow> vs)"

definition kq_push :: "('k::linorder) \<Rightarrow> 'v \<Rightarrow> ('k, 'v) keyed_queue \<Rightarrow> ('k, 'v) keyed_queue" where
  "kq_push key value q =
     (let queue = queued q key;
          ready = (if queue = [] \<and> key \<notin> set (kq_active q) then kq_ready q @ [key] else kq_ready q)
      in q\<lparr> kq_ready := ready, kq_queues := bm_insert (<) key (queue @ [value]) (kq_queues q),
            kq_pending := kq_pending q + 1 \<rparr>)"

definition kq_start_next ::
  "nat \<Rightarrow> ('k::linorder, 'v) keyed_queue \<Rightarrow> (('k, 'v) keyed_queue \<times> ('k \<times> 'v) option) option" where
  "kq_start_next concurrency q =
     (if length (kq_active q) \<ge> concurrency then Some (q, None)
      else case kq_ready q of
        [] \<Rightarrow> Some (q, None)
      | key # ready \<Rightarrow>
          if key \<in> set (kq_active q) then None
          else (case map_of (kq_queues q) key of
                  Some (value # queue) \<Rightarrow>
                    Some (q\<lparr> kq_ready := ready, kq_active := bs_insert (<) key (kq_active q),
                             kq_queues := bm_insert (<) key queue (kq_queues q), kq_pending := kq_pending q - 1 \<rparr>,
                          Some (key, value))
                | _ \<Rightarrow> None))"

definition kq_complete :: "('k::linorder) \<Rightarrow> ('k, 'v) keyed_queue \<Rightarrow> ('k, 'v) keyed_queue option" where
  "kq_complete key q =
     (if key \<notin> set (kq_active q) then None
      else let q = q\<lparr> kq_active := bs_remove key (kq_active q) \<rparr> in
        if map_of (kq_queues q) key = Some [] then Some (q\<lparr> kq_queues := bm_remove key (kq_queues q) \<rparr>)
        else Some (q\<lparr> kq_ready := kq_ready q @ [key] \<rparr>))"

text \<open>Split a queue at the first value that satisfies the predicate.\<close>

fun take_first :: "('v \<Rightarrow> bool) \<Rightarrow> 'v list \<Rightarrow> ('v \<times> 'v list) option" where
  "take_first P [] = None"
| "take_first P (v # vs) =
     (if P v then Some (v, vs) else map_option (\<lambda>(x, rest). (x, v # rest)) (take_first P vs))"

definition kq_remove_where ::
  "('k::linorder) \<Rightarrow> ('v \<Rightarrow> bool) \<Rightarrow> ('k, 'v) keyed_queue \<Rightarrow> ('k, 'v) keyed_queue \<times> 'v option" where
  "kq_remove_where key P q =
     (case Option.bind (map_of (kq_queues q) key) (take_first P) of
        None \<Rightarrow> (q, None)
      | Some (value, queue) \<Rightarrow>
          let q = q\<lparr> kq_queues := bm_insert (<) key queue (kq_queues q), kq_pending := kq_pending q - 1 \<rparr> in
          if queue = [] \<and> key \<notin> set (kq_active q)
          then (q\<lparr> kq_queues := bm_remove key (kq_queues q), kq_ready := filter (\<lambda>ready. ready \<noteq> key) (kq_ready q) \<rparr>, Some value)
          else (q, Some value))"

definition kq_contains_key :: "('k, 'v) keyed_queue \<Rightarrow> 'k \<Rightarrow> bool" where
  "kq_contains_key q key \<longleftrightarrow> key \<in> set (kq_active q) \<or> map_of (kq_queues q) key \<noteq> None"

definition kq_is_idle :: "('k, 'v) keyed_queue \<Rightarrow> bool" where
  "kq_is_idle q \<longleftrightarrow> kq_pending q = 0 \<and> kq_active q = []"

section \<open>The invariant\<close>

definition total_queued :: "('k, 'v) keyed_queue \<Rightarrow> nat" where
  "total_queued q = sum_list (map (length \<circ> snd) (kq_queues q))"

definition kq_inv :: "('k::linorder, 'v) keyed_queue \<Rightarrow> bool" where
  "kq_inv q \<longleftrightarrow>
     bm_ordered (<) (kq_queues q) \<and> sorted_wrt (<) (kq_active q) \<and> distinct (kq_ready q) \<and>
     (\<forall>k. k \<in> set (kq_ready q) \<longleftrightarrow> k \<notin> set (kq_active q) \<and> queued q k \<noteq> []) \<and>
     (\<forall>k. map_of (kq_queues q) k = Some [] \<longrightarrow> k \<in> set (kq_active q)) \<and>
     (\<forall>k \<in> set (kq_active q). map_of (kq_queues q) k \<noteq> None) \<and>
     kq_pending q = total_queued q"

lemma kq_invD:
  assumes "kq_inv q"
  shows "bm_ordered (<) (kq_queues q)" "sorted_wrt (<) (kq_active q)" "distinct (kq_ready q)"
    "\<And>k. k \<in> set (kq_ready q) \<longleftrightarrow> k \<notin> set (kq_active q) \<and> queued q k \<noteq> []"
    "\<And>k. map_of (kq_queues q) k = Some [] \<Longrightarrow> k \<in> set (kq_active q)"
    "\<And>k. k \<in> set (kq_active q) \<Longrightarrow> map_of (kq_queues q) k \<noteq> None"
    "kq_pending q = total_queued q"
  using assms unfolding kq_inv_def by blast+

lemma kq_invI:
  assumes "bm_ordered (<) (kq_queues q)" "sorted_wrt (<) (kq_active q)" "distinct (kq_ready q)"
    "\<And>k. k \<in> set (kq_ready q) \<longleftrightarrow> k \<notin> set (kq_active q) \<and> queued q k \<noteq> []"
    "\<And>k. map_of (kq_queues q) k = Some [] \<Longrightarrow> k \<in> set (kq_active q)"
    "\<And>k. k \<in> set (kq_active q) \<Longrightarrow> map_of (kq_queues q) k \<noteq> None"
    "kq_pending q = total_queued q"
  shows "kq_inv q"
  using assms unfolding kq_inv_def by blast

lemma kq_new_inv: "kq_inv kq_new"
  by (simp add: kq_inv_def kq_new_def bm_ordered_def queued_def total_queued_def)

text \<open>The total is a sum over the keys, so replacing one queue changes it by that queue's change.\<close>

lemma total_insert:
  fixes k :: "'k::linorder"
  assumes "bm_ordered (<) m"
  shows "sum_list (map (length \<circ> snd) (bm_insert (<) k vs m)) +
    length (case map_of m k of None \<Rightarrow> [] | Some us \<Rightarrow> us) = sum_list (map (length \<circ> snd) m) + length (vs :: 'v list)"
  using assms
proof (induction m)
  case (Cons e m)
  obtain k' us where e: "e = (k', us)" by force
  have rest: "bm_ordered (<) m" and less: "\<And>x. x \<in> fst ` set m \<Longrightarrow> k' < x"
    using Cons.prems by (auto simp: bm_ordered_def e)
  have "map_of m k = None" if "k < k'"
  proof -
    have "k \<notin> fst ` set m" using less [of k] that order.asym by blast
    then show ?thesis by (simp add: map_of_eq_None_iff)
  qed
  with Cons.IH [OF rest] less_linear [of k k'] show ?case by (auto simp: e)
qed simp

lemma total_remove_empty:
  fixes k :: "'k::linorder"
  shows "bm_ordered (<) m \<Longrightarrow> map_of m k = Some [] \<Longrightarrow>
    sum_list (map (length \<circ> snd) (bm_remove k m)) = sum_list (map (length \<circ> snd) m)"
proof (induction m)
  case (Cons e m)
  obtain k' us where e: "e = (k', us)" by force
  have rest: "bm_ordered (<) m" and less: "\<And>x. x \<in> fst ` set m \<Longrightarrow> k' < x"
    using Cons.prems by (auto simp: bm_ordered_def e)
  show ?case
  proof (cases "k = k'")
    case True
    then have "k \<notin> fst ` set m" using less [of k] by auto
    then have "bm_remove k m = m" unfolding bm_remove_def filter_id_conv by blast
    with True Cons.prems(2) show ?thesis by (simp add: e bm_remove_def)
  next
    case False
    then have "map_of m k = Some []" using Cons.prems(2) by (simp add: e)
    from Cons.IH [OF rest this] False show ?thesis by (simp add: e bm_remove_def)
  qed
qed simp

lemma kq_push_fields:
  "queued (kq_push k v q) = (queued q)(k := queued q k @ [v])"
  "kq_ready (kq_push k v q) = (if queued q k = [] \<and> k \<notin> set (kq_active q) then kq_ready q @ [k] else kq_ready q)"
  "kq_active (kq_push k v q) = kq_active q" "kq_pending (kq_push k v q) = kq_pending q + 1"
  "kq_queues (kq_push k v q) = bm_insert (<) k (queued q k @ [v]) (kq_queues q)"
  by (auto simp: kq_push_def Let_def queued_def linear.map_of_insert fun_eq_iff)

lemma kq_push_inv:
  assumes "kq_inv q"
  shows "kq_inv (kq_push k v q)"
proof (rule kq_invI)
  note inv = kq_invD [OF assms]
  show "bm_ordered (<) (kq_queues (kq_push k v q))" using inv(1) by (simp add: kq_push_fields linear.ordered_insert)
  show "sorted_wrt (<) (kq_active (kq_push k v q))" using inv(2) by (simp add: kq_push_fields)
  show "distinct (kq_ready (kq_push k v q))" using inv(3,4) by (simp add: kq_push_fields)
  show "x \<in> set (kq_ready (kq_push k v q)) \<longleftrightarrow> x \<notin> set (kq_active (kq_push k v q)) \<and> queued (kq_push k v q) x \<noteq> []" for x
    using inv(4) by (simp add: kq_push_fields) blast
  show "x \<in> set (kq_active (kq_push k v q))" if "map_of (kq_queues (kq_push k v q)) x = Some []" for x
    using inv(5) [of x] that by (simp add: kq_push_fields linear.map_of_insert split: if_splits)
  show "map_of (kq_queues (kq_push k v q)) x \<noteq> None" if "x \<in> set (kq_active (kq_push k v q))" for x
    using inv(6) [of x] that by (simp add: kq_push_fields linear.map_of_insert)
  show "kq_pending (kq_push k v q) = total_queued (kq_push k v q)"
    using total_insert [OF inv(1), of k "queued q k @ [v]"] inv(7)
    by (simp add: kq_push_fields total_queued_def queued_def)
qed

text \<open>A start takes the head of the ready line and the head of that key's queue.\<close>

lemma kq_start_next_cases:
  assumes "kq_inv q"
  obtains (none) "kq_start_next c q = Some (q, None)" "c \<le> length (kq_active q) \<or> kq_ready q = []"
  | (some) k ready v vs q' where "length (kq_active q) < c" "kq_ready q = k # ready" "k \<notin> set (kq_active q)"
      "queued q k = v # vs" "map_of (kq_queues q) k = Some (v # vs)"
      "q' = q\<lparr> kq_ready := ready, kq_active := bs_insert (<) k (kq_active q),
               kq_queues := bm_insert (<) k vs (kq_queues q), kq_pending := kq_pending q - 1 \<rparr>"
      "kq_start_next c q = Some (q', Some (k, v))"
proof (cases "c \<le> length (kq_active q) \<or> kq_ready q = []")
  case True
  then show ?thesis by (intro none) (auto simp: kq_start_next_def)
next
  case False
  then obtain k ready where k: "kq_ready q = k # ready" by (cases "kq_ready q") auto
  then have "k \<notin> set (kq_active q)" "queued q k \<noteq> []" using kq_invD(4) [OF assms, of k] by auto
  then obtain v vs where "queued q k = v # vs" "map_of (kq_queues q) k = Some (v # vs)"
    by (cases "queued q k") (auto simp: queued_def split: option.splits)
  with False k \<open>k \<notin> set (kq_active q)\<close> show ?thesis by (intro some) (auto simp: kq_start_next_def)
qed

lemma kq_start_inv:
  assumes "kq_inv q" "kq_start_next c q = Some (q', r)"
  shows "kq_inv q'"
  using assms(1)
proof (cases rule: kq_start_next_cases [where c = c])
  case none
  with assms show ?thesis by simp
next
  case (some k ready v vs q'')
  note inv = kq_invD [OF assms(1)]
  from some assms(2) have q': "q' = q\<lparr> kq_ready := ready, kq_active := bs_insert (<) k (kq_active q),
      kq_queues := bm_insert (<) k vs (kq_queues q), kq_pending := kq_pending q - 1 \<rparr>" by simp
  have queue: "queued q' = (queued q)(k := vs)" by (auto simp: q' queued_def linear.map_of_insert fun_eq_iff)
  have k: "k \<notin> set ready" using inv(3) some(2) by simp
  show ?thesis
  proof (rule kq_invI)
    show "bm_ordered (<) (kq_queues q')" using inv(1) by (simp add: q' linear.ordered_insert)
    show "sorted_wrt (<) (kq_active q')" using inv(2) by (simp add: q' linear.sorted_bs_insert)
    show "distinct (kq_ready q')" using inv(3) some(2) by (simp add: q')
    show "x \<in> set (kq_ready q') \<longleftrightarrow> x \<notin> set (kq_active q') \<and> queued q' x \<noteq> []" for x
      using inv(4) [of x] some(2) k unfolding queue by (cases "x = k") (simp_all add: q' linear.set_bs_insert)
    show "x \<in> set (kq_active q')" if "map_of (kq_queues q') x = Some []" for x
      using inv(5) [of x] that by (cases "x = k") (simp_all add: q' linear.map_of_insert linear.set_bs_insert)
    show "map_of (kq_queues q') x \<noteq> None" if "x \<in> set (kq_active q')" for x
      using inv(6) [of x] that by (cases "x = k") (simp_all add: q' linear.map_of_insert linear.set_bs_insert)
    show "kq_pending q' = total_queued q'"
      using total_insert [OF inv(1), of k vs] inv(7) some(5) by (simp add: q' total_queued_def)
  qed
qed

lemma kq_complete_inv:
  assumes "kq_inv q" "kq_complete k q = Some q'"
  shows "kq_inv q'" "queued q' = queued q"
proof -
  note inv = kq_invD [OF assms(1)]
  from assms(2) have act: "k \<in> set (kq_active q)" by (simp add: kq_complete_def split: if_splits)
  then have not_ready: "k \<notin> set (kq_ready q)" using inv(4) by blast
  consider (last) "map_of (kq_queues q) k = Some []"
      "q' = q\<lparr> kq_active := bs_remove k (kq_active q), kq_queues := bm_remove k (kq_queues q) \<rparr>"
    | (again) "map_of (kq_queues q) k \<noteq> Some []"
      "q' = q\<lparr> kq_active := bs_remove k (kq_active q), kq_ready := kq_ready q @ [k] \<rparr>"
    using assms(2) act by (auto simp: kq_complete_def Let_def split: if_splits)
  then have "kq_inv q' \<and> queued q' = queued q"
  proof cases
    case last
    have queue: "queued q' = queued q"
      using last by (auto simp: queued_def linear.map_of_remove fun_eq_iff)
    have "kq_inv q'"
    proof (rule kq_invI)
      show "bm_ordered (<) (kq_queues q')" using inv(1) by (simp add: last(2) linear.ordered_remove)
      show "sorted_wrt (<) (kq_active q')" using inv(2) by (simp add: last(2) linear.sorted_bs_remove)
      show "distinct (kq_ready q')" using inv(3) by (simp add: last(2))
      show "x \<in> set (kq_ready q') \<longleftrightarrow> x \<notin> set (kq_active q') \<and> queued q' x \<noteq> []" for x
        using inv(4) [of x] not_ready last(1) unfolding queue
        by (cases "x = k") (simp_all add: last(2) queued_def)
      show "x \<in> set (kq_active q')" if "map_of (kq_queues q') x = Some []" for x
        using inv(5) [of x] that by (cases "x = k") (simp_all add: last(2) linear.map_of_remove)
      show "map_of (kq_queues q') x \<noteq> None" if "x \<in> set (kq_active q')" for x
        using inv(6) [of x] that by (simp add: last(2) linear.map_of_remove)
      show "kq_pending q' = total_queued q'"
        using total_remove_empty [OF inv(1) last(1)] inv(7) by (simp add: last(2) total_queued_def)
    qed
    with queue show ?thesis by blast
  next
    case again
    have queue: "queued q' = queued q" by (simp add: again(2) queued_def fun_eq_iff)
    have "queued q k \<noteq> []" using inv(6) [OF act] again(1) by (auto simp: queued_def)
    have "kq_inv q'"
    proof (rule kq_invI)
      show "x \<in> set (kq_ready q') \<longleftrightarrow> x \<notin> set (kq_active q') \<and> queued q' x \<noteq> []" for x
        using inv(4) [of x] \<open>queued q k \<noteq> []\<close> unfolding queue by (cases "x = k") (simp_all add: again(2))
      show "x \<in> set (kq_active q')" if "map_of (kq_queues q') x = Some []" for x
        using inv(5) [of x] that again(1) by (cases "x = k") (simp_all add: again(2))
    qed (use inv not_ready in \<open>simp_all add: again(2) linear.sorted_bs_remove total_queued_def\<close>)
    with queue show ?thesis by blast
  qed
  then show "kq_inv q'" "queued q' = queued q" by blast+
qed

lemma take_first_Some:
  "take_first P vs = Some (x, rest) \<Longrightarrow> P x \<and> mset vs = add_mset x (mset rest) \<and> subseq rest vs \<and> length vs = Suc (length rest)"
  by (induction vs arbitrary: rest) (auto split: if_splits)

lemma kq_remove_cases:
  obtains (none) "kq_remove_where k P q = (q, None)"
  | (empty) v vs where "map_of (kq_queues q) k = Some vs" "take_first P vs = Some (v, [])" "k \<notin> set (kq_active q)"
      "kq_remove_where k P q = (q\<lparr> kq_queues := bm_remove k (bm_insert (<) k [] (kq_queues q)), kq_pending := kq_pending q - 1,
         kq_ready := filter (\<lambda>ready. ready \<noteq> k) (kq_ready q) \<rparr>, Some v)"
  | (rest) v vs us where "map_of (kq_queues q) k = Some vs" "take_first P vs = Some (v, us)" "us \<noteq> [] \<or> k \<in> set (kq_active q)"
      "kq_remove_where k P q = (q\<lparr> kq_queues := bm_insert (<) k us (kq_queues q), kq_pending := kq_pending q - 1 \<rparr>, Some v)"
proof (cases "Option.bind (map_of (kq_queues q) k) (take_first P)")
  case None
  then show ?thesis by (intro none) (simp add: kq_remove_where_def)
next
  case (Some a)
  then obtain v us vs where a: "a = (v, us)" "map_of (kq_queues q) k = Some vs" "take_first P vs = Some (v, us)"
    by (cases a) (auto simp: bind_eq_Some_conv)
  show ?thesis
  proof (cases "us = [] \<and> k \<notin> set (kq_active q)")
    case True
    with Some a show ?thesis by (intro empty [of vs v]) (simp_all add: kq_remove_where_def)
  next
    case False
    with Some a show ?thesis by (intro rest [of vs v us]) (auto simp: kq_remove_where_def)
  qed
qed

lemma kq_remove_inv:
  assumes "kq_inv q" "kq_remove_where k P q = (q', r)"
  shows "kq_inv q'" "kq_active q' = kq_active q"
    "\<forall>x. x \<noteq> k \<longrightarrow> queued q' x = queued q x"
    "case r of None \<Rightarrow> queued q' k = queued q k
     | Some v \<Rightarrow> mset (queued q k) = add_mset v (mset (queued q' k)) \<and> subseq (queued q' k) (queued q k)"
proof -
  note inv = kq_invD [OF assms(1)]
  have "kq_inv q' \<and> kq_active q' = kq_active q \<and> (\<forall>x. x \<noteq> k \<longrightarrow> queued q' x = queued q x) \<and>
    (case r of None \<Rightarrow> queued q' k = queued q k
     | Some v \<Rightarrow> mset (queued q k) = add_mset v (mset (queued q' k)) \<and> subseq (queued q' k) (queued q k))"
  proof (cases rule: kq_remove_cases [of k P q])
    case none
    with assms show ?thesis by simp
  next
    case (empty v vs)
    from empty(4) assms(2) have q': "q' = q\<lparr> kq_queues := bm_remove k (bm_insert (<) k [] (kq_queues q)), kq_pending := kq_pending q - 1,
         kq_ready := filter (\<lambda>ready. ready \<noteq> k) (kq_ready q) \<rparr>" and r: "r = Some v" by simp_all
    note vs = take_first_Some [OF empty(2)]
    have ord: "bm_ordered (<) (bm_insert (<) k [] (kq_queues q))" using inv(1) by (rule linear.ordered_insert)
    have queue: "queued q' = (queued q)(k := [])"
      by (auto simp: q' queued_def linear.map_of_insert linear.map_of_remove fun_eq_iff)
    have "kq_inv q'"
    proof (rule kq_invI)
      show "bm_ordered (<) (kq_queues q')" using ord by (simp add: q' linear.ordered_remove)
      show "sorted_wrt (<) (kq_active q')" using inv(2) by (simp add: q')
      show "distinct (kq_ready q')" using inv(3) by (simp add: q')
      show "x \<in> set (kq_ready q') \<longleftrightarrow> x \<notin> set (kq_active q') \<and> queued q' x \<noteq> []" for x
        using inv(4) [of x] unfolding queue by (cases "x = k") (simp_all add: q')
      show "x \<in> set (kq_active q')" if "map_of (kq_queues q') x = Some []" for x
        using inv(5) [of x] that by (cases "x = k") (simp_all add: q' linear.map_of_remove linear.map_of_insert)
      show "map_of (kq_queues q') x \<noteq> None" if "x \<in> set (kq_active q')" for x
        using inv(6) [of x] that empty(3) by (cases "x = k") (simp_all add: q' linear.map_of_remove linear.map_of_insert)
      have "map_of (bm_insert (<) k [] (kq_queues q)) k = Some []" by (simp add: linear.map_of_insert)
      from total_remove_empty [OF ord this] total_insert [OF inv(1), of k "[]"] vs inv(7) empty(1)
      show "kq_pending q' = total_queued q'" by (simp add: q' total_queued_def)
    qed
    then show ?thesis using vs empty(1) unfolding queue by (simp add: q' r queued_def)
  next
    case (rest v vs us)
    from rest(4) assms(2) have q': "q' = q\<lparr> kq_queues := bm_insert (<) k us (kq_queues q), kq_pending := kq_pending q - 1 \<rparr>"
      and r: "r = Some v" by simp_all
    note vs = take_first_Some [OF rest(2)]
    have queue: "queued q' = (queued q)(k := us)" by (auto simp: q' queued_def linear.map_of_insert fun_eq_iff)
    have "vs \<noteq> []" using vs by auto
    have "kq_inv q'"
    proof (rule kq_invI)
      show "bm_ordered (<) (kq_queues q')" using inv(1) by (simp add: q' linear.ordered_insert)
      show "x \<in> set (kq_ready q') \<longleftrightarrow> x \<notin> set (kq_active q') \<and> queued q' x \<noteq> []" for x
        using inv(4) [of x] rest(1,3) \<open>vs \<noteq> []\<close> unfolding queue by (cases "x = k") (auto simp: q' queued_def)
      show "x \<in> set (kq_active q')" if "map_of (kq_queues q') x = Some []" for x
        using inv(5) [of x] that rest(3) by (cases "x = k") (simp_all add: q' linear.map_of_insert)
      show "map_of (kq_queues q') x \<noteq> None" if "x \<in> set (kq_active q')" for x
        using inv(6) [of x] that by (cases "x = k") (simp_all add: q' linear.map_of_insert)
      show "kq_pending q' = total_queued q'"
        using total_insert [OF inv(1), of k us] vs inv(7) rest(1) by (simp add: q' total_queued_def)
    qed (use inv in \<open>simp_all add: q'\<close>)
    then show ?thesis using vs rest(1) unfolding queue by (simp add: q' r queued_def)
  qed
  then show "kq_inv q'" "kq_active q' = kq_active q" "\<forall>x. x \<noteq> k \<longrightarrow> queued q' x = queued q x"
    "case r of None \<Rightarrow> queued q' k = queued q k
     | Some v \<Rightarrow> mset (queued q k) = add_mset v (mset (queued q' k)) \<and> subseq (queued q' k) (queued q k)"
    by blast+
qed

section \<open>Schedules\<close>

datatype ('k, 'v) kq_op = Push 'k 'v | Start nat | Complete 'k | Remove_Where 'k "'v \<Rightarrow> bool"
datatype ('k, 'v) kq_event = Started 'k 'v | Removed 'k 'v

fun kq_step :: "('k::linorder, 'v) kq_op \<Rightarrow> ('k, 'v) keyed_queue \<Rightarrow> (('k, 'v) keyed_queue \<times> ('k, 'v) kq_event list) option" where
  "kq_step (Push k v) q = Some (kq_push k v q, [])"
| "kq_step (Start c) q =
     map_option (\<lambda>(q, r). (q, case r of None \<Rightarrow> [] | Some (k, v) \<Rightarrow> [Started k v])) (kq_start_next c q)"
| "kq_step (Complete k) q = map_option (\<lambda>q. (q, [])) (kq_complete k q)"
| "kq_step (Remove_Where k P) q =
     (case kq_remove_where k P q of (q, r) \<Rightarrow> Some (q, case r of None \<Rightarrow> [] | Some v \<Rightarrow> [Removed k v]))"

fun kq_run :: "('k::linorder, 'v) kq_op list \<Rightarrow> ('k, 'v) keyed_queue \<Rightarrow> (('k, 'v) keyed_queue \<times> ('k, 'v) kq_event list) option" where
  "kq_run [] q = Some (q, [])"
| "kq_run (p # ps) q =
     do { (q, es) \<leftarrow> kq_step p q; (q, es') \<leftarrow> kq_run ps q; Some (q, es @ es') }"

text \<open>The executor completes only keys it was given.\<close>

fun allowed :: "('k, 'v) kq_op \<Rightarrow> ('k, 'v) keyed_queue \<Rightarrow> bool" where
  "allowed (Complete k) q \<longleftrightarrow> k \<in> set (kq_active q)"
| "allowed _ q \<longleftrightarrow> True"

fun well_scheduled :: "('k::linorder, 'v) kq_op list \<Rightarrow> ('k, 'v) keyed_queue \<Rightarrow> bool" where
  "well_scheduled [] q \<longleftrightarrow> True"
| "well_scheduled (p # ps) q \<longleftrightarrow> allowed p q \<and> (case kq_step p q of None \<Rightarrow> True | Some (q', _) \<Rightarrow> well_scheduled ps q')"

definition pushed :: "'k \<Rightarrow> ('k, 'v) kq_op list \<Rightarrow> 'v list" where
  "pushed k ps = concat (map (\<lambda>p. case p of Push x v \<Rightarrow> if x = k then [v] else [] | _ \<Rightarrow> []) ps)"

definition started :: "'k \<Rightarrow> ('k, 'v) kq_event list \<Rightarrow> 'v list" where
  "started k es = concat (map (\<lambda>e. case e of Started x v \<Rightarrow> if x = k then [v] else [] | _ \<Rightarrow> []) es)"

definition removed :: "'k \<Rightarrow> ('k, 'v) kq_event list \<Rightarrow> 'v list" where
  "removed k es = concat (map (\<lambda>e. case e of Removed x v \<Rightarrow> if x = k then [v] else [] | _ \<Rightarrow> []) es)"

fun concurrency_of :: "('k, 'v) kq_op \<Rightarrow> nat" where
  "concurrency_of (Start c) = c"
| "concurrency_of _ = 0"

text \<open>What one operation does to every key's work.\<close>

definition conserves :: "('k, 'v) keyed_queue \<Rightarrow> ('k, 'v) kq_op list \<Rightarrow> ('k, 'v) keyed_queue \<Rightarrow> ('k, 'v) kq_event list \<Rightarrow> bool" where
  "conserves q ps q' es \<longleftrightarrow> (\<forall>k. subseq (started k es @ queued q' k) (queued q k @ pushed k ps) \<and>
     mset (queued q k @ pushed k ps) = mset (started k es) + mset (removed k es) + mset (queued q' k))"

lemma kq_step_correct:
  assumes "kq_inv q" "allowed p q"
  shows "\<exists>q' es. kq_step p q = Some (q', es) \<and> kq_inv q' \<and> conserves q [p] q' es \<and>
    length (kq_active q') \<le> max (length (kq_active q)) (concurrency_of p)"
proof (cases p)
  case (Push k v)
  then show ?thesis
    using kq_push_inv [OF assms(1), of k v]
    by (simp add: conserves_def kq_push_fields pushed_def started_def removed_def)
next
  case (Start c)
  from assms(1) show ?thesis
  proof (cases rule: kq_start_next_cases [where c = c])
    case none
    then show ?thesis using assms(1) by (simp add: Start conserves_def pushed_def started_def removed_def)
  next
    case (some k ready v vs q')
    have "queued q' = (queued q)(k := vs)" by (auto simp: some(6) queued_def linear.map_of_insert fun_eq_iff)
    then have "conserves q [p] q' [Started k v]"
      using some(4) by (auto simp: conserves_def Start pushed_def started_def removed_def)
    moreover have "length (kq_active q') = Suc (length (kq_active q))"
      using distinct_card [OF linear.sorted_distinct [OF kq_invD(2) [OF kq_start_inv [OF assms(1) some(7)]]]]
        distinct_card [OF linear.sorted_distinct [OF kq_invD(2) [OF assms(1)]]] some(3)
      by (simp add: some(6) linear.set_bs_insert)
    ultimately show ?thesis using some(1,7) kq_start_inv [OF assms(1) some(7)] by (simp add: Start)
  qed
next
  case (Complete k)
  then obtain q' where q': "kq_complete k q = Some q'"
    using assms(2) by (cases "map_of (kq_queues q) k = Some []") (simp_all add: kq_complete_def Let_def)
  then have "kq_active q' = bs_remove k (kq_active q)" by (auto simp: kq_complete_def Let_def split: if_splits)
  then show ?thesis
    using kq_complete_inv [OF assms(1) q'] q'
    by (simp add: Complete conserves_def pushed_def started_def removed_def bs_remove_def le_max_iff_disj)
next
  case (Remove_Where k P)
  obtain q' r where r: "kq_remove_where k P q = (q', r)" by fastforce
  note spec = kq_remove_inv [OF assms(1) r]
  have "conserves q [p] q' (case r of None \<Rightarrow> [] | Some v \<Rightarrow> [Removed k v])"
    unfolding conserves_def
  proof
    fix x
    show "subseq (started x (case r of None \<Rightarrow> [] | Some v \<Rightarrow> [Removed k v]) @ queued q' x) (queued q x @ pushed x [p]) \<and>
      mset (queued q x @ pushed x [p]) = mset (started x (case r of None \<Rightarrow> [] | Some v \<Rightarrow> [Removed k v])) +
        mset (removed x (case r of None \<Rightarrow> [] | Some v \<Rightarrow> [Removed k v])) + mset (queued q' x)"
      using spec(3,4) by (cases "x = k"; cases r) (simp_all add: Remove_Where pushed_def started_def removed_def)
  qed
  then show ?thesis using spec(1,2) r by (simp add: Remove_Where)
qed

lemma trace_append [simp]:
  "started k (es @ es') = started k es @ started k es'" "removed k (es @ es') = removed k es @ removed k es'"
  by (simp_all add: started_def removed_def)

lemma pushed_Cons: "pushed k (p # ps) = pushed k [p] @ pushed k ps"
  by (simp add: pushed_def)

lemma subseq_append_iff_same: "subseq (xs @ ys) (xs @ zs) \<longleftrightarrow> subseq ys zs"
  by (induction xs) simp_all

lemma conserves_trans:
  assumes "conserves q [p] q' es" "conserves q' ps q'' es'"
  shows "conserves q (p # ps) q'' (es @ es')"
  unfolding conserves_def
proof
  fix k
  have one: "subseq (started k es @ queued q' k) (queued q k @ pushed k [p])"
      "mset (queued q k @ pushed k [p]) = mset (started k es) + mset (removed k es) + mset (queued q' k)"
    and two: "subseq (started k es' @ queued q'' k) (queued q' k @ pushed k ps)"
      "mset (queued q' k @ pushed k ps) = mset (started k es') + mset (removed k es') + mset (queued q'' k)"
    using assms unfolding conserves_def by blast+
  have "subseq (started k es @ started k es' @ queued q'' k) (started k es @ queued q' k @ pushed k ps)"
    using two(1) by (simp only: subseq_append_iff_same)
  moreover have "subseq ((started k es @ queued q' k) @ pushed k ps) ((queued q k @ pushed k [p]) @ pushed k ps)"
    using one(1) by (rule list_emb_append_mono) simp
  ultimately have "subseq (started k es @ started k es' @ queued q'' k) (queued q k @ pushed k [p] @ pushed k ps)"
    by (metis append.assoc subseq_order.order_trans)
  with one(2) two(2)
  show "subseq (started k (es @ es') @ queued q'' k) (queued q k @ pushed k (p # ps)) \<and>
    mset (queued q k @ pushed k (p # ps)) = mset (started k (es @ es')) + mset (removed k (es @ es')) + mset (queued q'' k)"
    unfolding pushed_Cons [of k p ps] by (simp add: ac_simps)
qed

lemma kq_run_correct:
  assumes "kq_inv q" "well_scheduled ps q"
  shows "\<exists>q' es. kq_run ps q = Some (q', es) \<and> kq_inv q' \<and> conserves q ps q' es \<and>
    (\<forall>n. length (kq_active q) \<le> n \<longrightarrow> list_all (\<lambda>p. concurrency_of p \<le> n) ps \<longrightarrow> length (kq_active q') \<le> n)"
  using assms
proof (induction ps arbitrary: q)
  case Nil
  then show ?case by (simp add: conserves_def pushed_def started_def removed_def)
next
  case (Cons p ps)
  from Cons.prems have "allowed p q" by simp
  from kq_step_correct [OF Cons.prems(1) this] obtain q1 es1 where one:
    "kq_step p q = Some (q1, es1)" "kq_inv q1" "conserves q [p] q1 es1"
    "length (kq_active q1) \<le> max (length (kq_active q)) (concurrency_of p)" by blast
  have "well_scheduled ps q1" using Cons.prems(2) one(1) by simp
  from Cons.IH [OF one(2) this] obtain q2 es2 where two:
    "kq_run ps q1 = Some (q2, es2)" "kq_inv q2" "conserves q1 ps q2 es2"
    "\<forall>n. length (kq_active q1) \<le> n \<longrightarrow> list_all (\<lambda>p. concurrency_of p \<le> n) ps \<longrightarrow> length (kq_active q2) \<le> n" by blast
  have "length (kq_active q2) \<le> n"
    if "length (kq_active q) \<le> n" "list_all (\<lambda>p. concurrency_of p \<le> n) (p # ps)" for n
  proof -
    have "length (kq_active q1) \<le> n" using one(4) that by (simp add: le_max_iff_disj) linarith
    with two(4) that(2) show ?thesis by simp
  qed
  with one(1) two(1,2) conserves_trans [OF one(3) two(3)] show ?case by simp
qed

lemma kq_new_fields [simp]: "queued kq_new k = []" "kq_active kq_new = []"
  by (simp_all add: kq_new_def queued_def)

section \<open>Bounded waiting\<close>

definition starts :: "('k, 'v) kq_event list \<Rightarrow> nat" where
  "starts es = length (filter (\<lambda>e. case e of Started _ _ \<Rightarrow> True | _ \<Rightarrow> False) es)"

definition place :: "'k \<Rightarrow> 'k list \<Rightarrow> nat" where
  "place k ks = length (takeWhile (\<lambda>x. x \<noteq> k) ks)"

fun withdraws :: "'k \<Rightarrow> ('k, 'v) kq_op \<Rightarrow> bool" where
  "withdraws k (Remove_Where x P) \<longleftrightarrow> x = k"
| "withdraws k _ \<longleftrightarrow> False"

lemma place_append: "k \<in> set ks \<Longrightarrow> place k (ks @ xs) = place k ks"
  by (simp add: place_def)

lemma place_filter: "P k \<Longrightarrow> place k (filter P ks) \<le> place k ks"
  by (induction ks) (auto simp: place_def)

lemma kq_step_waits:
  assumes "kq_inv q" "kq_step p q = Some (q', es)" "k \<in> set (kq_ready q)" "\<not> withdraws k p" "started k es = []"
  shows "k \<in> set (kq_ready q') \<and> place k (kq_ready q') + starts es \<le> place k (kq_ready q)"
proof (cases p)
  case (Push x v)
  then show ?thesis using assms by (auto simp: kq_push_fields starts_def place_append)
next
  case (Start c)
  from assms(1) show ?thesis
  proof (cases rule: kq_start_next_cases [where c = c])
    case none
    then show ?thesis using assms by (simp add: Start starts_def)
  next
    case (some x ready v vs q1)
    with assms(2) have *: "q' = q1" "es = [Started x v]" by (simp_all add: Start)
    with assms(5) have "x \<noteq> k" by (auto simp: started_def)
    with some assms(3) show ?thesis by (simp add: * place_def starts_def)
  qed
next
  case (Complete x)
  with assms show ?thesis
    by (auto simp: kq_complete_def Let_def starts_def place_append split: if_splits)
next
  case (Remove_Where x P)
  with assms(4) have "x \<noteq> k" by simp
  with assms(2,3) show ?thesis
    by (cases rule: kq_remove_cases [of x P q]) (auto simp: Remove_Where starts_def intro: place_filter)
qed

lemma kq_run_waits:
  assumes "kq_inv q" "well_scheduled ps q" "kq_run ps q = Some (q', es)" "k \<in> set (kq_ready q)"
    "\<not> list_ex (withdraws k) ps" "started k es = []"
  shows "k \<in> set (kq_ready q') \<and> place k (kq_ready q') + starts es \<le> place k (kq_ready q)"
  using assms
proof (induction ps arbitrary: q es)
  case Nil
  then show ?case by (simp add: starts_def)
next
  case (Cons p ps)
  from Cons.prems(3) obtain q1 es1 es2 where run: "kq_step p q = Some (q1, es1)" "kq_run ps q1 = Some (q', es2)" "es = es1 @ es2"
    by (auto simp: bind_eq_Some_conv)
  from Cons.prems(2) have "allowed p q" by simp
  from kq_step_correct [OF Cons.prems(1) this] run(1) have "kq_inv q1" by auto
  moreover have "k \<in> set (kq_ready q1) \<and> place k (kq_ready q1) + starts es1 \<le> place k (kq_ready q)"
    using kq_step_waits [OF Cons.prems(1) run(1) Cons.prems(4)] Cons.prems(5,6) run(3) by simp
  moreover have "well_scheduled ps q1" using Cons.prems(2) run(1) by simp
  ultimately show ?case
    using Cons.IH [OF _ _ run(2)] Cons.prems(5,6) run(3) by (fastforce simp: starts_def)
qed

lemma kq_start_progress:
  assumes "kq_inv q" "kq_ready q \<noteq> []" "length (kq_active q) < c"
  shows "\<exists>q' k v. kq_start_next c q = Some (q', Some (k, v))"
  using assms(1)
proof (cases rule: kq_start_next_cases [where c = c])
  case none
  then show ?thesis using assms(2,3) by simp
qed blast

section \<open>Properties\<close>

text \<open>
  C14: Every schedule of pushes, starts, completions and removals that completes only active keys runs
  without tripping an assertion, from the empty queue. Afterwards the bookkeeping is consistent. For each key the
  values started so far followed by those still queued are a subsequence of the values pushed, so a key's work
  starts in the order it arrived. No value is lost or duplicated: what was pushed is what was started, removed or
  is still queued. No more keys are active than the largest concurrency any start was given.\<close>

theorem keyed_queue_schedule_safe:
  assumes "well_scheduled ps kq_new"
  shows "\<exists>q es. kq_run ps kq_new = Some (q, es) \<and> kq_inv q \<and>
    (\<forall>k. subseq (started k es @ queued q k) (pushed k ps) \<and>
      mset (pushed k ps) = mset (started k es) + mset (removed k es) + mset (queued q k)) \<and>
    (\<forall>n. list_all (\<lambda>p. concurrency_of p \<le> n) ps \<longrightarrow> length (kq_active q) \<le> n)"
proof -
  from kq_run_correct [OF kq_new_inv assms] obtain q es where run:
    "kq_run ps kq_new = Some (q, es)" "kq_inv q" "conserves kq_new ps q es"
    "\<forall>n. length (kq_active (kq_new :: ('a, 'b) keyed_queue)) \<le> n \<longrightarrow> list_all (\<lambda>p. concurrency_of p \<le> n) ps \<longrightarrow> length (kq_active q) \<le> n"
    by blast
  then show ?thesis by (auto simp: conserves_def)
qed

definition demo_schedule :: "(nat, nat) kq_op list" where
  "demo_schedule = [Push 1 10, Push 1 11, Push 2 20, Start 1, Start 1, Remove_Where 2 (\<lambda>v. v = 20), Complete 1, Start 1]"

lemma demo_schedule_ok: "well_scheduled demo_schedule kq_new"
  by code_simp

theorem keyed_queue_schedule_safe_witness:
  "\<exists>q es. kq_run demo_schedule kq_new = Some (q, es) \<and> kq_inv q \<and> subseq (started 1 es @ queued q 1) [10, 11] \<and>
    length (kq_active q) \<le> 1"
proof -
  have "pushed 1 demo_schedule = [10, 11]" "list_all (\<lambda>p. concurrency_of p \<le> 1) demo_schedule"
    by (simp_all add: demo_schedule_def pushed_def)
  with keyed_queue_schedule_safe [OF demo_schedule_ok] show ?thesis by metis
qed

text \<open>
  C33: Waiting is bounded. A ready key with \<open>i\<close> keys ahead of it, whose work is not withdrawn, is among the
  keys started once a schedule has started more than \<open>i\<close> of them, whatever is pushed meanwhile. And a start
  that is below its concurrency never comes back empty while a key is ready.\<close>

theorem keyed_queue_bounded_waiting:
  assumes "kq_inv q" "k \<in> set (kq_ready q)" "well_scheduled ps q" "\<not> list_ex (withdraws k) ps"
  shows "(\<exists>q' es. kq_run ps q = Some (q', es) \<and> (place k (kq_ready q) < starts es \<longrightarrow> started k es \<noteq> [])) \<and>
    (\<forall>c. length (kq_active q) < c \<longrightarrow> (\<exists>q' x v. kq_start_next c q = Some (q', Some (x, v))))"
proof -
  from kq_run_correct [OF assms(1,3)] obtain q' es where run: "kq_run ps q = Some (q', es)" by blast
  from kq_run_waits [OF assms(1,3) run assms(2,4)] kq_start_progress [OF assms(1)] assms(2) run show ?thesis by fastforce
qed

theorem keyed_queue_bounded_waiting_witness:
  "\<exists>q' es. kq_run [Start 2, Push 1 12, Start 2] (kq_push 2 20 (kq_push (1::nat) (11::nat) kq_new)) = Some (q', es) \<and>
    (1 < starts es \<longrightarrow> started 2 es \<noteq> [])"
proof -
  have "kq_inv (kq_push 2 20 (kq_push (1::nat) (11::nat) kq_new))" by (intro kq_push_inv kq_new_inv)
  moreover have "kq_ready (kq_push 2 20 (kq_push (1::nat) (11::nat) kq_new)) = [1, 2]" by code_simp
  moreover have "well_scheduled [Start 2, Push 1 12, Start 2] (kq_push 2 20 (kq_push (1::nat) (11::nat) kq_new))" by code_simp
  ultimately show ?thesis
    using keyed_queue_bounded_waiting [of "kq_push 2 20 (kq_push (1::nat) (11::nat) kq_new)" 2 "[Start 2, Push 1 12, Start 2]"]
    by (simp add: place_def)
qed

end
