(* ===== verification/Page_Cache.thy ===== *)
theory Page_Cache
  imports Ord_Map "HOL-Library.Multiset"
begin

text \<open>
  Residency accounting of the host page cache, \<^verbatim>\<open>crates/core/src/cache.rs\<close>.  A failed assertion or
  \<open>expect\<close> is \<open>None\<close>.  The \<open>u64\<close> and \<open>u8\<close> counters are words whose additions wrap, as in the release
  profile; \<open>usize\<close> counts are naturals.  The harvest closure of \<open>age\<close> is the list it returns.
\<close>

type_synonym base_key = "u64 \<times> u64 \<times> object_id \<times> u32"

definition MAX_NR_GENS :: u64 where
  "MAX_NR_GENS = 4"

record page_entry =
  en_class :: u8
  en_dirty :: bool
  en_flushing :: u8
  en_generation :: u64
  en_touched :: u64

definition evictable :: "page_entry \<Rightarrow> bool" where
  "evictable e \<longleftrightarrow> \<not> en_dirty e \<and> en_flushing e = 0"

definition volume_range :: "volume_id \<Rightarrow> page_id \<times> page_id" where
  "volume_range volume = ((volume, 0), (volume, - 1))"

definition in_range :: "page_id \<Rightarrow> page_id \<times> page_id \<Rightarrow> bool" where
  "in_range p r \<longleftrightarrow> fst r \<le> p \<and> p \<le> snd r"

record page_cache =
  ca_capacity :: nat
  ca_reserved :: nat
  ca_entries :: "(page_id, page_entry) btree_map"
  ca_dirty :: "page_id btree_set"
  ca_unstable :: "page_id btree_set"
  ca_victims :: "(u8 \<times> u64 \<times> u64 \<times> page_id) btree_set"
  ca_gen_counts :: "(u8 \<times> u64, nat) btree_map"
  ca_max_seq :: u64
  ca_min_seq :: "u64 list"
  ca_base_resident :: "base_key btree_set"
  ca_clock :: u64

definition cache_new :: "nat \<Rightarrow> page_cache option" where
  "cache_new capacity =
     (if capacity \<ge> 1
      then Some \<lparr> ca_capacity = capacity, ca_reserved = 0, ca_entries = [], ca_dirty = [], ca_unstable = [],
                  ca_victims = [], ca_gen_counts = [], ca_max_seq = 0, ca_min_seq = [0, 0], ca_base_resident = [],
                  ca_clock = 0 \<rparr>
      else None)"

definition base_insert :: "base_key \<Rightarrow> page_cache \<Rightarrow> page_cache option" where
  "base_insert key c =
     (if ca_reserved c > 0
      then Some (c\<lparr> ca_reserved := ca_reserved c - 1, ca_base_resident := bs_insert (<) key (ca_base_resident c) \<rparr>)
      else None)"

definition base_is_resident :: "page_cache \<Rightarrow> base_key \<Rightarrow> bool" where
  "base_is_resident c key \<longleftrightarrow> key \<in> set (ca_base_resident c)"

definition is_resident :: "page_cache \<Rightarrow> page_id \<Rightarrow> bool" where
  "is_resident c page \<longleftrightarrow> map_of (ca_entries c) page \<noteq> None"

definition is_dirty :: "page_cache \<Rightarrow> page_id \<Rightarrow> bool" where
  "is_dirty c page \<longleftrightarrow> (case map_of (ca_entries c) page of None \<Rightarrow> False | Some e \<Rightarrow> en_dirty e)"

definition victim_of :: "page_id \<Rightarrow> page_entry \<Rightarrow> u8 \<times> u64 \<times> u64 \<times> page_id" where
  "victim_of page e = (en_class e, en_generation e, en_touched e, page)"

definition unlink :: "page_id \<Rightarrow> page_entry \<Rightarrow> page_cache \<Rightarrow> page_cache" where
  "unlink page e c = c\<lparr> ca_victims := bs_remove (victim_of page e) (ca_victims c) \<rparr>"

definition link :: "page_id \<Rightarrow> page_entry \<Rightarrow> page_cache \<Rightarrow> page_cache" where
  "link page e c = (if evictable e then c\<lparr> ca_victims := bs_insert (<) (victim_of page e) (ca_victims c) \<rparr> else c)"

definition count_add :: "u8 \<Rightarrow> u64 \<Rightarrow> page_cache \<Rightarrow> page_cache" where
  "count_add class generation c =
     (let n = (case map_of (ca_gen_counts c) (class, generation) of None \<Rightarrow> 0 | Some n \<Rightarrow> n)
      in c\<lparr> ca_gen_counts := bm_insert (<) (class, generation) (n + 1) (ca_gen_counts c) \<rparr>)"

text \<open>The loop of \<^verbatim>\<open>advance_min_seq\<close>; that it ends is a theorem below.\<close>

partial_function (option) advance_loop :: "nat \<Rightarrow> page_cache \<Rightarrow> page_cache option" where
  "advance_loop ty c =
     (if ty \<ge> length (ca_min_seq c) then None
      else if ca_min_seq c ! ty < ca_max_seq c \<and> map_of (ca_gen_counts c) (of_nat ty, ca_min_seq c ! ty) = None
      then advance_loop ty (c\<lparr> ca_min_seq := (ca_min_seq c)[ty := ca_min_seq c ! ty + 1] \<rparr>)
      else Some c)"

declare advance_loop.simps [code]

definition advance_min_seq :: "nat \<Rightarrow> page_cache \<Rightarrow> page_cache option" where
  "advance_min_seq ty c = (if ty < 2 ^ 8 then advance_loop ty c else None)"

text \<open>A generation without a count fails the \<open>expect\<close>; a count of zero, which the map never holds, would
  underflow and is treated as the same failure.\<close>

definition count_remove :: "u8 \<Rightarrow> u64 \<Rightarrow> page_cache \<Rightarrow> page_cache option" where
  "count_remove class generation c =
     (case map_of (ca_gen_counts c) (class, generation) of
        Some (Suc n) \<Rightarrow>
          let counts = bm_insert (<) (class, generation) n (ca_gen_counts c);
              counts = (if n = 0 then bm_remove (class, generation) counts else counts)
          in advance_min_seq (unat class) (c\<lparr> ca_gen_counts := counts \<rparr>)
      | _ \<Rightarrow> None)"

definition span :: "page_cache \<Rightarrow> u64" where
  "span c = ca_max_seq c - min_list (ca_min_seq c) + 1"

text \<open>One harvested page: promoted to the youngest generation when it is resident.\<close>

definition age_page :: "page_id \<Rightarrow> page_cache \<Rightarrow> page_cache option" where
  "age_page page c =
     (case map_of (ca_entries c) page of
        None \<Rightarrow> Some c
      | Some e \<Rightarrow> do {
          c \<leftarrow> count_remove (en_class e) (en_generation e) (unlink page e c);
          let c = c\<lparr> ca_clock := ca_clock c + 1 \<rparr>;
          let e = e\<lparr> en_generation := ca_max_seq c, en_touched := ca_clock c \<rparr>;
          let c = link page e (count_add (en_class e) (ca_max_seq c) c);
          Some (c\<lparr> ca_entries := bm_insert (<) page e (ca_entries c) \<rparr>) })"

fun age_pages :: "page_id list \<Rightarrow> page_cache \<Rightarrow> page_cache option" where
  "age_pages [] c = Some c"
| "age_pages (p # ps) c = do { c \<leftarrow> age_page p c; age_pages ps c }"

definition age :: "page_id list \<Rightarrow> page_cache \<Rightarrow> page_cache option" where
  "age harvest c =
     (if ca_entries c = [] then Some c
      else do {
        c \<leftarrow> advance_min_seq 0 c;
        c \<leftarrow> advance_min_seq 1 c;
        let c = (if span c < MAX_NR_GENS then c\<lparr> ca_max_seq := ca_max_seq c + 1 \<rparr> else c);
        age_pages harvest c })"

definition reserve_slot :: "page_cache \<Rightarrow> (page_cache \<times> page_id option option) option" where
  "reserve_slot c =
     (if length (ca_entries c) + length (ca_base_resident c) + ca_reserved c < ca_capacity c
      then Some (c\<lparr> ca_reserved := ca_reserved c + 1 \<rparr>, Some None)
      else case ca_victims c of
        [] \<Rightarrow> Some (c, None)
      | (_, _, _, victim) # _ \<Rightarrow> do {
          e \<leftarrow> map_of (ca_entries c) victim;
          let c = unlink victim e (c\<lparr> ca_entries := bm_remove victim (ca_entries c) \<rparr>);
          c \<leftarrow> count_remove (en_class e) (en_generation e) c;
          Some (c\<lparr> ca_reserved := ca_reserved c + 1 \<rparr>, Some (Some victim)) })"

definition fill_slot_in :: "page_id \<Rightarrow> bool \<Rightarrow> u64 \<Rightarrow> bool \<Rightarrow> page_cache \<Rightarrow> page_cache option" where
  "fill_slot_in page dirty generation memory c =
     (if ca_reserved c = 0 then None
      else
        let c = c\<lparr> ca_reserved := ca_reserved c - 1, ca_clock := ca_clock c + 1 \<rparr>;
            e = \<lparr> en_class = (if memory then 1 else 0), en_dirty = dirty, en_flushing = 0, en_generation = generation,
                  en_touched = ca_clock c \<rparr>;
            c = (if dirty then c\<lparr> ca_dirty := bs_insert (<) page (ca_dirty c), ca_unstable := bs_insert (<) page (ca_unstable c) \<rparr>
                 else c);
            c = link page e (count_add (en_class e) generation c)
        in if map_of (ca_entries c) page = None
           then Some (c\<lparr> ca_entries := bm_insert (<) page e (ca_entries c) \<rparr>) else None)"

definition fill_slot :: "page_id \<Rightarrow> bool \<Rightarrow> bool \<Rightarrow> page_cache \<Rightarrow> page_cache option" where
  "fill_slot page dirty memory c = fill_slot_in page dirty (ca_max_seq c) memory c"

definition release_slot :: "page_cache \<Rightarrow> page_cache option" where
  "release_slot c = (if ca_reserved c > 0 then Some (c\<lparr> ca_reserved := ca_reserved c - 1 \<rparr>) else None)"

definition mark_dirty :: "page_id \<Rightarrow> page_cache \<Rightarrow> page_cache option" where
  "mark_dirty page c = do {
     let c = c\<lparr> ca_clock := ca_clock c + 1 \<rparr>;
     let clock = ca_clock c;
     e \<leftarrow> map_of (ca_entries c) page;
     c \<leftarrow> count_remove (en_class e) (en_generation e) (unlink page e c);
     let c = count_add (en_class e) (ca_max_seq c) c;
     let e = e\<lparr> en_dirty := True, en_generation := ca_max_seq c, en_touched := clock \<rparr>;
     Some (c\<lparr> ca_entries := bm_insert (<) page e (ca_entries c), ca_dirty := bs_insert (<) page (ca_dirty c),
              ca_unstable := bs_insert (<) page (ca_unstable c) \<rparr>) }"

definition begin_flush :: "page_id \<Rightarrow> page_cache \<Rightarrow> page_cache option" where
  "begin_flush page c = do {
     e \<leftarrow> map_of (ca_entries c) page;
     let e = e\<lparr> en_dirty := False, en_flushing := en_flushing e + 1 \<rparr>;
     Some (c\<lparr> ca_entries := bm_insert (<) page e (ca_entries c), ca_dirty := bs_remove page (ca_dirty c) \<rparr>) }"

definition end_flush :: "page_id \<Rightarrow> page_cache \<Rightarrow> page_cache option" where
  "end_flush page c = do {
     e \<leftarrow> map_of (ca_entries c) page;
     if en_flushing e > 0 then do {
       let e = e\<lparr> en_flushing := en_flushing e - 1 \<rparr>;
       let c = c\<lparr> ca_entries := bm_insert (<) page e (ca_entries c) \<rparr>;
       let c = (if evictable e then c\<lparr> ca_unstable := bs_remove page (ca_unstable c) \<rparr> else c);
       Some (link page e c) }
     else None }"

definition unstable_pages_of :: "page_cache \<Rightarrow> volume_id \<Rightarrow> page_id list" where
  "unstable_pages_of c volume = filter (\<lambda>p. in_range p (volume_range volume)) (ca_unstable c)"

definition dirty_pages_of :: "page_cache \<Rightarrow> volume_id \<Rightarrow> page_id list" where
  "dirty_pages_of c volume = filter (\<lambda>p. in_range p (volume_range volume)) (ca_dirty c)"

definition has_dirty_of :: "page_cache \<Rightarrow> volume_id \<Rightarrow> bool" where
  "has_dirty_of c volume \<longleftrightarrow> dirty_pages_of c volume \<noteq> []"

fun purge_pages :: "page_id list \<Rightarrow> page_cache \<Rightarrow> page_cache option" where
  "purge_pages [] c = Some c"
| "purge_pages (p # ps) c = do {
     e \<leftarrow> map_of (ca_entries c) p;
     let c = unlink p e (c\<lparr> ca_entries := bm_remove p (ca_entries c) \<rparr>);
     c \<leftarrow> count_remove (en_class e) (en_generation e) c;
     purge_pages ps (c\<lparr> ca_dirty := bs_remove p (ca_dirty c), ca_unstable := bs_remove p (ca_unstable c) \<rparr>) }"

definition purge_volume :: "volume_id \<Rightarrow> page_cache \<Rightarrow> (page_cache \<times> page_id list) option" where
  "purge_volume volume c =
     (let pages = filter (\<lambda>p. in_range p (volume_range volume)) (map fst (ca_entries c))
      in map_option (\<lambda>c. (c, pages)) (purge_pages pages c))"

section \<open>The loop over empty generations\<close>

definition oldest_from :: "page_cache \<Rightarrow> nat \<Rightarrow> u64 \<Rightarrow> bool" where
  "oldest_from c ty m \<longleftrightarrow>
     ca_min_seq c ! ty \<le> m \<and> (ca_min_seq c ! ty \<le> ca_max_seq c \<longrightarrow> m \<le> ca_max_seq c) \<and>
     (\<forall>g. ca_min_seq c ! ty \<le> g \<and> g < m \<longrightarrow> map_of (ca_gen_counts c) (of_nat ty, g) = None) \<and>
     (m < ca_max_seq c \<longrightarrow> map_of (ca_gen_counts c) (of_nat ty, m) \<noteq> None)"

lemma word_step:
  fixes a b :: "'a::len word"
  assumes "a < b"
  shows "unat (a + 1) = Suc (unat a)" "a + 1 \<le> b" "\<And>g. a \<le> g \<longleftrightarrow> g = a \<or> a + 1 \<le> g"
proof -
  have "Suc (unat a) < 2 ^ LENGTH('a)"
    using assms unsigned_less [of b, where ?'a = nat] unfolding word_less_nat_alt by linarith
  then show s: "unat (a + 1) = Suc (unat a)" by (simp add: unat_word_ariths)
  show "a + 1 \<le> b" using s assms by (simp add: word_le_nat_alt word_less_nat_alt)
  show "a \<le> g \<longleftrightarrow> g = a \<or> a + 1 \<le> g" for g
    using s by (auto simp: word_le_nat_alt le_less Suc_le_eq word_unat_eq_iff)
qed

lemma advance_loop_ends:
  assumes "ty < length (ca_min_seq c)"
  shows "\<exists>m. advance_loop ty c = Some (c\<lparr> ca_min_seq := (ca_min_seq c)[ty := m] \<rparr>) \<and> oldest_from c ty m"
  using assms
proof (induction "unat (ca_max_seq c) - unat (ca_min_seq c ! ty)" arbitrary: c rule: less_induct)
  case less
  show ?case
  proof (cases "ca_min_seq c ! ty < ca_max_seq c \<and> map_of (ca_gen_counts c) (of_nat ty, ca_min_seq c ! ty) = None")
    case False
    then show ?thesis
      using less.prems by (intro exI [of _ "ca_min_seq c ! ty"]) (auto simp: advance_loop.simps [of ty c] oldest_from_def)
  next
    case True
    define d where "d = c\<lparr> ca_min_seq := (ca_min_seq c)[ty := ca_min_seq c ! ty + 1] \<rparr>"
    have step: "advance_loop ty c = advance_loop ty d"
      using True less.prems by (simp add: advance_loop.simps [of ty c] d_def)
    have ty: "ty < length (ca_min_seq d)" "ca_min_seq d ! ty = ca_min_seq c ! ty + 1" "ca_max_seq d = ca_max_seq c"
      using less.prems by (simp_all add: d_def)
    note succ = word_step [OF conjunct1 [OF True]]
    have "unat (ca_max_seq d) - unat (ca_min_seq d ! ty) < unat (ca_max_seq c) - unat (ca_min_seq c ! ty)"
      using succ(1) conjunct1 [OF True] unfolding ty word_less_nat_alt by linarith
    from less.hyps [OF this ty(1)] obtain m where
      m: "advance_loop ty d = Some (d\<lparr> ca_min_seq := (ca_min_seq d)[ty := m] \<rparr>)" "oldest_from d ty m" by blast
    have "oldest_from c ty m"
      using m(2) True succ(2) unfolding oldest_from_def ty succ(3) by (auto simp: d_def word_le_nat_alt succ(1))
    then show ?thesis using m(1) by (auto simp: step d_def)
  qed
qed

section \<open>Generation counts\<close>

definition gen_of :: "page_entry \<Rightarrow> u8 \<times> u64" where
  "gen_of e = (en_class e, en_generation e)"

definition gens :: "(page_id, page_entry) btree_map \<Rightarrow> (u8 \<times> u64) multiset" where
  "gens m = image_mset (\<lambda>(p, e). gen_of e) (mset m)"

definition counts_ok :: "(u8 \<times> u64) multiset \<Rightarrow> page_cache \<Rightarrow> bool" where
  "counts_ok M c \<longleftrightarrow> bm_ordered (<) (ca_gen_counts c) \<and>
     (\<forall>k. map_of (ca_gen_counts c) k = (if k \<in># M then Some (count M k) else None))"

definition window_ok :: "(u8 \<times> u64) multiset \<Rightarrow> page_cache \<Rightarrow> bool" where
  "window_ok M c \<longleftrightarrow> length (ca_min_seq c) = 2 \<and>
     (\<forall>i<2. ca_min_seq c ! i \<le> ca_max_seq c \<and> unat (ca_max_seq c) < unat (ca_min_seq c ! i) + 4) \<and>
     (\<forall>k \<in># M. unat (fst k) < 2 \<and> ca_min_seq c ! unat (fst k) \<le> snd k \<and> snd k \<le> ca_max_seq c)"

lemma window_okD:
  assumes "window_ok M c"
  shows "length (ca_min_seq c) = 2" "\<And>i. i < 2 \<Longrightarrow> ca_min_seq c ! i \<le> ca_max_seq c"
    "\<And>i. i < 2 \<Longrightarrow> unat (ca_max_seq c) < unat (ca_min_seq c ! i) + 4"
    "\<And>k. k \<in># M \<Longrightarrow> unat (fst k) < 2" "\<And>k. k \<in># M \<Longrightarrow> ca_min_seq c ! unat (fst k) \<le> snd k"
    "\<And>k. k \<in># M \<Longrightarrow> snd k \<le> ca_max_seq c"
  using assms unfolding window_ok_def by blast+

lemma window_mono: "window_ok M c \<Longrightarrow> N \<subseteq># M \<Longrightarrow> window_ok N c"
  unfolding window_ok_def by (meson mset_subset_eqD)

lemma window_add:
  "window_ok M c \<Longrightarrow> unat cl < 2 \<Longrightarrow> window_ok (add_mset (cl, ca_max_seq c) M) c"
  by (simp add: window_ok_def)

lemma mset_insert_ordered:
  assumes "bm_ordered (<) (m :: ('k::linorder, 'v) btree_map)"
  shows "mset (bm_insert (<) k v m) = add_mset (k, v) (mset (bm_remove k m))"
  using assms
proof (induction m)
  case (Cons a m)
  obtain x w where a: "a = (x, w)" by fastforce
  from Cons.prems have less: "\<forall>y \<in> fst ` set m. x < y" and ord: "bm_ordered (<) m"
    by (auto simp: bm_ordered_def a)
  then have "bm_remove k m = m" if "k \<le> x" using that by (force simp: bm_remove_def filter_id_conv)
  then show ?case using Cons.IH [OF ord] by (cases "x < k") (auto simp: a bm_remove_def simp flip: mset_filter)
qed (simp add: bm_remove_def)

lemma mset_remove_ordered:
  assumes "bm_ordered (<) (m :: ('k::linorder, 'v) btree_map)" "map_of m k = Some v"
  shows "mset m = add_mset (k, v) (mset (bm_remove k m))"
proof -
  have "bm_insert (<) k v m = m"
    by (rule linear.ordered_ext) (use assms in \<open>auto simp: linear.ordered_insert linear.map_of_insert\<close>)
  with mset_insert_ordered [OF assms(1), of k v] show ?thesis by simp
qed

lemma gens_insert:
  "bm_ordered (<) m \<Longrightarrow> gens (bm_insert (<) p e m) = add_mset (gen_of e) (gens (bm_remove p m))"
  by (simp add: gens_def mset_insert_ordered)

lemma gens_remove:
  "bm_ordered (<) m \<Longrightarrow> map_of m p = Some e \<Longrightarrow> gens m = add_mset (gen_of e) (gens (bm_remove p m))"
  by (simp add: gens_def mset_remove_ordered [of m p e])

lemma counts_add:
  assumes "counts_ok M c"
  shows "counts_ok (add_mset (cl, g) M) (count_add cl g c)"
proof -
  have ord: "bm_ordered (<) (ca_gen_counts c)"
    and m: "\<And>k. map_of (ca_gen_counts c) k = (if k \<in># M then Some (count M k) else None)"
    using assms unfolding counts_ok_def by blast+
  have "map_of (ca_gen_counts (count_add cl g c)) k =
    (if k \<in># add_mset (cl, g) M then Some (count (add_mset (cl, g) M) k) else None)" for k
    by (cases "k = (cl, g)") (simp_all add: count_add_def linear.map_of_insert m not_in_iff)
  with ord show ?thesis unfolding counts_ok_def by (simp add: count_add_def linear.ordered_insert)
qed

lemma counts_remove:
  assumes "counts_ok (add_mset (cl, g) M) c"
  shows "\<exists>n. map_of (ca_gen_counts c) (cl, g) = Some (Suc n) \<and>
    counts_ok M (c\<lparr> ca_gen_counts :=
      (let counts = bm_insert (<) (cl, g) n (ca_gen_counts c)
       in if n = 0 then bm_remove (cl, g) counts else counts) \<rparr>)"
proof -
  have ord: "bm_ordered (<) (ca_gen_counts c)"
    and m: "\<And>k. map_of (ca_gen_counts c) k = (if k \<in># add_mset (cl, g) M then Some (count (add_mset (cl, g) M) k) else None)"
    using assms unfolding counts_ok_def by blast+
  define counts where "counts = (let counts = bm_insert (<) (cl, g) (count M (cl, g)) (ca_gen_counts c)
       in if count M (cl, g) = 0 then bm_remove (cl, g) counts else counts)"
  have "map_of counts k = (if k \<in># M then Some (count M k) else None)" for k
    by (cases "k = (cl, g)") (simp_all add: counts_def Let_def linear.map_of_insert linear.map_of_remove m not_in_iff)
  moreover have "bm_ordered (<) counts"
    using ord by (simp add: counts_def Let_def linear.ordered_insert linear.ordered_remove)
  ultimately have "counts_ok M (c\<lparr> ca_gen_counts := counts \<rparr>)" unfolding counts_ok_def by simp
  then show ?thesis using m [of "(cl, g)"] by (intro exI [of _ "count M (cl, g)"]) (simp add: counts_def)
qed

definition gens_ok :: "(u8 \<times> u64) multiset \<Rightarrow> page_cache \<Rightarrow> bool" where
  "gens_ok M c \<longleftrightarrow> counts_ok M c \<and> window_ok M c"

lemma gens_ok_fields [simp]:
  "gens_ok M (c\<lparr> ca_reserved := r \<rparr>) = gens_ok M c" "gens_ok M (c\<lparr> ca_entries := es \<rparr>) = gens_ok M c"
  "gens_ok M (c\<lparr> ca_dirty := d \<rparr>) = gens_ok M c" "gens_ok M (c\<lparr> ca_unstable := d \<rparr>) = gens_ok M c"
  "gens_ok M (c\<lparr> ca_victims := v \<rparr>) = gens_ok M c" "gens_ok M (c\<lparr> ca_base_resident := b \<rparr>) = gens_ok M c"
  "gens_ok M (c\<lparr> ca_clock := t \<rparr>) = gens_ok M c" "gens_ok M (unlink p e c) = gens_ok M c"
  "gens_ok M (link p e c) = gens_ok M c"
  by (simp_all add: gens_ok_def counts_ok_def window_ok_def unlink_def link_def)

lemma gens_ok_count_add:
  assumes "gens_ok M c" "unat cl < 2"
  shows "gens_ok (add_mset (cl, ca_max_seq c) M) (count_add cl (ca_max_seq c) c)"
proof -
  have "window_ok (add_mset (cl, ca_max_seq c) M) (count_add cl (ca_max_seq c) c)"
    using window_add [of M c cl] assms by (simp add: gens_ok_def window_ok_def count_add_def Let_def)
  with counts_add [of M c cl "ca_max_seq c"] assms show ?thesis by (simp add: gens_ok_def)
qed

lemma advance_ok:
  assumes "gens_ok M c" "ty < 2"
  shows "\<exists>ms. advance_min_seq ty c = Some (c\<lparr> ca_min_seq := ms \<rparr>) \<and> gens_ok M (c\<lparr> ca_min_seq := ms \<rparr>)"
proof -
  have counts: "counts_ok M c" and win: "window_ok M c" using assms(1) by (simp_all add: gens_ok_def)
  note w = window_okD [OF win]
  from advance_loop_ends [of ty c] w(1) assms(2) obtain m where
    m: "advance_loop ty c = Some (c\<lparr> ca_min_seq := (ca_min_seq c)[ty := m] \<rparr>)" "oldest_from c ty m" by auto
  have le: "ca_min_seq c ! ty \<le> m" "m \<le> ca_max_seq c"
    and skip: "\<And>g. ca_min_seq c ! ty \<le> g \<Longrightarrow> g < m \<Longrightarrow> (of_nat ty, g) \<notin># M"
    using m(2) w(2) [OF assms(2)] counts unfolding oldest_from_def counts_ok_def by (auto split: if_splits)
  have "window_ok M (c\<lparr> ca_min_seq := (ca_min_seq c)[ty := m] \<rparr>)"
    unfolding window_ok_def
  proof (intro conjI allI impI ballI)
    fix i :: nat
    assume "i < 2"
    then show "ca_min_seq (c\<lparr>ca_min_seq := (ca_min_seq c)[ty := m]\<rparr>) ! i \<le> ca_max_seq (c\<lparr>ca_min_seq := (ca_min_seq c)[ty := m]\<rparr>)"
      using w(1,2) le(2) by (cases "i = ty") simp_all
    show "unat (ca_max_seq (c\<lparr>ca_min_seq := (ca_min_seq c)[ty := m]\<rparr>)) < unat (ca_min_seq (c\<lparr>ca_min_seq := (ca_min_seq c)[ty := m]\<rparr>) ! i) + 4"
      using w(1) w(3) [OF \<open>i < 2\<close>] le(1) assms(2) by (cases "i = ty") (simp_all add: word_le_nat_alt)
  next
    fix k
    assume k: "k \<in># M"
    obtain cl g where k': "k = (cl, g)" by fastforce
    have "m \<le> g" if "unat cl = ty"
    proof (rule ccontr)
      assume "\<not> m \<le> g"
      moreover have "ca_min_seq c ! ty \<le> g" using w(5) [OF k] that by (simp add: k')
      moreover have "of_nat ty = cl" using that by auto
      ultimately show False using skip [of g] k by (simp add: k')
    qed
    then show "unat (fst k) < 2" "ca_min_seq (c\<lparr>ca_min_seq := (ca_min_seq c)[ty := m]\<rparr>) ! unat (fst k) \<le> snd k"
      "snd k \<le> ca_max_seq (c\<lparr>ca_min_seq := (ca_min_seq c)[ty := m]\<rparr>)"
      using w(4-6) [OF k] w(1) assms(2) by (cases "unat cl = ty"; simp add: k')+
  qed (use w(1) in simp)
  moreover have "counts_ok M (c\<lparr> ca_min_seq := (ca_min_seq c)[ty := m] \<rparr>)" using counts by (simp add: counts_ok_def)
  ultimately show ?thesis using m(1) assms(2) by (auto simp: advance_min_seq_def gens_ok_def)
qed

lemma count_remove_ok:
  assumes "gens_ok (add_mset (cl, g) M) c"
  obtains counts ms where
    "count_remove cl g c = Some (c\<lparr> ca_gen_counts := counts, ca_min_seq := ms \<rparr>)"
    "gens_ok M (c\<lparr> ca_gen_counts := counts, ca_min_seq := ms \<rparr>)"
proof -
  have win: "window_ok (add_mset (cl, g) M) c" using assms by (simp add: gens_ok_def)
  from counts_remove [of cl g M c] assms obtain n counts where
    n: "map_of (ca_gen_counts c) (cl, g) = Some (Suc n)" "counts_ok M (c\<lparr> ca_gen_counts := counts \<rparr>)"
    "counts = (let counts = bm_insert (<) (cl, g) n (ca_gen_counts c) in if n = 0 then bm_remove (cl, g) counts else counts)"
    unfolding gens_ok_def by blast
  have "window_ok M (c\<lparr> ca_gen_counts := counts \<rparr>)"
    using window_mono [OF win, of M] by (simp add: window_ok_def)
  with n(2) have "gens_ok M (c\<lparr> ca_gen_counts := counts \<rparr>)" by (simp add: gens_ok_def)
  moreover have "unat cl < 2" using window_okD(4) [OF win, of "(cl, g)"] by simp
  ultimately obtain ms where "advance_min_seq (unat cl) (c\<lparr> ca_gen_counts := counts \<rparr>) = Some (c\<lparr> ca_gen_counts := counts, ca_min_seq := ms \<rparr>)"
    "gens_ok M (c\<lparr> ca_gen_counts := counts, ca_min_seq := ms \<rparr>)"
    using advance_ok by fastforce
  then show ?thesis using n by (intro that [of ms counts]) (simp_all add: count_remove_def Let_def)
qed

section \<open>The invariant\<close>

definition dirty_of :: "(page_id \<rightharpoonup> page_entry) \<Rightarrow> page_id set" where
  "dirty_of f = {p. \<exists>e. f p = Some e \<and> en_dirty e}"

definition unstable_of :: "(page_id \<rightharpoonup> page_entry) \<Rightarrow> page_id set" where
  "unstable_of f = {p. \<exists>e. f p = Some e \<and> \<not> evictable e}"

definition page_of :: "u8 \<times> u64 \<times> u64 \<times> page_id \<Rightarrow> page_id" where
  "page_of v = snd (snd (snd v))"

definition victims_of :: "(page_id \<rightharpoonup> page_entry) \<Rightarrow> (u8 \<times> u64 \<times> u64 \<times> page_id) set" where
  "victims_of f = {v. \<exists>e. f (page_of v) = Some e \<and> evictable e \<and> v = victim_of (page_of v) e}"

lemma page_of_victim [simp]: "page_of (victim_of p e) = p"
  by (simp add: page_of_def victim_of_def)

definition index_ok :: "(page_id \<rightharpoonup> page_entry) \<Rightarrow> page_cache \<Rightarrow> bool" where
  "index_ok f c \<longleftrightarrow>
     sorted_wrt (<) (ca_dirty c) \<and> set (ca_dirty c) = dirty_of f \<and>
     sorted_wrt (<) (ca_unstable c) \<and> set (ca_unstable c) = unstable_of f \<and>
     sorted_wrt (<) (ca_victims c) \<and> set (ca_victims c) = victims_of f \<and>
     sorted_wrt (<) (ca_base_resident c)"

definition cache_inv :: "page_cache \<Rightarrow> bool" where
  "cache_inv c \<longleftrightarrow>
     bm_ordered (<) (ca_entries c) \<and> index_ok (map_of (ca_entries c)) c \<and> gens_ok (gens (ca_entries c)) c \<and>
     length (ca_entries c) + length (ca_base_resident c) + ca_reserved c \<le> ca_capacity c"

lemma cache_invD:
  assumes "cache_inv c"
  shows "bm_ordered (<) (ca_entries c)" "index_ok (map_of (ca_entries c)) c" "gens_ok (gens (ca_entries c)) c"
    "length (ca_entries c) + length (ca_base_resident c) + ca_reserved c \<le> ca_capacity c"
  using assms unfolding cache_inv_def by blast+

lemma index_okD:
  assumes "index_ok f c"
  shows "sorted_wrt (<) (ca_dirty c)" "set (ca_dirty c) = dirty_of f" "sorted_wrt (<) (ca_unstable c)"
    "set (ca_unstable c) = unstable_of f" "sorted_wrt (<) (ca_victims c)" "set (ca_victims c) = victims_of f"
    "sorted_wrt (<) (ca_base_resident c)"
  using assms unfolding index_ok_def by blast+

text \<open>What one changed or dropped entry does to the three sets the indices hold.\<close>

lemma dirty_of_upd [simp]:
  "dirty_of (f(p \<mapsto> e)) = (if en_dirty e then insert p (dirty_of f) else dirty_of f - {p})"
  "dirty_of (f(p := None)) = dirty_of f - {p}"
  by (auto simp: dirty_of_def split: if_splits)

lemma unstable_of_upd [simp]:
  "unstable_of (f(p \<mapsto> e)) = (if evictable e then unstable_of f - {p} else insert p (unstable_of f))"
  "unstable_of (f(p := None)) = unstable_of f - {p}"
  by (auto simp: unstable_of_def split: if_splits)

lemma victim_of_eq [simp]:
  "victim_of p e = victim_of q d \<longleftrightarrow> p = q \<and> en_class e = en_class d \<and> en_generation e = en_generation d \<and> en_touched e = en_touched d"
  by (auto simp: victim_of_def)

lemma victims_of_remove:
  assumes "f p = Some e"
  shows "victims_of (f(p := None)) = victims_of f - {victim_of p e}"
proof (rule set_eqI)
  fix v
  show "v \<in> victims_of (f(p := None)) \<longleftrightarrow> v \<in> victims_of f - {victim_of p e}"
    using assms by (cases "page_of v = p") (auto simp: victims_of_def simp del: split_paired_Ex split_paired_All)
qed

lemma victims_of_fresh:
  assumes "f p = None"
  shows "victims_of (f(p \<mapsto> e)) = (if evictable e then insert (victim_of p e) (victims_of f) else victims_of f)"
proof (rule set_eqI)
  fix v
  show "v \<in> victims_of (f(p \<mapsto> e)) \<longleftrightarrow> v \<in> (if evictable e then insert (victim_of p e) (victims_of f) else victims_of f)"
    using assms by (cases "page_of v = p") (auto simp: victims_of_def simp del: split_paired_Ex split_paired_All)
qed

lemma victims_of_change:
  assumes "f p = Some d"
  shows "victims_of (f(p \<mapsto> e)) =
    (if evictable e then insert (victim_of p e) (victims_of f - {victim_of p d}) else victims_of f - {victim_of p d})"
  using victims_of_fresh [of "f(p := None)" p e] victims_of_remove [of f p d] assms by simp

lemma bs_remove_absent: "k \<notin> set s \<Longrightarrow> bs_remove k s = s"
  by (auto simp: bs_remove_def filter_id_conv)

lemma unstable_not_victim: "f p = Some e \<Longrightarrow> \<not> evictable e \<Longrightarrow> victim_of p e \<notin> victims_of f"
  by (auto simp: victims_of_def)

lemma bm_remove_absent: "map_of m k = None \<Longrightarrow> bm_remove k m = m"
  by (auto simp: bm_remove_def filter_id_conv map_of_eq_None_iff)

lemma length_insert_present:
  fixes k :: "'k::linorder"
  assumes "bm_ordered (<) m" "map_of m k = Some v"
  shows "length (bm_insert (<) k w m) = length m"
  using mset_insert_ordered [OF assms(1), of k w] mset_remove_ordered [OF assms]
  by (metis size_add_mset size_mset)

lemma length_remove_present:
  fixes k :: "'k::linorder"
  assumes "bm_ordered (<) m" "map_of m k = Some v"
  shows "length m = Suc (length (bm_remove k m))"
  using mset_remove_ordered [OF assms] by (metis size_add_mset size_mset)

text \<open>The step shared by promotion and the write fault: a resident page moves to the youngest generation.\<close>

lemma promote_gens:
  assumes "bm_ordered (<) m" "map_of m p = Some d" "gens_ok (gens m) c" "en_class e = en_class d" "en_generation e = ca_max_seq c"
  obtains counts ms where
    "count_remove (en_class d) (en_generation d) c = Some (c\<lparr> ca_gen_counts := counts, ca_min_seq := ms \<rparr>)"
    "gens_ok (gens (bm_insert (<) p e m)) (count_add (en_class d) (ca_max_seq c) (c\<lparr> ca_gen_counts := counts, ca_min_seq := ms \<rparr>))"
proof -
  have g: "gens m = add_mset (en_class d, en_generation d) (gens (bm_remove p m))"
    using gens_remove [OF assms(1,2)] by (simp add: gen_of_def)
  with assms(3) have ok: "gens_ok (add_mset (en_class d, en_generation d) (gens (bm_remove p m))) c" by simp
  then have two: "unat (en_class d) < 2" by (simp add: gens_ok_def window_ok_def)
  from count_remove_ok [OF ok] obtain counts ms where
    cr: "count_remove (en_class d) (en_generation d) c = Some (c\<lparr> ca_gen_counts := counts, ca_min_seq := ms \<rparr>)"
      "gens_ok (gens (bm_remove p m)) (c\<lparr> ca_gen_counts := counts, ca_min_seq := ms \<rparr>)" by blast
  from gens_ok_count_add [OF cr(2) two] have
    "gens_ok (gens (bm_insert (<) p e m)) (count_add (en_class d) (ca_max_seq c) (c\<lparr> ca_gen_counts := counts, ca_min_seq := ms \<rparr>))"
    by (simp add: gens_insert [OF assms(1)] gen_of_def assms(4,5))
  with cr(1) that show ?thesis by blast
qed

section \<open>Every operation keeps the invariant\<close>

lemma count_add_fields [simp]:
  "ca_capacity (count_add cl g c) = ca_capacity c" "ca_reserved (count_add cl g c) = ca_reserved c"
  "ca_entries (count_add cl g c) = ca_entries c" "ca_dirty (count_add cl g c) = ca_dirty c"
  "ca_unstable (count_add cl g c) = ca_unstable c" "ca_victims (count_add cl g c) = ca_victims c"
  "ca_max_seq (count_add cl g c) = ca_max_seq c" "ca_base_resident (count_add cl g c) = ca_base_resident c"
  "count_add cl g (c\<lparr> ca_clock := t \<rparr>) = (count_add cl g c)\<lparr> ca_clock := t \<rparr>"
  by (simp_all add: count_add_def Let_def)

lemma unlink_fields [simp]:
  "ca_capacity (unlink p e c) = ca_capacity c" "ca_reserved (unlink p e c) = ca_reserved c"
  "ca_entries (unlink p e c) = ca_entries c" "ca_dirty (unlink p e c) = ca_dirty c"
  "ca_unstable (unlink p e c) = ca_unstable c" "ca_victims (unlink p e c) = bs_remove (victim_of p e) (ca_victims c)"
  "ca_max_seq (unlink p e c) = ca_max_seq c" "ca_base_resident (unlink p e c) = ca_base_resident c"
  "ca_clock (unlink p e c) = ca_clock c" "unlink p e (c\<lparr> ca_clock := t \<rparr>) = (unlink p e c)\<lparr> ca_clock := t \<rparr>"
  by (simp_all add: unlink_def)

lemma link_fields [simp]:
  "ca_capacity (link p e c) = ca_capacity c" "ca_reserved (link p e c) = ca_reserved c"
  "ca_entries (link p e c) = ca_entries c" "ca_dirty (link p e c) = ca_dirty c"
  "ca_unstable (link p e c) = ca_unstable c"
  "ca_victims (link p e c) = (if evictable e then bs_insert (<) (victim_of p e) (ca_victims c) else ca_victims c)"
  "ca_max_seq (link p e c) = ca_max_seq c" "ca_base_resident (link p e c) = ca_base_resident c"
  by (simp_all add: link_def)

lemma dirty_of_same: "f p = Some d \<Longrightarrow> en_dirty e = en_dirty d \<Longrightarrow> dirty_of (f(p \<mapsto> e)) = dirty_of f"
  by (auto simp: dirty_of_def)

lemma unstable_of_same: "f p = Some d \<Longrightarrow> evictable e = evictable d \<Longrightarrow> unstable_of (f(p \<mapsto> e)) = unstable_of f"
  by (auto simp: unstable_of_def)

lemma gens_same:
  "bm_ordered (<) m \<Longrightarrow> map_of m p = Some d \<Longrightarrow> gen_of e = gen_of d \<Longrightarrow> gens (bm_insert (<) p e m) = gens m"
  by (simp add: gens_insert gens_remove [of m p d])

definition grows :: "page_cache \<Rightarrow> page_cache \<Rightarrow> bool" where
  "grows c c' \<longleftrightarrow> ca_capacity c' = ca_capacity c \<and> ca_max_seq c' = ca_max_seq c"

lemma age_page_inv:
  assumes "cache_inv c"
  shows "\<exists>c'. age_page p c = Some c' \<and> cache_inv c' \<and> grows c c'"
proof (cases "map_of (ca_entries c) p")
  case None
  then show ?thesis using assms by (simp add: age_page_def grows_def)
next
  case (Some d)
  note inv = cache_invD [OF assms] and ix = index_okD [OF cache_invD(2) [OF assms]]
  define e where "e = d\<lparr> en_generation := ca_max_seq c, en_touched := ca_clock c + 1 \<rparr>"
  have ok: "gens_ok (gens (ca_entries c)) (unlink p d c)" using inv(3) by simp
  obtain counts ms where
    cr: "count_remove (en_class d) (en_generation d) (unlink p d c) = Some ((unlink p d c)\<lparr> ca_gen_counts := counts, ca_min_seq := ms \<rparr>)"
    and g: "gens_ok (gens (bm_insert (<) p e (ca_entries c)))
      (count_add (en_class d) (ca_max_seq (unlink p d c)) ((unlink p d c)\<lparr> ca_gen_counts := counts, ca_min_seq := ms \<rparr>))"
    by (rule promote_gens [OF inv(1) Some ok, of e]) (simp_all add: e_def)
  define c' where "c' = (link p e (count_add (en_class d) (ca_max_seq c)
    ((unlink p d c)\<lparr> ca_gen_counts := counts, ca_min_seq := ms, ca_clock := ca_clock c + 1 \<rparr>)))
    \<lparr> ca_entries := bm_insert (<) p e (ca_entries c) \<rparr>"
  have "age_page p c = Some c'" using Some cr by (simp add: age_page_def c'_def e_def Let_def)
  moreover have "index_ok (map_of (ca_entries c')) c'"
    using ix Some by (simp add: index_ok_def c'_def linear.map_of_insert dirty_of_same [of _ p d] unstable_of_same [of _ p d]
        victims_of_change [of _ p d] e_def evictable_def linear.sorted_bs_insert linear.sorted_bs_remove linear.set_bs_insert
        del: dirty_of_upd unstable_of_upd)
  moreover have "gens_ok (gens (ca_entries c')) c'" using g by (simp add: c'_def)
  ultimately show ?thesis
    using inv(1,4) by (auto simp: cache_inv_def c'_def linear.ordered_insert length_insert_present [OF inv(1) Some] grows_def)
qed

lemma mark_dirty_inv:
  assumes "cache_inv c" "is_resident c p"
  shows "\<exists>c'. mark_dirty p c = Some c' \<and> cache_inv c' \<and> grows c c'"
proof -
  from assms(2) obtain d where d: "map_of (ca_entries c) p = Some d" by (auto simp: is_resident_def)
  note inv = cache_invD [OF assms(1)] and ix = index_okD [OF cache_invD(2) [OF assms(1)]]
  define e where "e = d\<lparr> en_dirty := True, en_generation := ca_max_seq c, en_touched := ca_clock c + 1 \<rparr>"
  define b where "b = (unlink p d c)\<lparr> ca_clock := ca_clock c + 1 \<rparr>"
  have ok: "gens_ok (gens (ca_entries c)) b" using inv(3) by (simp add: b_def)
  obtain counts ms where
    cr: "count_remove (en_class d) (en_generation d) b = Some (b\<lparr> ca_gen_counts := counts, ca_min_seq := ms \<rparr>)"
    and g: "gens_ok (gens (bm_insert (<) p e (ca_entries c)))
      (count_add (en_class d) (ca_max_seq b) (b\<lparr> ca_gen_counts := counts, ca_min_seq := ms \<rparr>))"
    by (rule promote_gens [OF inv(1) d ok, of e]) (simp_all add: e_def b_def)
  define c' where "c' = (count_add (en_class d) (ca_max_seq b) (b\<lparr> ca_gen_counts := counts, ca_min_seq := ms \<rparr>))
    \<lparr> ca_entries := bm_insert (<) p e (ca_entries c), ca_dirty := bs_insert (<) p (ca_dirty c),
      ca_unstable := bs_insert (<) p (ca_unstable c) \<rparr>"
  have b: "ca_capacity b = ca_capacity c" "ca_reserved b = ca_reserved c" "ca_entries b = ca_entries c" "ca_dirty b = ca_dirty c"
    "ca_unstable b = ca_unstable c" "ca_victims b = bs_remove (victim_of p d) (ca_victims c)" "ca_max_seq b = ca_max_seq c"
    "ca_base_resident b = ca_base_resident c" by (simp_all add: b_def)
  have "mark_dirty p c = Some c'"
    using d cr unfolding b_def by (simp add: mark_dirty_def Let_def c'_def b_def e_def)
  moreover have "index_ok (map_of (ca_entries c')) c'"
    using ix d by (simp add: index_ok_def c'_def b linear.map_of_insert victims_of_change [of _ p d] e_def evictable_def
        linear.sorted_bs_insert linear.sorted_bs_remove linear.set_bs_insert)
  moreover have "gens_ok (gens (ca_entries c')) c'" using g by (simp add: c'_def)
  ultimately show ?thesis
    using inv(1,4) by (auto simp: cache_inv_def c'_def b linear.ordered_insert length_insert_present [OF inv(1) d] grows_def)
qed

lemma begin_flush_inv:
  assumes "cache_inv c" "map_of (ca_entries c) p = Some d" "\<not> evictable d" "en_flushing d < - 1"
  shows "\<exists>c'. begin_flush p c = Some c' \<and> cache_inv c' \<and> grows c c'"
proof -
  note inv = cache_invD [OF assms(1)] and ix = index_okD [OF cache_invD(2) [OF assms(1)]]
  define e where "e = d\<lparr> en_dirty := False, en_flushing := en_flushing d + 1 \<rparr>"
  define c' where "c' = c\<lparr> ca_entries := bm_insert (<) p e (ca_entries c), ca_dirty := bs_remove p (ca_dirty c) \<rparr>"
  have "en_flushing d + 1 \<noteq> 0" using word_step(1) [OF assms(4)] by (metis nat.distinct(1) unsigned_0)
  then have e: "\<not> evictable e" "\<not> en_dirty e" by (simp_all add: e_def evictable_def)
  have "victim_of p d \<notin> victims_of (map_of (ca_entries c))" by (rule unstable_not_victim) (use assms in auto)
  then have "index_ok (map_of (ca_entries c')) c'"
    using ix e assms(2,3) by (simp add: index_ok_def c'_def linear.map_of_insert unstable_of_same [of _ p d]
        victims_of_change [of _ p d] linear.sorted_bs_remove del: unstable_of_upd)
  moreover have "begin_flush p c = Some c'" using assms(2) by (simp add: begin_flush_def c'_def e_def)
  moreover have "gens_ok (gens (ca_entries c')) c'"
    using inv(3) gens_same [OF inv(1) assms(2), of e] by (simp add: c'_def e_def gen_of_def)
  ultimately show ?thesis
    using inv(1,4) by (auto simp: cache_inv_def c'_def linear.ordered_insert length_insert_present [OF inv(1) assms(2)] grows_def)
qed

lemma end_flush_inv:
  assumes "cache_inv c" "map_of (ca_entries c) p = Some d" "en_flushing d > 0"
  shows "\<exists>c'. end_flush p c = Some c' \<and> cache_inv c' \<and> grows c c'"
proof -
  note inv = cache_invD [OF assms(1)] and ix = index_okD [OF cache_invD(2) [OF assms(1)]]
  define e where "e = d\<lparr> en_flushing := en_flushing d - 1 \<rparr>"
  define b where "b = c\<lparr> ca_entries := bm_insert (<) p e (ca_entries c) \<rparr>"
  define c' where "c' = link p e (if evictable e then b\<lparr> ca_unstable := bs_remove p (ca_unstable b) \<rparr> else b)"
  have d: "\<not> evictable d" using assms(3) by (auto simp: evictable_def)
  have novict: "victim_of p d \<notin> victims_of (map_of (ca_entries c))" by (rule unstable_not_victim) (use assms d in auto)
  have "set (ca_unstable c') = unstable_of ((map_of (ca_entries c))(p \<mapsto> e))"
    using ix(4) assms(2) d by (cases "evictable e") (auto simp: c'_def b_def unstable_of_def)
  moreover have "sorted_wrt (<) (ca_unstable c')" using ix(3) by (simp add: c'_def b_def linear.sorted_bs_remove)
  moreover have "dirty_of ((map_of (ca_entries c))(p \<mapsto> e)) = dirty_of (map_of (ca_entries c))"
    by (rule dirty_of_same) (use assms in \<open>simp_all add: e_def\<close>)
  ultimately have "index_ok (map_of (ca_entries c')) c'"
    using ix assms(2) novict by (cases "evictable e") (simp_all add: index_ok_def c'_def b_def linear.map_of_insert
        victims_of_change [of _ p d] linear.sorted_bs_insert linear.set_bs_insert del: dirty_of_upd unstable_of_upd)
  moreover have "end_flush p c = Some c'" using assms(2,3) by (simp add: end_flush_def c'_def b_def e_def Let_def)
  moreover have "gens_ok (gens (ca_entries c')) c'"
    using inv(3) gens_same [OF inv(1) assms(2), of e] by (simp add: c'_def b_def e_def gen_of_def)
  ultimately show ?thesis
    using inv(1,4) by (auto simp: cache_inv_def c'_def b_def linear.ordered_insert length_insert_present [OF inv(1) assms(2)] grows_def)
qed

lemma fill_slot_inv:
  assumes "cache_inv c" "ca_reserved c > 0" "\<not> is_resident c p"
  shows "\<exists>c'. fill_slot p dirty memory c = Some c' \<and> cache_inv c' \<and> grows c c'"
proof -
  note inv = cache_invD [OF assms(1)] and ix = index_okD [OF cache_invD(2) [OF assms(1)]]
  define e where "e = \<lparr> en_class = (if memory then 1 else 0), en_dirty = dirty, en_flushing = 0, en_generation = ca_max_seq c,
    en_touched = ca_clock c + 1 \<rparr>"
  define a where "a = c\<lparr> ca_reserved := ca_reserved c - 1, ca_clock := ca_clock c + 1 \<rparr>"
  define b where "b = (if dirty then a\<lparr> ca_dirty := bs_insert (<) p (ca_dirty a), ca_unstable := bs_insert (<) p (ca_unstable a) \<rparr> else a)"
  define c' where "c' = (link p e (count_add (en_class e) (ca_max_seq b) b))\<lparr> ca_entries := bm_insert (<) p e (ca_entries c) \<rparr>"
  have b: "ca_capacity b = ca_capacity c" "ca_reserved b = ca_reserved c - 1" "ca_entries b = ca_entries c"
    "ca_victims b = ca_victims c" "ca_max_seq b = ca_max_seq c" "ca_base_resident b = ca_base_resident c"
    "ca_dirty b = (if dirty then bs_insert (<) p (ca_dirty c) else ca_dirty c)"
    "ca_unstable b = (if dirty then bs_insert (<) p (ca_unstable c) else ca_unstable c)"
    "gens_ok (gens (ca_entries c)) b"
    using inv(3) by (simp_all add: b_def a_def)
  have new: "map_of (ca_entries c) p = None" using assms(3) by (simp add: is_resident_def)
  have absent: "p \<notin> dirty_of (map_of (ca_entries c))" "p \<notin> unstable_of (map_of (ca_entries c))"
    using new by (simp_all add: dirty_of_def unstable_of_def)
  have ev: "evictable e \<longleftrightarrow> \<not> dirty" "en_dirty e \<longleftrightarrow> dirty" by (simp_all add: e_def evictable_def)
  have "index_ok (map_of (ca_entries c')) c'"
    using ix absent new by (cases dirty) (simp_all add: index_ok_def c'_def b ev linear.map_of_insert
        victims_of_fresh linear.sorted_bs_insert linear.set_bs_insert)
  moreover have "fill_slot p dirty memory c = Some c'"
    using assms(2) new by (simp add: fill_slot_def fill_slot_in_def c'_def b_def a_def e_def Let_def)
  moreover have "gens_ok (gens (ca_entries c')) c'"
  proof -
    have "gens (bm_insert (<) p e (ca_entries c)) = add_mset (en_class e, ca_max_seq b) (gens (ca_entries c))"
      using new gens_insert [OF inv(1), of p e] by (simp add: gen_of_def e_def b bm_remove_absent)
    moreover have "unat (en_class e) < 2" by (simp add: e_def)
    ultimately show ?thesis using gens_ok_count_add [OF b(9), of "en_class e"] by (simp add: c'_def)
  qed
  ultimately show ?thesis
    using inv(1,4) assms(2) linear.insert_fresh_length [OF new, of e]
    by (auto simp: cache_inv_def c'_def b linear.ordered_insert grows_def)
qed

text \<open>Dropping a resident page, shared by eviction and by the purge of a volume.\<close>

lemma drop_entry:
  assumes "cache_inv c" "map_of (ca_entries c) p = Some d"
  obtains c' where
    "count_remove (en_class d) (en_generation d) (unlink p d (c\<lparr> ca_entries := bm_remove p (ca_entries c) \<rparr>)) = Some c'"
    "gens_ok (gens (ca_entries c')) c'" "bm_ordered (<) (ca_entries c')"
    "ca_entries c' = bm_remove p (ca_entries c)" "ca_dirty c' = ca_dirty c" "ca_unstable c' = ca_unstable c"
    "ca_victims c' = bs_remove (victim_of p d) (ca_victims c)" "ca_base_resident c' = ca_base_resident c"
    "ca_reserved c' = ca_reserved c" "grows c c'"
    "length (ca_entries c) = Suc (length (ca_entries c'))"
proof -
  note inv = cache_invD [OF assms(1)]
  have "gens_ok (add_mset (en_class d, en_generation d) (gens (bm_remove p (ca_entries c))))
      (unlink p d (c\<lparr> ca_entries := bm_remove p (ca_entries c) \<rparr>))"
    using inv(3) gens_remove [OF inv(1) assms(2)] by (simp add: gen_of_def)
  from count_remove_ok [OF this] obtain counts ms where
    cr: "count_remove (en_class d) (en_generation d) (unlink p d (c\<lparr> ca_entries := bm_remove p (ca_entries c) \<rparr>)) =
      Some ((unlink p d (c\<lparr> ca_entries := bm_remove p (ca_entries c) \<rparr>))\<lparr> ca_gen_counts := counts, ca_min_seq := ms \<rparr>)"
    "gens_ok (gens (bm_remove p (ca_entries c)))
      ((unlink p d (c\<lparr> ca_entries := bm_remove p (ca_entries c) \<rparr>))\<lparr> ca_gen_counts := counts, ca_min_seq := ms \<rparr>)"
    by blast
  show ?thesis
    by (rule that [OF cr(1)])
      (use cr(2) inv(1) length_remove_present [OF inv(1) assms(2)] in \<open>simp_all add: linear.ordered_remove grows_def\<close>)
qed

lemma sorted_victim_least:
  assumes "cache_inv c" "ca_victims c = v # vs"
  obtains e where "map_of (ca_entries c) (page_of v) = Some e" "evictable e" "v = victim_of (page_of v) e"
    "\<And>p d. map_of (ca_entries c) p = Some d \<Longrightarrow> evictable d \<Longrightarrow> v \<le> victim_of p d"
proof -
  note ix = index_okD [OF cache_invD(2) [OF assms(1)]]
  have "v \<in> victims_of (map_of (ca_entries c))" using ix(6) assms(2) by force
  then obtain e where e: "map_of (ca_entries c) (page_of v) = Some e" "evictable e" "v = victim_of (page_of v) e"
    unfolding victims_of_def by blast
  have "v \<le> victim_of p d" if "map_of (ca_entries c) p = Some d" "evictable d" for p d
  proof -
    have "victim_of p d \<in> set (ca_victims c)" using ix(6) that by (simp add: victims_of_def)
    then show ?thesis using ix(5) unfolding assms(2) by auto
  qed
  with e that show ?thesis by blast
qed

lemma reserve_slot_spec:
  assumes "cache_inv c"
  shows "\<exists>c' r. reserve_slot c = Some (c', r) \<and> cache_inv c' \<and> grows c c' \<and>
    (case r of
       Some None \<Rightarrow> length (ca_entries c) + length (ca_base_resident c) + ca_reserved c < ca_capacity c \<and>
         c' = c\<lparr> ca_reserved := ca_reserved c + 1 \<rparr>
     | None \<Rightarrow> length (ca_entries c) + length (ca_base_resident c) + ca_reserved c = ca_capacity c \<and> c' = c \<and>
         (\<forall>p d. map_of (ca_entries c) p = Some d \<longrightarrow> \<not> evictable d)
     | Some (Some v) \<Rightarrow> length (ca_entries c) + length (ca_base_resident c) + ca_reserved c = ca_capacity c \<and>
         (\<exists>e. map_of (ca_entries c) v = Some e \<and> evictable e \<and>
           (\<forall>p d. map_of (ca_entries c) p = Some d \<longrightarrow> evictable d \<longrightarrow> victim_of v e \<le> victim_of p d)) \<and>
         map_of (ca_entries c') = (map_of (ca_entries c))(v := None) \<and> ca_reserved c' = ca_reserved c + 1)"
proof (cases "length (ca_entries c) + length (ca_base_resident c) + ca_reserved c < ca_capacity c")
  case True
  then show ?thesis using assms by (simp add: reserve_slot_def cache_inv_def index_ok_def grows_def)
next
  case False
  note inv = cache_invD [OF assms] and ix = index_okD [OF cache_invD(2) [OF assms]]
  from False inv(4) have full: "length (ca_entries c) + length (ca_base_resident c) + ca_reserved c = ca_capacity c" by simp
  show ?thesis
  proof (cases "ca_victims c")
    case Nil
    have "\<not> evictable d" if "map_of (ca_entries c) p = Some d" for p d
    proof
      assume "evictable d"
      then have "victim_of p d \<in> victims_of (map_of (ca_entries c))" using that by (simp add: victims_of_def)
      then show False using ix(6) Nil by simp
    qed
    then show ?thesis using False Nil assms full by (auto simp: reserve_slot_def grows_def)
  next
    case (Cons v vs)
    from sorted_victim_least [OF assms Cons] obtain e where e:
      "map_of (ca_entries c) (page_of v) = Some e" "evictable e" "v = victim_of (page_of v) e"
      "\<And>p d. map_of (ca_entries c) p = Some d \<Longrightarrow> evictable d \<Longrightarrow> v \<le> victim_of p d" by blast
    from drop_entry [OF assms e(1)] obtain b where b:
      "count_remove (en_class e) (en_generation e) (unlink (page_of v) e (c\<lparr> ca_entries := bm_remove (page_of v) (ca_entries c) \<rparr>)) = Some b"
      "gens_ok (gens (ca_entries b)) b" "bm_ordered (<) (ca_entries b)"
      "ca_entries b = bm_remove (page_of v) (ca_entries c)" "ca_dirty b = ca_dirty c" "ca_unstable b = ca_unstable c"
      "ca_victims b = bs_remove (victim_of (page_of v) e) (ca_victims c)" "ca_base_resident b = ca_base_resident c"
      "ca_reserved b = ca_reserved c" "grows c b" "length (ca_entries c) = Suc (length (ca_entries b))" by blast
    have "page_of v \<notin> dirty_of (map_of (ca_entries c))" "page_of v \<notin> unstable_of (map_of (ca_entries c))"
      using e(1,2) by (auto simp: dirty_of_def unstable_of_def evictable_def)
    then have "index_ok (map_of (ca_entries b)) (b\<lparr> ca_reserved := ca_reserved c + 1 \<rparr>)"
      using ix e(1) by (simp add: index_ok_def b(4-8) linear.map_of_remove victims_of_remove linear.sorted_bs_remove)
    then have "cache_inv (b\<lparr> ca_reserved := ca_reserved c + 1 \<rparr>)"
      using b(2,3,8,10,11) full by (simp add: cache_inv_def grows_def)
    moreover have "reserve_slot c = Some (b\<lparr> ca_reserved := ca_reserved c + 1 \<rparr>, Some (Some (page_of v)))"
      using False Cons e(1) b(1,9) by (cases v) (simp add: reserve_slot_def page_of_def)
    moreover have "grows c (b\<lparr> ca_reserved := ca_reserved c + 1 \<rparr>)" using b(10) by (simp add: grows_def)
    moreover have "\<forall>p d. map_of (ca_entries c) p = Some d \<longrightarrow> evictable d \<longrightarrow> victim_of (page_of v) e \<le> victim_of p d"
      using e(3,4) by metis
    ultimately show ?thesis
      using e(1,2) full b(4) by (auto simp: linear.map_of_remove simp del: split_paired_All split_paired_Ex)
  qed
qed

lemma purge_pages_inv:
  assumes "cache_inv c" "distinct ps" "\<forall>p \<in> set ps. is_resident c p"
  shows "\<exists>c'. purge_pages ps c = Some c' \<and> cache_inv c' \<and> grows c c' \<and> map_of (ca_entries c') = map_of (ca_entries c) |` (- set ps)"
  using assms
proof (induction ps arbitrary: c)
  case Nil
  then show ?case by (simp add: grows_def)
next
  case (Cons p ps)
  note inv = cache_invD [OF Cons.prems(1)] and ix = index_okD [OF cache_invD(2) [OF Cons.prems(1)]]
  from Cons.prems(3) obtain e where e: "map_of (ca_entries c) p = Some e" by (auto simp: is_resident_def)
  from drop_entry [OF Cons.prems(1) e] obtain b where b:
    "count_remove (en_class e) (en_generation e) (unlink p e (c\<lparr> ca_entries := bm_remove p (ca_entries c) \<rparr>)) = Some b"
    "gens_ok (gens (ca_entries b)) b" "bm_ordered (<) (ca_entries b)"
    "ca_entries b = bm_remove p (ca_entries c)" "ca_dirty b = ca_dirty c" "ca_unstable b = ca_unstable c"
    "ca_victims b = bs_remove (victim_of p e) (ca_victims c)" "ca_base_resident b = ca_base_resident c"
    "ca_reserved b = ca_reserved c" "grows c b" "length (ca_entries c) = Suc (length (ca_entries b))" by blast
  define a where "a = b\<lparr> ca_dirty := bs_remove p (ca_dirty b), ca_unstable := bs_remove p (ca_unstable b) \<rparr>"
  have "index_ok (map_of (ca_entries a)) a"
    using ix e by (simp add: index_ok_def a_def b(4-8) linear.map_of_remove victims_of_remove linear.sorted_bs_remove)
  then have "cache_inv a" using b(2,3,8-11) inv(4) by (simp add: cache_inv_def a_def grows_def)
  moreover have "\<forall>q \<in> set ps. is_resident a q"
    using Cons.prems(2,3) by (auto simp: is_resident_def a_def b(4) linear.map_of_remove)
  ultimately obtain c' where c': "purge_pages ps a = Some c'" "cache_inv c'" "grows a c'" "map_of (ca_entries c') = map_of (ca_entries a) |` (- set ps)"
    using Cons.IH [of a] Cons.prems(2) by auto
  have "map_of (ca_entries c') = map_of (ca_entries c) |` (- set (p # ps))"
    unfolding c'(4) by (rule ext) (simp add: restrict_map_def a_def b(4) linear.map_of_remove)
  moreover have "grows c c'" using c'(3) b(10) by (simp add: grows_def a_def)
  ultimately show ?case using e b(1) c'(1,2) by (simp add: a_def)
qed

lemma in_volume_range [simp]: "in_range p (volume_range v) \<longleftrightarrow> fst p = v"
  by (cases p) (auto simp: in_range_def volume_range_def)

lemma purge_volume_spec:
  assumes "cache_inv c"
  shows "\<exists>c' ps. purge_volume v c = Some (c', ps) \<and> cache_inv c' \<and> grows c c' \<and>
    set ps = {p. fst p = v \<and> is_resident c p} \<and> map_of (ca_entries c') = map_of (ca_entries c) |` {p. fst p \<noteq> v}"
proof -
  define ps where "ps = filter (\<lambda>p. in_range p (volume_range v)) (map fst (ca_entries c))"
  have set: "set ps = {p. fst p = v \<and> is_resident c p}"
    by (force simp: ps_def is_resident_def map_of_eq_None_iff)
  have "distinct ps" using linear.distinct_keys [OF cache_invD(1) [OF assms]] by (simp add: ps_def)
  with purge_pages_inv [OF assms this] set obtain c' where c': "purge_pages ps c = Some c'" "cache_inv c'" "grows c c'"
    "map_of (ca_entries c') = map_of (ca_entries c) |` (- set ps)" by auto
  have "map_of (ca_entries c') = map_of (ca_entries c) |` {p. fst p \<noteq> v}"
    unfolding c'(4) set by (rule ext) (auto simp: restrict_map_def is_resident_def)
  moreover have "purge_volume v c = Some (c', ps)" using c'(1) by (simp add: purge_volume_def ps_def Let_def)
  ultimately show ?thesis using c'(2,3) set by blast
qed

lemma span_nat:
  assumes "window_ok M c"
  shows "i < 2 \<Longrightarrow> unat (ca_max_seq c) - unat (ca_min_seq c ! i) < unat (span c)" "1 \<le> unat (span c)" "unat (span c) \<le> 4"
proof -
  note w = window_okD [OF assms]
  from w(1) obtain a b where ab: "ca_min_seq c = [a, b]" by (auto simp: numeral_2_eq_2 length_Suc_conv)
  have le: "a \<le> ca_max_seq c" "b \<le> ca_max_seq c" using w(2) [of 0] w(2) [of 1] by (simp_all add: ab)
  have near: "unat (ca_max_seq c) < unat a + 4" "unat (ca_max_seq c) < unat b + 4" using w(3) [of 0] w(3) [of 1] by (simp_all add: ab)
  define m where "m = min a b"
  have m: "m \<le> ca_max_seq c" "unat (ca_max_seq c) < unat m + 4" "m \<le> a" "m \<le> b" using le near by (auto simp: m_def min_def)
  have d: "unat (ca_max_seq c - m) = unat (ca_max_seq c) - unat m" using m(1) by (simp add: unat_sub)
  then have "unat (ca_max_seq c - m) < 4" using m(2) by simp
  then have s: "unat (span c) = Suc (unat (ca_max_seq c) - unat m)"
    using d by (simp add: span_def ab m_def [symmetric] unat_word_ariths)
  show "unat (ca_max_seq c) - unat (ca_min_seq c ! i) < unat (span c)" if "i < 2"
  proof -
    have "m \<le> ca_min_seq c ! i" using that m(3,4) by (auto simp: ab less_2_cases_iff)
    then show ?thesis unfolding s word_le_nat_alt by linarith
  qed
  show "1 \<le> unat (span c)" "unat (span c) \<le> 4" using s m(2) by simp_all
qed

lemma open_generation:
  assumes "gens_ok M c" "span c < MAX_NR_GENS" "unat (ca_max_seq c) + 1 < 2 ^ 64"
  shows "gens_ok M (c\<lparr> ca_max_seq := ca_max_seq c + 1 \<rparr>)"
proof -
  have counts: "counts_ok M c" and win: "window_ok M c" using assms(1) by (simp_all add: gens_ok_def)
  note w = window_okD [OF win]
  have up: "unat (ca_max_seq c + 1) = Suc (unat (ca_max_seq c))" using assms(3) by (simp add: unat_word_ariths)
  have s: "unat (span c) < 4" using assms(2) by (simp add: MAX_NR_GENS_def word_less_nat_alt)
  have "window_ok M (c\<lparr> ca_max_seq := ca_max_seq c + 1 \<rparr>)"
    unfolding window_ok_def
  proof (intro conjI allI impI ballI)
    fix i :: nat
    assume i: "i < 2"
    show "ca_min_seq (c\<lparr>ca_max_seq := ca_max_seq c + 1\<rparr>) ! i \<le> ca_max_seq (c\<lparr>ca_max_seq := ca_max_seq c + 1\<rparr>)"
      using w(2) [OF i] by (simp add: word_le_nat_alt up)
    show "unat (ca_max_seq (c\<lparr>ca_max_seq := ca_max_seq c + 1\<rparr>)) < unat (ca_min_seq (c\<lparr>ca_max_seq := ca_max_seq c + 1\<rparr>) ! i) + 4"
      using span_nat(1) [OF win i] s by (simp add: up)
  next
    fix k
    assume k: "k \<in># M"
    show "unat (fst k) < 2" "ca_min_seq (c\<lparr>ca_max_seq := ca_max_seq c + 1\<rparr>) ! unat (fst k) \<le> snd k"
      "snd k \<le> ca_max_seq (c\<lparr>ca_max_seq := ca_max_seq c + 1\<rparr>)"
      using w(4-6) [OF k] by (simp_all add: word_le_nat_alt up)
  qed (use w(1) in simp)
  then show ?thesis using counts by (simp add: gens_ok_def counts_ok_def)
qed

lemma cache_inv_gens:
  "cache_inv c \<Longrightarrow> gens_ok (gens (ca_entries c)) (c\<lparr> ca_min_seq := ms \<rparr>) \<Longrightarrow> cache_inv (c\<lparr> ca_min_seq := ms \<rparr>)"
  "cache_inv c \<Longrightarrow> gens_ok (gens (ca_entries c)) (c\<lparr> ca_max_seq := x \<rparr>) \<Longrightarrow> cache_inv (c\<lparr> ca_max_seq := x \<rparr>)"
  by (simp_all add: cache_inv_def index_ok_def)

lemma age_pages_inv: "cache_inv c \<Longrightarrow> \<exists>c'. age_pages ps c = Some c' \<and> cache_inv c' \<and> grows c c'"
proof (induction ps arbitrary: c)
  case (Cons p ps)
  from age_page_inv [OF Cons.prems, of p] obtain b where b: "age_page p c = Some b" "cache_inv b" "grows c b" by blast
  from Cons.IH [OF b(2)] b(1,3) show ?case by (auto simp: grows_def)
qed (simp add: grows_def)

lemma advance_inv:
  assumes "cache_inv c" "ty < 2"
  shows "\<exists>c'. advance_min_seq ty c = Some c' \<and> cache_inv c' \<and> grows c c' \<and> ca_entries c' = ca_entries c"
  using advance_ok [OF cache_invD(3) [OF assms(1)] assms(2)] cache_inv_gens(1) [OF assms(1)] by (auto simp: grows_def)

lemma age_inv:
  assumes "cache_inv c" "unat (ca_max_seq c) + 1 < 2 ^ 64"
  shows "\<exists>c'. age ps c = Some c' \<and> cache_inv c' \<and> ca_capacity c' = ca_capacity c \<and>
    unat (ca_max_seq c') \<le> unat (ca_max_seq c) + 1"
proof (cases "ca_entries c = []")
  case True
  then show ?thesis using assms by (simp add: age_def)
next
  case False
  from advance_inv [OF assms(1), of 0] obtain a where a: "advance_min_seq 0 c = Some a" "cache_inv a" "grows c a" by auto
  from advance_inv [OF a(2), of 1] obtain b where b: "advance_min_seq 1 a = Some b" "cache_inv b" "grows a b" by auto
  define d where "d = (if span b < MAX_NR_GENS then b\<lparr> ca_max_seq := ca_max_seq b + 1 \<rparr> else b)"
  have bc: "ca_max_seq b = ca_max_seq c" "ca_capacity b = ca_capacity c" using a(3) b(3) by (simp_all add: grows_def)
  have "cache_inv d"
    using b(2) open_generation [OF cache_invD(3) [OF b(2)]] assms(2) cache_inv_gens(2) [OF b(2)] by (simp add: d_def bc)
  from age_pages_inv [OF this, of ps] obtain c' where c': "age_pages ps d = Some c'" "cache_inv c'" "grows d c'" by blast
  have "unat (ca_max_seq d) \<le> unat (ca_max_seq c) + 1" using assms(2) by (simp add: d_def bc unat_word_ariths)
  moreover have "ca_capacity d = ca_capacity c" by (simp add: d_def bc)
  moreover have "age ps c = Some c'" using False a(1) b(1) c'(1) by (simp add: age_def d_def)
  ultimately show ?thesis using c'(2,3) by (simp add: grows_def)
qed

lemma length_bs_insert: "length (bs_insert lt k s) \<le> Suc (length s)"
  by (induction s) auto

lemma base_insert_inv:
  assumes "cache_inv c" "ca_reserved c > 0"
  shows "\<exists>c'. base_insert k c = Some c' \<and> cache_inv c' \<and> grows c c'"
  using assms length_bs_insert [of "(<)" k "ca_base_resident c"]
  by (auto simp: base_insert_def cache_inv_def index_ok_def grows_def linear.sorted_bs_insert)

lemma release_slot_inv:
  assumes "cache_inv c" "ca_reserved c > 0"
  shows "\<exists>c'. release_slot c = Some c' \<and> cache_inv c' \<and> grows c c'"
  using assms by (auto simp: release_slot_def cache_inv_def index_ok_def grows_def)

lemma cache_new_inv: "1 \<le> n \<Longrightarrow> \<exists>c. cache_new n = Some c \<and> cache_inv c \<and> ca_capacity c = n \<and> ca_max_seq c = 0"
  by (simp add: cache_new_def cache_inv_def index_ok_def dirty_of_def unstable_of_def victims_of_def gens_ok_def counts_ok_def
      window_ok_def gens_def bm_ordered_def less_2_cases_iff)

section \<open>Schedules\<close>

datatype cache_op = Reserve | Fill page_id bool bool | Base_Insert base_key | Release | Mark_Dirty page_id
  | Begin_Flush page_id | End_Flush page_id | Age "page_id list" | Purge volume_id

fun cache_step :: "cache_op \<Rightarrow> page_cache \<Rightarrow> page_cache option" where
  "cache_step Reserve c = map_option fst (reserve_slot c)"
| "cache_step (Fill p dirty memory) c = fill_slot p dirty memory c"
| "cache_step (Base_Insert k) c = base_insert k c"
| "cache_step Release c = release_slot c"
| "cache_step (Mark_Dirty p) c = mark_dirty p c"
| "cache_step (Begin_Flush p) c = begin_flush p c"
| "cache_step (End_Flush p) c = end_flush p c"
| "cache_step (Age ps) c = age ps c"
| "cache_step (Purge v) c = map_option fst (purge_volume v c)"

text \<open>What the engine owes each call: a slot before a fill, a resident page before a write fault, an unstable page
  before a flush, at most 255 flushes of a page at a time, and a flush begun before it ends.\<close>

fun cache_allowed :: "cache_op \<Rightarrow> page_cache \<Rightarrow> bool" where
  "cache_allowed (Fill p dirty memory) c \<longleftrightarrow> ca_reserved c > 0 \<and> \<not> is_resident c p"
| "cache_allowed (Base_Insert k) c \<longleftrightarrow> ca_reserved c > 0"
| "cache_allowed Release c \<longleftrightarrow> ca_reserved c > 0"
| "cache_allowed (Mark_Dirty p) c \<longleftrightarrow> is_resident c p"
| "cache_allowed (Begin_Flush p) c \<longleftrightarrow>
     (case map_of (ca_entries c) p of None \<Rightarrow> False | Some e \<Rightarrow> \<not> evictable e \<and> en_flushing e < - 1)"
| "cache_allowed (End_Flush p) c \<longleftrightarrow>
     (case map_of (ca_entries c) p of None \<Rightarrow> False | Some e \<Rightarrow> en_flushing e > 0)"
| "cache_allowed _ c \<longleftrightarrow> True"

fun cache_run :: "cache_op list \<Rightarrow> page_cache \<Rightarrow> page_cache option" where
  "cache_run [] c = Some c"
| "cache_run (p # ps) c = do { c \<leftarrow> cache_step p c; cache_run ps c }"

fun cache_scheduled :: "cache_op list \<Rightarrow> page_cache \<Rightarrow> bool" where
  "cache_scheduled [] c \<longleftrightarrow> True"
| "cache_scheduled (p # ps) c \<longleftrightarrow>
     cache_allowed p c \<and> (case cache_step p c of None \<Rightarrow> True | Some c' \<Rightarrow> cache_scheduled ps c')"

lemma cache_step_inv:
  assumes "cache_inv c" "cache_allowed p c" "unat (ca_max_seq c) + 1 < 2 ^ 64"
  shows "\<exists>c'. cache_step p c = Some c' \<and> cache_inv c' \<and> ca_capacity c' = ca_capacity c \<and>
    unat (ca_max_seq c') \<le> unat (ca_max_seq c) + 1"
proof (cases p)
  case Reserve
  then show ?thesis using reserve_slot_spec [OF assms(1)] by (auto simp: grows_def simp del: split_paired_All split_paired_Ex)
next
  case (Fill q dirty memory)
  then show ?thesis using fill_slot_inv [OF assms(1), of q dirty memory] assms(2) by (auto simp: grows_def)
next
  case (Base_Insert k)
  then show ?thesis using base_insert_inv [OF assms(1), of k] assms(2) by (auto simp: grows_def)
next
  case Release
  then show ?thesis using release_slot_inv [OF assms(1)] assms(2) by (auto simp: grows_def)
next
  case (Mark_Dirty q)
  then show ?thesis using mark_dirty_inv [OF assms(1), of q] assms(2) by (auto simp: grows_def)
next
  case (Begin_Flush q)
  then show ?thesis using begin_flush_inv [OF assms(1), of q] assms(2) by (auto simp: grows_def split: option.splits)
next
  case (End_Flush q)
  then show ?thesis using end_flush_inv [OF assms(1), of q] assms(2) by (auto simp: grows_def split: option.splits)
next
  case (Age ps)
  then show ?thesis using age_inv [OF assms(1,3), of ps] by simp
next
  case (Purge v)
  then show ?thesis using purge_volume_spec [OF assms(1), of v] by (auto simp: grows_def)
qed

lemma cache_run_inv:
  assumes "cache_inv c" "cache_scheduled ps c" "unat (ca_max_seq c) + length ps < 2 ^ 64"
  shows "\<exists>c'. cache_run ps c = Some c' \<and> cache_inv c' \<and> ca_capacity c' = ca_capacity c"
  using assms
proof (induction ps arbitrary: c)
  case (Cons p ps)
  from Cons.prems have "cache_allowed p c" "unat (ca_max_seq c) + 1 < 2 ^ 64" by simp_all
  from cache_step_inv [OF Cons.prems(1) this] obtain b where
    b: "cache_step p c = Some b" "cache_inv b" "ca_capacity b = ca_capacity c" "unat (ca_max_seq b) \<le> unat (ca_max_seq c) + 1" by blast
  have "cache_scheduled ps b" "unat (ca_max_seq b) + length ps < 2 ^ 64" using Cons.prems(2,3) b(1,4) by simp_all
  from Cons.IH [OF b(2) this] b(1,3) show ?case by simp
qed simp

section \<open>Properties\<close>

lemma cache_inv_facts:
  assumes "cache_inv c"
  shows "length (ca_entries c) + length (ca_base_resident c) + ca_reserved c \<le> ca_capacity c"
    "1 \<le> span c" "span c \<le> MAX_NR_GENS"
    "set (dirty_pages_of c v) = {p. fst p = v \<and> is_dirty c p}" "has_dirty_of c v \<longleftrightarrow> (\<exists>p. fst p = v \<and> is_dirty c p)"
    "set (unstable_pages_of c v) = {p. fst p = v \<and> (\<exists>e. map_of (ca_entries c) p = Some e \<and> \<not> evictable e)}"
proof -
  note ix = index_okD [OF cache_invD(2) [OF assms]]
  have "window_ok (gens (ca_entries c)) c" using cache_invD(3) [OF assms] by (simp add: gens_ok_def)
  from span_nat(2,3) [OF this] show "1 \<le> span c" "span c \<le> MAX_NR_GENS" by (simp_all add: MAX_NR_GENS_def word_le_nat_alt)
  show dirty: "set (dirty_pages_of c v) = {p. fst p = v \<and> is_dirty c p}"
    using ix(2) by (auto simp: dirty_pages_of_def dirty_of_def is_dirty_def split: option.splits)
  have "has_dirty_of c v \<longleftrightarrow> set (dirty_pages_of c v) \<noteq> {}" by (simp add: has_dirty_of_def)
  then show "has_dirty_of c v \<longleftrightarrow> (\<exists>p. fst p = v \<and> is_dirty c p)" unfolding dirty by blast
  show "set (unstable_pages_of c v) = {p. fst p = v \<and> (\<exists>e. map_of (ca_entries c) p = Some e \<and> \<not> evictable e)}"
    using ix(4) by (auto simp: unstable_pages_of_def unstable_of_def)
qed (rule cache_invD(4) [OF assms])

text \<open>
  C5: Whatever the engine does within the cache's contract, in any order and for fewer than \<open>2 ^ 64\<close> calls, no
  assertion of the cache fails. Afterwards private pages, shared base pages and promised slots together stay within
  the capacity, the generations span between one and \<open>MAX_NR_GENS\<close>, and the per-volume indices answer exactly
  from the resident entries: the dirty pages are the dirty entries, and the unstable pages, which a capture must
  persist, are exactly those that are dirty or still being flushed.\<close>

theorem cache_accounting_exact:
  assumes "1 \<le> n" "cache_new n = Some c0" "cache_scheduled ps c0" "length ps < 2 ^ 64"
  shows "\<exists>c. cache_run ps c0 = Some c \<and> cache_inv c \<and>
    length (ca_entries c) + length (ca_base_resident c) + ca_reserved c \<le> n \<and>
    1 \<le> span c \<and> span c \<le> MAX_NR_GENS \<and>
    (\<forall>v. set (dirty_pages_of c v) = {p. fst p = v \<and> is_dirty c p} \<and>
         (has_dirty_of c v \<longleftrightarrow> (\<exists>p. fst p = v \<and> is_dirty c p)) \<and>
         set (unstable_pages_of c v) = {p. fst p = v \<and> (\<exists>e. map_of (ca_entries c) p = Some e \<and> \<not> evictable e)})"
proof -
  from cache_new_inv [OF assms(1)] assms(2) have c0: "cache_inv c0" "ca_capacity c0 = n" "ca_max_seq c0 = 0" by simp_all
  have "unat (ca_max_seq c0) + length ps < 2 ^ 64" using assms(4) c0(3) by simp
  from cache_run_inv [OF c0(1) assms(3) this] obtain c where c: "cache_run ps c0 = Some c" "cache_inv c" "ca_capacity c = n"
    using c0(2) by auto
  show ?thesis
    using cache_inv_facts [OF c(2)] c by (intro exI [of _ c] conjI allI) simp_all
qed

definition demo_cache_ops :: "cache_op list" where
  "demo_cache_ops = [Reserve, Fill (1, 0) True False, Reserve, Fill (1, 1) False True, Age [(1, 1)], Begin_Flush (1, 0),
     End_Flush (1, 0), Reserve, Fill (2, 0) False False]"

theorem cache_accounting_exact_witness:
  "\<exists>c. cache_run demo_cache_ops (the (cache_new 2)) = Some c \<and> cache_inv c \<and> span c \<le> MAX_NR_GENS"
proof -
  have "cache_scheduled demo_cache_ops (the (cache_new 2))" by code_simp
  moreover have "length demo_cache_ops < 2 ^ 64" by (simp add: demo_cache_ops_def)
  moreover have "cache_new 2 = Some (the (cache_new 2))" by (simp add: cache_new_def)
  ultimately show ?thesis
    using cache_accounting_exact [of 2 "the (cache_new 2)" demo_cache_ops] by fastforce
qed

text \<open>
  C15: What making room does, exactly. With spare capacity it only promises a slot. At capacity it evicts one
  resident page whose newest content is durable, the least such page by type, then generation, then arrival, so a
  storage page always goes before a memory page and an older generation before a younger one; everything else stays
  resident. It reports pressure exactly when the cache is full and every resident page is dirty or being flushed,
  and then it changes nothing.\<close>

theorem reserve_slot_exact:
  assumes "cache_inv c"
  shows "\<exists>c' r. reserve_slot c = Some (c', r) \<and> cache_inv c' \<and>
    (case r of
       Some None \<Rightarrow> length (ca_entries c) + length (ca_base_resident c) + ca_reserved c < ca_capacity c \<and>
         c' = c\<lparr> ca_reserved := ca_reserved c + 1 \<rparr>
     | None \<Rightarrow> length (ca_entries c) + length (ca_base_resident c) + ca_reserved c = ca_capacity c \<and> c' = c \<and>
         (\<forall>p d. map_of (ca_entries c) p = Some d \<longrightarrow> \<not> evictable d)
     | Some (Some v) \<Rightarrow> length (ca_entries c) + length (ca_base_resident c) + ca_reserved c = ca_capacity c \<and>
         (\<exists>e. map_of (ca_entries c) v = Some e \<and> evictable e \<and>
           (\<forall>p d. map_of (ca_entries c) p = Some d \<longrightarrow> evictable d \<longrightarrow>
              (en_class e, en_generation e, en_touched e, v) \<le> (en_class d, en_generation d, en_touched d, p))) \<and>
         map_of (ca_entries c') = (map_of (ca_entries c))(v := None) \<and> ca_reserved c' = ca_reserved c + 1)"
  using reserve_slot_spec [OF assms] unfolding victim_of_def by blast

theorem reserve_slot_exact_witness:
  "\<exists>c c'. cache_run [Reserve, Fill (1, 0) False False] (the (cache_new 1)) = Some c \<and>
     reserve_slot c = Some (c', Some (Some (1, 0))) \<and> cache_inv c'"
proof -
  define c0 where "c0 = the (cache_new 1)"
  have c0: "cache_inv c0" "ca_max_seq c0 = 0" using cache_new_inv [of 1] by (auto simp: c0_def)
  have "cache_scheduled [Reserve, Fill (1, 0) False False] c0" unfolding c0_def by code_simp
  from cache_run_inv [OF c0(1) this] obtain c where
    c: "cache_run [Reserve, Fill (1, 0) False False] c0 = Some c" "cache_inv c" by (auto simp: c0(2))
  have "map_option snd (Option.bind (cache_run [Reserve, Fill (1, 0) False False] c0) reserve_slot) = Some (Some (Some (1, 0)))"
    unfolding c0_def by code_simp
  then have "map_option snd (reserve_slot c) = Some (Some (Some (1, 0)))" unfolding c(1) by simp
  then obtain c' where r: "reserve_slot c = Some (c', Some (Some (1, 0)))" by auto
  with reserve_slot_exact [OF c(2)] have "cache_inv c'" by (auto simp del: split_paired_All split_paired_Ex)
  with c(1) r show ?thesis unfolding c0_def by blast
qed

text \<open>
  C34: The loop that moves a type's oldest generation forward ends, for every cache and either type. It changes
  nothing but that one bound, never moves it back nor past the youngest generation, skips only generations that
  count no page, and stops at the first that does or at the youngest.\<close>

theorem advance_min_seq_ends:
  assumes "length (ca_min_seq c) = 2" "ty < 2"
  shows "\<exists>m. advance_min_seq ty c = Some (c\<lparr> ca_min_seq := (ca_min_seq c)[ty := m] \<rparr>) \<and>
    ca_min_seq c ! ty \<le> m \<and> (ca_min_seq c ! ty \<le> ca_max_seq c \<longrightarrow> m \<le> ca_max_seq c) \<and>
    (\<forall>g. ca_min_seq c ! ty \<le> g \<and> g < m \<longrightarrow> map_of (ca_gen_counts c) (of_nat ty, g) = None) \<and>
    (m < ca_max_seq c \<longrightarrow> map_of (ca_gen_counts c) (of_nat ty, m) \<noteq> None)"
proof -
  from advance_loop_ends [of ty c] assms obtain m where
    m: "advance_loop ty c = Some (c\<lparr> ca_min_seq := (ca_min_seq c)[ty := m] \<rparr>)" "oldest_from c ty m" by auto
  moreover have "ty < 2 ^ 8" using assms(2) by simp
  ultimately show ?thesis by (intro exI [of _ m]) (simp add: advance_min_seq_def oldest_from_def)
qed

theorem advance_min_seq_ends_witness:
  "\<exists>m. advance_min_seq 1 (the (cache_new 4))  = Some ((the (cache_new 4))\<lparr> ca_min_seq := [0, m] \<rparr>)"
  using advance_min_seq_ends [of "the (cache_new 4)" 1] by (auto simp: cache_new_def)

end
