(* ===== verification/Peer_Wire.thy ===== *)
theory Peer_Wire
  imports Prost_Wire Replica_Spool
begin

text \<open>
  The peer protocol's wire form, \<^verbatim>\<open>crates/core/src/peer.rs\<close>, and the messages it carries, from
  \<^verbatim>\<open>crates/core/src/protocol.rs\<close>.  A message is one checksummed frame around a protobuf envelope:
  sender, intended recipient, the stable discriminant and a typed body.  The derived protobuf codec of
  the envelope is the parameter \<open>P\<close>.
\<close>

definition MAGIC_PEER :: u32 where
  "MAGIC_PEER = magic ''BPM1''"

definition MAX_PEER_PAYLOAD :: u32 where
  "MAX_PEER_PAYLOAD = 64 * 1024 * 1024 + 4096"

definition PEER_FORMAT_VERSION :: u32 where
  "PEER_FORMAT_VERSION = 1"

section \<open>Messages\<close>

type_synonym peer_request_id = u64

datatype peer_msg =
    Migrate_Offer volume_id bytes "bytes option"
  | Migrate_Accept volume_id u64
  | Fetch_Range peer_request_id volume_id "u64 option" u64 object_id u32 u32
  | Page peer_request_id "bytes option"
  | Released volume_id u64
  | Released_Ack volume_id u64
  | Replica_Put volume_id u64 replica_artifact u32 bytes
  | Replica_Put_Ack volume_id u64 replica_artifact u32
  | Replica_Commit volume_id u64 commit_info "replica_artifact list" bytes
  | Replica_Commit_Ack volume_id u64 commit_info
  | Replica_Status volume_id u64
  | Replica_Status_Reply volume_id u64 "commit_info option"
  | Replica_Release volume_id u64 commit_info
  | Replica_Release_Ack volume_id u64 commit_info

fun peer_tag :: "peer_msg \<Rightarrow> u8" where
  "peer_tag (Migrate_Offer _ _ _) = 0"
| "peer_tag (Migrate_Accept _ _) = 1"
| "peer_tag (Fetch_Range _ _ _ _ _ _ _) = 2"
| "peer_tag (Page _ _) = 3"
| "peer_tag (Released _ _) = 6"
| "peer_tag (Released_Ack _ _) = 7"
| "peer_tag (Replica_Put _ _ _ _ _) = 8"
| "peer_tag (Replica_Put_Ack _ _ _ _) = 9"
| "peer_tag (Replica_Commit _ _ _ _ _) = 10"
| "peer_tag (Replica_Commit_Ack _ _ _) = 11"
| "peer_tag (Replica_Status _ _) = 12"
| "peer_tag (Replica_Status_Reply _ _ _) = 13"
| "peer_tag (Replica_Release _ _ _) = 15"
| "peer_tag (Replica_Release_Ack _ _ _) = 16"

section \<open>Wire structs\<close>

datatype migrate_offer_wire = Migrate_Offer_Wire u64 bytes "bytes option"
datatype volume_fence_wire = Volume_Fence_Wire u64 u64
datatype fetch_range_wire = Fetch_Range_Wire u64 u64 "u64 option" u64 u64 u32 u32
datatype page_wire = Page_Wire u64 "bytes option"
datatype blx_artifact_wire = Blx_Artifact_Wire u64 u64
datatype replica_artifact_wire = Replica_Artifact_Wire "blx_artifact_wire option"
datatype commit_info_wire = Commit_Info_Wire u64 u64 u64
datatype replica_put_wire = Replica_Put_Wire u64 u64 "replica_artifact_wire option" u32 bytes
datatype replica_put_ack_wire = Replica_Put_Ack_Wire u64 u64 "replica_artifact_wire option" u32
datatype replica_commit_wire = Replica_Commit_Wire u64 u64 "commit_info_wire option" "replica_artifact_wire list" bytes
datatype replica_commit_ack_wire = Replica_Commit_Ack_Wire u64 u64 "commit_info_wire option"
datatype replica_status_wire = Replica_Status_Wire u64 u64
datatype replica_status_reply_wire = Replica_Status_Reply_Wire u64 u64 "commit_info_wire option"
datatype replica_release_wire = Replica_Release_Wire u64 u64 "commit_info_wire option"

datatype peer_body =
    Body_Migrate_Offer migrate_offer_wire
  | Body_Migrate_Accept volume_fence_wire
  | Body_Fetch_Range fetch_range_wire
  | Body_Page page_wire
  | Body_Released volume_fence_wire
  | Body_Released_Ack volume_fence_wire
  | Body_Replica_Put replica_put_wire
  | Body_Replica_Put_Ack replica_put_ack_wire
  | Body_Replica_Commit replica_commit_wire
  | Body_Replica_Commit_Ack replica_commit_ack_wire
  | Body_Replica_Status replica_status_wire
  | Body_Replica_Status_Reply replica_status_reply_wire
  | Body_Replica_Release replica_release_wire
  | Body_Replica_Release_Ack replica_release_wire

record peer_envelope =
  pe_version :: u32
  pe_from :: u32
  pe_to :: u32
  pe_kind :: u32
  pe_body :: "peer_body option"

section \<open>Conversions\<close>

definition artifact_to_wire :: "replica_artifact \<Rightarrow> replica_artifact_wire" where
  "artifact_to_wire a = (case a of Blx_Artifact fence ob \<Rightarrow> Replica_Artifact_Wire (Some (Blx_Artifact_Wire fence ob)))"

definition artifact_from_wire :: "replica_artifact_wire \<Rightarrow> replica_artifact option" where
  "artifact_from_wire w = (case w of
     Replica_Artifact_Wire None \<Rightarrow> None
   | Replica_Artifact_Wire (Some (Blx_Artifact_Wire fence ob)) \<Rightarrow> Some (Blx_Artifact fence ob))"

definition commit_info_to_wire :: "commit_info \<Rightarrow> commit_info_wire" where
  "commit_info_to_wire i = Commit_Info_Wire (ci_writer_fence i) (ci_seq i) (ci_sync_covered_through i)"

definition commit_info_from_wire :: "commit_info_wire \<Rightarrow> commit_info" where
  "commit_info_from_wire w = (case w of Commit_Info_Wire fence seq sync \<Rightarrow>
     \<lparr> ci_writer_fence = fence, ci_seq = seq, ci_sync_covered_through = sync \<rparr>)"

text \<open>The migration arms panic in the replica half; \<open>peer_body_to_wire\<close> never sends one there.\<close>

fun replica_body_to_wire :: "peer_msg \<Rightarrow> peer_body option" where
  "replica_body_to_wire (Replica_Put volume epoch art checksum bs) =
     Some (Body_Replica_Put (Replica_Put_Wire volume epoch (Some (artifact_to_wire art)) checksum bs))"
| "replica_body_to_wire (Replica_Put_Ack volume epoch art checksum) =
     Some (Body_Replica_Put_Ack (Replica_Put_Ack_Wire volume epoch (Some (artifact_to_wire art)) checksum))"
| "replica_body_to_wire (Replica_Commit volume epoch info required rec) =
     Some (Body_Replica_Commit (Replica_Commit_Wire volume epoch (Some (commit_info_to_wire info))
       (map artifact_to_wire required) rec))"
| "replica_body_to_wire (Replica_Commit_Ack volume epoch info) =
     Some (Body_Replica_Commit_Ack (Replica_Commit_Ack_Wire volume epoch (Some (commit_info_to_wire info))))"
| "replica_body_to_wire (Replica_Status volume epoch) = Some (Body_Replica_Status (Replica_Status_Wire volume epoch))"
| "replica_body_to_wire (Replica_Status_Reply volume epoch committed) =
     Some (Body_Replica_Status_Reply (Replica_Status_Reply_Wire volume epoch (map_option commit_info_to_wire committed)))"
| "replica_body_to_wire (Replica_Release volume epoch through) =
     Some (Body_Replica_Release (Replica_Release_Wire volume epoch (Some (commit_info_to_wire through))))"
| "replica_body_to_wire (Replica_Release_Ack volume epoch through) =
     Some (Body_Replica_Release_Ack (Replica_Release_Wire volume epoch (Some (commit_info_to_wire through))))"
| "replica_body_to_wire _ = None"

fun peer_body_to_wire :: "peer_msg \<Rightarrow> peer_body option" where
  "peer_body_to_wire (Migrate_Offer volume rec vmstate) = Some (Body_Migrate_Offer (Migrate_Offer_Wire volume rec vmstate))"
| "peer_body_to_wire (Migrate_Accept volume fence) = Some (Body_Migrate_Accept (Volume_Fence_Wire volume fence))"
| "peer_body_to_wire (Fetch_Range io volume epoch fence ob offset len) =
     Some (Body_Fetch_Range (Fetch_Range_Wire io volume epoch fence ob offset len))"
| "peer_body_to_wire (Page io bs) = Some (Body_Page (Page_Wire io bs))"
| "peer_body_to_wire (Released volume fence) = Some (Body_Released (Volume_Fence_Wire volume fence))"
| "peer_body_to_wire (Released_Ack volume fence) = Some (Body_Released_Ack (Volume_Fence_Wire volume fence))"
| "peer_body_to_wire msg = replica_body_to_wire msg"

definition peer_message_from_wire :: "u32 \<Rightarrow> peer_body \<Rightarrow> peer_msg option" where
  "peer_message_from_wire kind body = (case body of
     Body_Migrate_Offer (Migrate_Offer_Wire volume rec vmstate) \<Rightarrow>
       if kind = 0 then Some (Migrate_Offer volume rec vmstate) else None
   | Body_Migrate_Accept (Volume_Fence_Wire volume fence) \<Rightarrow>
       if kind = 1 then Some (Migrate_Accept volume fence) else None
   | Body_Fetch_Range (Fetch_Range_Wire io volume epoch fence ob offset len) \<Rightarrow>
       if kind = 2 then Some (Fetch_Range io volume epoch fence ob offset len) else None
   | Body_Page (Page_Wire io bs) \<Rightarrow> if kind = 3 then Some (Page io bs) else None
   | Body_Released (Volume_Fence_Wire volume fence) \<Rightarrow> if kind = 6 then Some (Released volume fence) else None
   | Body_Released_Ack (Volume_Fence_Wire volume fence) \<Rightarrow> if kind = 7 then Some (Released_Ack volume fence) else None
   | Body_Replica_Put (Replica_Put_Wire volume epoch art checksum bs) \<Rightarrow>
       if kind = 8 then do { art \<leftarrow> art; art \<leftarrow> artifact_from_wire art; Some (Replica_Put volume epoch art checksum bs) } else None
   | Body_Replica_Put_Ack (Replica_Put_Ack_Wire volume epoch art checksum) \<Rightarrow>
       if kind = 9 then do { art \<leftarrow> art; art \<leftarrow> artifact_from_wire art; Some (Replica_Put_Ack volume epoch art checksum) } else None
   | Body_Replica_Commit (Replica_Commit_Wire volume epoch info required rec) \<Rightarrow>
       if kind = 10 then do {
         guard_opt (\<not> length required > 1000000);
         info \<leftarrow> info;
         required \<leftarrow> those (map artifact_from_wire required);
         Some (Replica_Commit volume epoch (commit_info_from_wire info) required rec) } else None
   | Body_Replica_Commit_Ack (Replica_Commit_Ack_Wire volume epoch info) \<Rightarrow>
       if kind = 11 then do { info \<leftarrow> info; Some (Replica_Commit_Ack volume epoch (commit_info_from_wire info)) } else None
   | Body_Replica_Status (Replica_Status_Wire volume epoch) \<Rightarrow> if kind = 12 then Some (Replica_Status volume epoch) else None
   | Body_Replica_Status_Reply (Replica_Status_Reply_Wire volume epoch committed) \<Rightarrow>
       if kind = 13 then Some (Replica_Status_Reply volume epoch (map_option commit_info_from_wire committed)) else None
   | Body_Replica_Release (Replica_Release_Wire volume epoch through) \<Rightarrow>
       if kind = 15 then do { through \<leftarrow> through; Some (Replica_Release volume epoch (commit_info_from_wire through)) } else None
   | Body_Replica_Release_Ack (Replica_Release_Wire volume epoch through) \<Rightarrow>
       if kind = 16 then do { through \<leftarrow> through; Some (Replica_Release_Ack volume epoch (commit_info_from_wire through)) } else None)"

definition encode_peer_routed :: "env \<Rightarrow> peer_envelope prost \<Rightarrow> host_id \<Rightarrow> host_id \<Rightarrow> peer_msg \<Rightarrow> bytes option" where
  "encode_peer_routed E P from to msg = do {
     body \<leftarrow> peer_body_to_wire msg;
     let payload = pr_encode P \<lparr> pe_version = PEER_FORMAT_VERSION, pe_from = from, pe_to = to,
                                 pe_kind = ucast (peer_tag msg), pe_body = Some body \<rparr>;
     guard_opt (length payload \<le> unat MAX_PEER_PAYLOAD);
     seal_frame E MAGIC_PEER payload }"

definition encode_peer :: "env \<Rightarrow> peer_envelope prost \<Rightarrow> host_id \<Rightarrow> peer_msg \<Rightarrow> bytes option" where
  "encode_peer E P from msg = encode_peer_routed E P from from msg"

definition decode_peer_routed :: "env \<Rightarrow> peer_envelope prost \<Rightarrow> bytes \<Rightarrow> (host_id \<times> host_id \<times> peer_msg) option" where
  "decode_peer_routed E P bs = do {
     guard_opt (\<not> length bs > FRAME_HEADER + unat MAX_PEER_PAYLOAD);
     payload \<leftarrow> open_frame E MAGIC_PEER bs;
     guard_opt (\<not> length payload > unat MAX_PEER_PAYLOAD);
     wire \<leftarrow> pr_decode P payload;
     guard_opt (\<not> (pe_version wire \<noteq> PEER_FORMAT_VERSION \<or> pr_encode P wire \<noteq> payload));
     body \<leftarrow> pe_body wire;
     msg \<leftarrow> peer_message_from_wire (pe_kind wire) body;
     Some (pe_from wire, pe_to wire, msg) }"

definition decode_peer :: "env \<Rightarrow> peer_envelope prost \<Rightarrow> bytes \<Rightarrow> (host_id \<times> peer_msg) option" where
  "decode_peer E P bs = map_option (\<lambda>(from, _, msg). (from, msg)) (decode_peer_routed E P bs)"

section \<open>The codec is canonical\<close>

fun peer_msg_ok :: "peer_msg \<Rightarrow> bool" where
  "peer_msg_ok (Replica_Commit _ _ _ required _) \<longleftrightarrow> length required \<le> 1000000"
| "peer_msg_ok _ \<longleftrightarrow> True"

lemma artifact_wire_iff: "artifact_from_wire w = Some a \<longleftrightarrow> w = artifact_to_wire a"
  by (auto simp: artifact_from_wire_def artifact_to_wire_def
      split: replica_artifact_wire.splits replica_artifact.splits option.splits blx_artifact_wire.splits)

lemma artifacts_wire_iff: "those (map artifact_from_wire ws) = Some as \<longleftrightarrow> ws = map artifact_to_wire as"
proof -
  have "map artifact_from_wire ws = map Some as \<longleftrightarrow> ws = map artifact_to_wire as"
    by (induction ws as rule: list_induct2') (simp_all add: artifact_wire_iff)
  then show ?thesis by (simp add: those_Some_iff)
qed

lemma info_wire_iff: "commit_info_from_wire w = i \<longleftrightarrow> w = commit_info_to_wire i"
  by (cases w; cases i) (auto simp: commit_info_from_wire_def commit_info_to_wire_def)

lemma info_option_wire_iff: "map_option commit_info_from_wire w = i \<longleftrightarrow> w = map_option commit_info_to_wire i"
  by (cases w; cases i) (auto simp: info_wire_iff)

lemma message_wire_iff:
  "peer_message_from_wire k b = Some m \<longleftrightarrow> k = ucast (peer_tag m) \<and> peer_body_to_wire m = Some b \<and> peer_msg_ok m"
  by (cases b; cases m)
    (auto simp: peer_message_from_wire_def bind_eq_Some_conv artifact_wire_iff artifacts_wire_iff info_wire_iff info_option_wire_iff
      split: migrate_offer_wire.splits volume_fence_wire.splits fetch_range_wire.splits page_wire.splits replica_put_wire.splits
        replica_put_ack_wire.splits replica_commit_wire.splits replica_commit_ack_wire.splits replica_status_wire.splits
        replica_status_reply_wire.splits replica_release_wire.splits if_splits)

text \<open>The envelope of a message, and the bytes that carry it: the one frame around the one encoding.\<close>

definition peer_envelope_of :: "host_id \<Rightarrow> host_id \<Rightarrow> peer_msg \<Rightarrow> peer_body \<Rightarrow> peer_envelope" where
  "peer_envelope_of from to msg body = \<lparr> pe_version = PEER_FORMAT_VERSION, pe_from = from, pe_to = to,
     pe_kind = ucast (peer_tag msg), pe_body = Some body \<rparr>"

definition peer_carries :: "env \<Rightarrow> peer_envelope prost \<Rightarrow> host_id \<Rightarrow> host_id \<Rightarrow> peer_msg \<Rightarrow> bytes \<Rightarrow> bool" where
  "peer_carries E P from to msg bs \<longleftrightarrow> encode_peer_routed E P from to msg = Some bs \<and> peer_msg_ok msg \<and>
     (\<forall>body. peer_body_to_wire msg = Some body \<longrightarrow>
        pr_decode P (pr_encode P (peer_envelope_of from to msg body)) = Some (peer_envelope_of from to msg body))"

lemma decode_peer_routed_iff:
  "decode_peer_routed E P bs = Some (from, to, msg) \<longleftrightarrow> peer_carries E P from to msg bs"
proof
  assume "decode_peer_routed E P bs = Some (from, to, msg)"
  then obtain payload wire body where
    w: "open_frame E MAGIC_PEER bs = Some payload" "\<not> length payload > unat MAX_PEER_PAYLOAD" "pr_decode P payload = Some wire"
      "pe_version wire = PEER_FORMAT_VERSION" "pr_encode P wire = payload" "pe_body wire = Some body"
      "peer_message_from_wire (pe_kind wire) body = Some msg" "pe_from wire = from" "pe_to wire = to"
    by (auto simp: decode_peer_routed_def bind_eq_Some_conv)
  note m = w(7) [unfolded message_wire_iff]
  have env: "wire = peer_envelope_of from to msg body"
    by (rule peer_envelope.equality) (use w m in \<open>simp_all add: peer_envelope_of_def\<close>)
  show "peer_carries E P from to msg bs"
    unfolding peer_carries_def
    using m w(1,2,3,5) [unfolded env frame_open_seal] by (auto simp: encode_peer_routed_def peer_envelope_of_def)
next
  assume c: "peer_carries E P from to msg bs"
  then obtain body where b: "peer_body_to_wire msg = Some body"
      "length (pr_encode P (peer_envelope_of from to msg body)) \<le> unat MAX_PEER_PAYLOAD"
      "seal_frame E MAGIC_PEER (pr_encode P (peer_envelope_of from to msg body)) = Some bs"
    by (auto simp: peer_carries_def encode_peer_routed_def peer_envelope_of_def Let_def bind_eq_Some_conv)
  moreover have "pr_decode P (pr_encode P (peer_envelope_of from to msg body)) = Some (peer_envelope_of from to msg body)" "peer_msg_ok msg"
    using c b(1) by (simp_all add: peer_carries_def)
  moreover have "peer_message_from_wire (ucast (peer_tag msg)) body = Some msg"
    using b(1) \<open>peer_msg_ok msg\<close> by (simp add: message_wire_iff)
  moreover have "length bs \<le> FRAME_HEADER + unat MAX_PEER_PAYLOAD" using seal_frame_length [OF b(3)] b(2) by simp
  ultimately show "decode_peer_routed E P bs = Some (from, to, msg)"
    by (simp add: decode_peer_routed_def peer_envelope_of_def)
qed

lemma prost_peer_carries:
  "prost_roundtrips P \<Longrightarrow> peer_carries E P from to msg bs \<longleftrightarrow> encode_peer_routed E P from to msg = Some bs \<and> peer_msg_ok msg"
  by (auto simp: peer_carries_def prost_roundtrips_def)

lemma decode_peer_iff:
  "decode_peer E P bs = Some (from, msg) \<longleftrightarrow> (\<exists>to. peer_carries E P from to msg bs)"
  by (auto simp: decode_peer_def simp flip: decode_peer_routed_iff)

text \<open>The shape the stream reader relies on.\<close>

lemma encoded_shape:
  assumes "encode_peer_routed E P from to msg = Some bs"
  obtains len rest where "bs = enc_u32 MAGIC_PEER @ enc_u32 len @ rest" "len \<le> MAX_PEER_PAYLOAD" "length bs = FRAME_HEADER + unat len"
proof -
  from assms obtain payload where p: "length payload \<le> unat MAX_PEER_PAYLOAD" "seal_frame E MAGIC_PEER payload = Some bs"
    by (auto simp: encode_peer_routed_def Let_def bind_eq_Some_conv)
  note shape = p(2) [unfolded frame_shape]
  have len: "unat (of_nat (length payload) :: u32) = length payload" using shape by (simp add: unat_of_nat_u32)
  show ?thesis
    by (rule that [of "of_nat (length payload)" "enc_u32 (crc32c E payload) @ payload"])
      (use shape len p(1) seal_frame_length [OF p(2)] in \<open>simp_all add: word_le_nat_alt\<close>)
qed

section \<open>A concrete pair for closed examples\<close>

text \<open>An envelope as a list of numbers: a byte string is flagged bytes and a zero, an option is a flag and its
  content.\<close>

lemma ucast_back [simp]: "ucast (ucast (a :: u8) :: u64) = a" "ucast (ucast (b :: u32) :: u64) = b"
  by (transfer, simp)+

fun blob_nums :: "bytes \<Rightarrow> u64 list" where
  "blob_nums [] = [0]"
| "blob_nums (b # bs) = 1 # ucast b # blob_nums bs"

fun take_blob :: "u64 list \<Rightarrow> bytes \<times> u64 list" where
  "take_blob (t # b # r) = (if t = 0 then ([], b # r) else map_prod (\<lambda>bs. ucast b # bs) id (take_blob r))"
| "take_blob _ = ([], [])"

lemma take_blob_nums [simp]: "take_blob (blob_nums bs @ r) = (bs, r)" "take_blob (blob_nums bs) = (bs, [])" "blob_nums bs \<noteq> []"
proof -
  show "take_blob (blob_nums bs @ r) = (bs, r)" for r
  proof (induction bs)
    case Nil
    then show ?case by (cases r) simp_all
  qed simp
  from this [of "[]"] show "take_blob (blob_nums bs) = (bs, [])" by simp
  show "blob_nums bs \<noteq> []" by (cases bs) simp_all
qed

definition opt_blob_nums :: "bytes option \<Rightarrow> u64 list" where
  "opt_blob_nums b = (case b of None \<Rightarrow> [] | Some bs \<Rightarrow> blob_nums bs)"

definition opt_blob_of :: "u64 list \<Rightarrow> bytes option" where
  "opt_blob_of r = (if r = [] then None else Some (fst (take_blob r)))"

lemma opt_blob_back [simp]: "opt_blob_of (opt_blob_nums b) = b"
  by (cases b) (simp_all add: opt_blob_of_def opt_blob_nums_def)

definition opt_num :: "u64 option \<Rightarrow> u64 \<times> u64" where
  "opt_num x = (case x of None \<Rightarrow> (0, 0) | Some v \<Rightarrow> (1, v))"

definition art_num :: "replica_artifact_wire \<Rightarrow> u64 \<times> u64 \<times> u64" where
  "art_num w = (case w of Replica_Artifact_Wire None \<Rightarrow> (0, 0, 0) | Replica_Artifact_Wire (Some (Blx_Artifact_Wire f ob)) \<Rightarrow> (1, f, ob))"

definition art_of :: "u64 \<times> u64 \<times> u64 \<Rightarrow> replica_artifact_wire" where
  "art_of n = Replica_Artifact_Wire (if fst n = 0 then None else Some (Blx_Artifact_Wire (fst (snd n)) (snd (snd n))))"

lemma art_back [simp]: "art_of (art_num w) = w"
  by (auto simp: art_of_def art_num_def split: replica_artifact_wire.splits option.splits blx_artifact_wire.splits)

fun arts_of :: "u64 list \<Rightarrow> replica_artifact_wire list" where
  "arts_of (a # b # c # r) = art_of (a, b, c) # arts_of r"
| "arts_of _ = []"

lemma arts_back [simp]: "arts_of (concat (map (\<lambda>w. case art_num w of (a, b, c) \<Rightarrow> [a, b, c]) ws)) = ws"
  by (induction ws) (simp_all split: prod.splits, metis art_back)

definition opt_art_num :: "replica_artifact_wire option \<Rightarrow> u64 \<times> u64 \<times> u64 \<times> u64" where
  "opt_art_num w = (case w of None \<Rightarrow> (0, 0, 0, 0) | Some w \<Rightarrow> (1, art_num w))"

definition opt_art_of :: "u64 \<times> u64 \<times> u64 \<times> u64 \<Rightarrow> replica_artifact_wire option" where
  "opt_art_of n = (if fst n = 0 then None else Some (art_of (snd n)))"

lemma opt_art_back [simp]: "opt_art_num w = (a, b, c, d) \<Longrightarrow> opt_art_of (a, b, c, d) = w"
  by (cases w) (auto simp: opt_art_num_def opt_art_of_def, metis art_back)

definition info_num :: "commit_info_wire option \<Rightarrow> u64 \<times> u64 \<times> u64 \<times> u64" where
  "info_num w = (case w of None \<Rightarrow> (0, 0, 0, 0) | Some (Commit_Info_Wire f s t) \<Rightarrow> (1, f, s, t))"

definition info_of :: "u64 \<times> u64 \<times> u64 \<times> u64 \<Rightarrow> commit_info_wire option" where
  "info_of n = (case n of (u, f, s, t) \<Rightarrow> if u = 0 then None else Some (Commit_Info_Wire f s t))"

lemma info_back [simp]: "info_num w = (a, b, c, d) \<Longrightarrow> info_of (a, b, c, d) = w"
  by (auto simp: info_num_def info_of_def split: option.splits commit_info_wire.splits)

fun body_nums :: "peer_body \<Rightarrow> u64 list" where
  "body_nums (Body_Migrate_Offer (Migrate_Offer_Wire v r vm)) = 0 # v # blob_nums r @ opt_blob_nums vm"
| "body_nums (Body_Migrate_Accept (Volume_Fence_Wire v f)) = [1, v, f]"
| "body_nums (Body_Fetch_Range (Fetch_Range_Wire io v e f ob off len)) =
     (case opt_num e of (t, x) \<Rightarrow> [2, io, v, t, x, f, ob, ucast off, ucast len])"
| "body_nums (Body_Page (Page_Wire io bs)) = 3 # io # opt_blob_nums bs"
| "body_nums (Body_Released (Volume_Fence_Wire v f)) = [6, v, f]"
| "body_nums (Body_Released_Ack (Volume_Fence_Wire v f)) = [7, v, f]"
| "body_nums (Body_Replica_Put (Replica_Put_Wire v e w c bs)) =
     (case opt_art_num w of (x, y, z, u) \<Rightarrow> [8, v, e, x, y, z, u, ucast c] @ blob_nums bs)"
| "body_nums (Body_Replica_Put_Ack (Replica_Put_Ack_Wire v e w c)) =
     (case opt_art_num w of (x, y, z, u) \<Rightarrow> [9, v, e, x, y, z, u, ucast c])"
| "body_nums (Body_Replica_Commit (Replica_Commit_Wire v e i ws bs)) =
     (case info_num i of (x, y, z, u) \<Rightarrow>
        [10, v, e, x, y, z, u] @ blob_nums bs @ concat (map (\<lambda>w. case art_num w of (a, b, c) \<Rightarrow> [a, b, c]) ws))"
| "body_nums (Body_Replica_Commit_Ack (Replica_Commit_Ack_Wire v e i)) = (case info_num i of (x, y, z, u) \<Rightarrow> [11, v, e, x, y, z, u])"
| "body_nums (Body_Replica_Status (Replica_Status_Wire v e)) = [12, v, e]"
| "body_nums (Body_Replica_Status_Reply (Replica_Status_Reply_Wire v e i)) = (case info_num i of (x, y, z, u) \<Rightarrow> [13, v, e, x, y, z, u])"
| "body_nums (Body_Replica_Release (Replica_Release_Wire v e i)) = (case info_num i of (x, y, z, u) \<Rightarrow> [15, v, e, x, y, z, u])"
| "body_nums (Body_Replica_Release_Ack (Replica_Release_Wire v e i)) = (case info_num i of (x, y, z, u) \<Rightarrow> [16, v, e, x, y, z, u])"

fun body_of :: "u64 list \<Rightarrow> peer_body option" where
  "body_of (k # v # r) =
     (if k = 0 then (case take_blob r of (bs, r) \<Rightarrow> Some (Body_Migrate_Offer (Migrate_Offer_Wire v bs (opt_blob_of r))))
      else if k = 1 then Some (Body_Migrate_Accept (Volume_Fence_Wire v (hd r)))
      else if k = 2 then (case r of [w, t, x, f, ob, off, len] \<Rightarrow>
        Some (Body_Fetch_Range (Fetch_Range_Wire v w (if t = 0 then None else Some x) f ob (ucast off) (ucast len))) | _ \<Rightarrow> None)
      else if k = 3 then Some (Body_Page (Page_Wire v (opt_blob_of r)))
      else if k = 6 then Some (Body_Released (Volume_Fence_Wire v (hd r)))
      else if k = 7 then Some (Body_Released_Ack (Volume_Fence_Wire v (hd r)))
      else if k = 8 then (case r of e # x # y # z # u # c # r \<Rightarrow>
        Some (Body_Replica_Put (Replica_Put_Wire v e (opt_art_of (x, y, z, u)) (ucast c) (fst (take_blob r)))) | _ \<Rightarrow> None)
      else if k = 9 then (case r of [e, x, y, z, u, c] \<Rightarrow>
        Some (Body_Replica_Put_Ack (Replica_Put_Ack_Wire v e (opt_art_of (x, y, z, u)) (ucast c))) | _ \<Rightarrow> None)
      else if k = 12 then Some (Body_Replica_Status (Replica_Status_Wire v (hd r)))
      else (case r of e # x # y # z # u # r \<Rightarrow>
        let i = info_of (x, y, z, u) in
        if k = 10 then (case take_blob r of (bs, r) \<Rightarrow> Some (Body_Replica_Commit (Replica_Commit_Wire v e i (arts_of r) bs)))
        else if k = 11 then Some (Body_Replica_Commit_Ack (Replica_Commit_Ack_Wire v e i))
        else if k = 13 then Some (Body_Replica_Status_Reply (Replica_Status_Reply_Wire v e i))
        else if k = 15 then Some (Body_Replica_Release (Replica_Release_Wire v e i))
        else Some (Body_Replica_Release_Ack (Replica_Release_Wire v e i)) | _ \<Rightarrow> None))"
| "body_of _ = None"

lemma body_back: "body_of (body_nums b) = Some b"
  by (cases b rule: body_nums.cases) (auto simp: opt_num_def split: prod.splits option.splits)

definition envelope_nums :: "peer_envelope \<Rightarrow> u64 list" where
  "envelope_nums e = [ucast (pe_version e), ucast (pe_from e), ucast (pe_to e), ucast (pe_kind e)] @
     (case pe_body e of None \<Rightarrow> [] | Some b \<Rightarrow> body_nums b)"

definition envelope_of :: "u64 list \<Rightarrow> peer_envelope option" where
  "envelope_of ns = (case ns of
     a # b # c # d # ns \<Rightarrow>
       Some \<lparr> pe_version = ucast a, pe_from = ucast b, pe_to = ucast c, pe_kind = ucast d, pe_body = body_of ns \<rparr>
   | _ \<Rightarrow> None)"

definition demo_peer_prost :: "peer_envelope prost" where
  "demo_peer_prost = \<lparr> pr_encode = (\<lambda>e. enc_seq enc_u64 (envelope_nums e)),
     pr_decode = (\<lambda>bs. case dec_list dec_u64 bs of Some (ns, []) \<Rightarrow> envelope_of ns | _ \<Rightarrow> None) \<rparr>"

lemma demo_peer_prost_ok: "prost_roundtrips demo_peer_prost"
proof -
  have dec: "dec_list dec_u64 (enc_seq enc_u64 ns) = Some (ns, [])" for ns
    using u64c.list_enc [of ns "[]"] by (simp add: list_all_iff)
  have "envelope_of (envelope_nums e) = Some e" for e
    by (cases e) (simp add: envelope_of_def envelope_nums_def body_back split: option.splits)
  with dec show ?thesis unfolding prost_roundtrips_def demo_peer_prost_def by simp
qed

end
