(* ===== verification/Peer_Transport.thy ===== *)
theory Peer_Transport
  imports Peer_Wire "HOL-Library.Sublist"
begin

text \<open>
  Peer wire framing over byte streams, \<^verbatim>\<open>crates/transport/src/lib.rs\<close>.  A byte stream is the list of what
  its reads do: data arrives in chunks of any size, a wait outlasts a deadline, or the read fails; past the
  end of the list the stream is closed.  The payload budget (a shared semaphore), the fate of a decode task and
  the authorization callback are the environment's: each is a function of the frame's number in the
  connection.  A receive loop returns what it delivered, the error that ended it, and the counters.
\<close>

section \<open>Byte streams\<close>

datatype io_kind = Unexpected_Eof | Timed_Out | Invalid_Data | Permission_Denied | Other_Error | Stream_Error nat

datatype read_event = Data bytes | Pause | Read_Failed io_kind

type_synonym byte_stream = "read_event list"

fun stream_bytes :: "byte_stream \<Rightarrow> bytes" where
  "stream_bytes [] = []"
| "stream_bytes (Data bs # s) = bs @ stream_bytes s"
| "stream_bytes (_ # s) = stream_bytes s"

text \<open>The buffer filled so far, the bytes still wanted, and whether a deadline is set.  The flag of an
  error says whether the read had made progress.\<close>

fun read_exact_with_deadline ::
  "bool \<Rightarrow> bytes \<Rightarrow> nat \<Rightarrow> byte_stream \<Rightarrow> (io_kind \<times> bool + bytes) \<times> byte_stream" where
  "read_exact_with_deadline deadline acc n [] =
     (if n = 0 then (Inr acc, []) else (Inl (Unexpected_Eof, acc \<noteq> []), []))"
| "read_exact_with_deadline deadline acc n (ev # s) =
     (if n = 0 then (Inr acc, ev # s)
      else case ev of
        Data bs \<Rightarrow>
          if bs = [] then (Inl (Unexpected_Eof, acc \<noteq> []), s)
          else if length bs \<le> n then read_exact_with_deadline deadline (acc @ bs) (n - length bs) s
          else (Inr (acc @ take n bs), Data (drop n bs) # s)
      | Pause \<Rightarrow>
          if deadline then (Inl (Timed_Out, acc \<noteq> []), s) else read_exact_with_deadline deadline acc n s
      | Read_Failed kind \<Rightarrow> (Inl (kind, acc \<noteq> []), s))"

section \<open>Reading one frame\<close>

record receive_metrics =
  rm_payload_budget_waits :: u64
  rm_frame_read_timeouts :: u64
  rm_idle_timeouts :: u64

text \<open>How an acquisition from the payload budget goes: at once, after a wait, or not because the
  budget is closed, before or during the wait.\<close>

datatype acquisition = Acquired | Acquired_Late | Budget_Closed | Budget_Closed_Late

definition acquire_budget ::
  "(u32 \<Rightarrow> acquisition) option \<Rightarrow> u32 \<Rightarrow> receive_metrics \<Rightarrow> (io_kind + unit) \<times> receive_metrics" where
  "acquire_budget budget payload_len m =
     (case budget of
        None \<Rightarrow> (Inr (), m)
      | Some acquire \<Rightarrow>
          let late = m\<lparr> rm_payload_budget_waits := rm_payload_budget_waits m + 1 \<rparr> in
          (case acquire (max payload_len 1) of
             Acquired \<Rightarrow> (Inr (), m)
           | Acquired_Late \<Rightarrow> (Inr (), late)
           | Budget_Closed \<Rightarrow> (Inl Other_Error, m)
           | Budget_Closed_Late \<Rightarrow> (Inl Other_Error, late)))"

definition header_timeout :: "io_kind \<Rightarrow> bool \<Rightarrow> receive_metrics \<Rightarrow> receive_metrics" where
  "header_timeout kind progressed m =
     (if kind \<noteq> Timed_Out then m
      else if progressed then m\<lparr> rm_frame_read_timeouts := rm_frame_read_timeouts m + 1 \<rparr>
      else m\<lparr> rm_idle_timeouts := rm_idle_timeouts m + 1 \<rparr>)"

text \<open>The branch for a header too short for its two words stands for a panic; a header of
  \<^verbatim>\<open>FRAME_HEADER\<close> bytes never takes it.\<close>

definition read_frame_budgeted_with_metrics ::
  "(u32 \<Rightarrow> acquisition) option \<Rightarrow> bool \<Rightarrow> receive_metrics \<Rightarrow> byte_stream \<Rightarrow>
   (io_kind + bytes) \<times> receive_metrics \<times> byte_stream" where
  "read_frame_budgeted_with_metrics budget deadline m s =
     (case read_exact_with_deadline deadline [] FRAME_HEADER s of
        (Inl (kind, progressed), s) \<Rightarrow> (Inl kind, header_timeout kind progressed m, s)
      | (Inr header, s) \<Rightarrow>
          (case do { (mg, d) \<leftarrow> dec_u32 header; (payload_len, d) \<leftarrow> dec_u32 d; Some (mg, payload_len) } of
             None \<Rightarrow> (Inl Other_Error, m, s)
           | Some (mg, payload_len) \<Rightarrow>
               if mg \<noteq> MAGIC_PEER \<or> payload_len > MAX_PEER_PAYLOAD then (Inl Invalid_Data, m, s)
               else (case acquire_budget budget payload_len m of
                       (Inl kind, m) \<Rightarrow> (Inl kind, m, s)
                     | (Inr _, m) \<Rightarrow>
                         (case read_exact_with_deadline deadline [] (unat payload_len) s of
                            (Inl (kind, _), s) \<Rightarrow> (Inl kind, header_timeout kind True m, s)
                          | (Inr payload, s) \<Rightarrow> (Inr (header @ payload), m, s)))))"

definition no_metrics :: receive_metrics where
  "no_metrics = \<lparr> rm_payload_budget_waits = 0, rm_frame_read_timeouts = 0, rm_idle_timeouts = 0 \<rparr>"

definition read_frame :: "byte_stream \<Rightarrow> (io_kind + bytes) \<times> byte_stream" where
  "read_frame s = (case read_frame_budgeted_with_metrics None False no_metrics s of (r, _, s) \<Rightarrow> (r, s))"

section \<open>Decoding and identity\<close>

definition decode_frame ::
  "env \<Rightarrow> peer_envelope prost \<Rightarrow> host_id option \<Rightarrow> bytes \<Rightarrow> io_kind + (host_id \<times> peer_msg)" where
  "decode_frame E P authenticated frame =
     (case decode_peer E P frame of
        None \<Rightarrow> Inl Invalid_Data
      | Some (from, msg) \<Rightarrow>
          if (case authenticated of None \<Rightarrow> False | Some identity \<Rightarrow> identity \<noteq> from) then Inl Permission_Denied
          else Inr (from, msg))"

definition decode_routed_frame ::
  "env \<Rightarrow> peer_envelope prost \<Rightarrow> host_id option \<Rightarrow> host_id \<Rightarrow> bytes \<Rightarrow> io_kind + (host_id \<times> peer_msg)" where
  "decode_routed_frame E P authenticated recipient frame =
     (case decode_peer_routed E P frame of
        None \<Rightarrow> Inl Invalid_Data
      | Some (from, to, msg) \<Rightarrow>
          if (case authenticated of None \<Rightarrow> False | Some identity \<Rightarrow> identity \<noteq> from) \<or> to \<noteq> recipient
          then Inl Permission_Denied
          else Inr (from, msg))"

datatype decode_policy = Inline | Blocking_Above nat

text \<open>A frame moved to the blocking pool is decoded there, unless its task is lost.\<close>

definition decode_by_policy ::
  "decode_policy \<Rightarrow> bool \<Rightarrow> (bytes \<Rightarrow> io_kind + 'a) \<Rightarrow> bytes \<Rightarrow> io_kind + 'a" where
  "decode_by_policy policy lost dec frame =
     (case policy of
        Blocking_Above threshold \<Rightarrow>
          if length frame \<ge> threshold then (if lost then Inl Other_Error else dec frame) else dec frame
      | Inline \<Rightarrow> dec frame)"

section \<open>The receive loops\<close>

record receive_env =
  rv_deadline :: bool
  rv_budget :: "(nat \<Rightarrow> u32 \<Rightarrow> acquisition) option"
  rv_policy :: decode_policy
  rv_task_lost :: "nat \<Rightarrow> bool"
  rv_authorized :: "nat \<Rightarrow> host_id \<Rightarrow> bool"

lemma read_exact_bytes:
  assumes "read_exact_with_deadline deadline acc n s = (Inr bs, s')"
  shows "bs @ stream_bytes s' = acc @ stream_bytes s" "length bs = length acc + n"
  using assms
  by (induction deadline acc n s rule: read_exact_with_deadline.induct) (auto split: if_splits read_event.splits)

lemma read_frame_bytes:
  assumes "read_frame_budgeted_with_metrics budget deadline m s = (Inr frame, m', s')"
  shows "frame @ stream_bytes s' = stream_bytes s" "FRAME_HEADER \<le> length frame"
    "length (stream_bytes s') < length (stream_bytes s)"
proof -
  from assms obtain header t payload len where
    h: "read_exact_with_deadline deadline [] FRAME_HEADER s = (Inr header, t)"
    and p: "read_exact_with_deadline deadline [] (unat (len :: u32)) t = (Inr payload, s')" and f: "frame = header @ payload"
    by (auto simp: read_frame_budgeted_with_metrics_def split: prod.splits sum.splits option.splits if_splits)
  show "frame @ stream_bytes s' = stream_bytes s" "FRAME_HEADER \<le> length frame"
    using read_exact_bytes [OF h] read_exact_bytes [OF p] by (simp_all add: f)
  then have "length (stream_bytes s) = length frame + length (stream_bytes s')" by (metis length_append)
  then show "length (stream_bytes s') < length (stream_bytes s)"
    using \<open>FRAME_HEADER \<le> length frame\<close> unfolding FRAME_HEADER_def by linarith
qed

function receive_frames ::
  "(bytes \<Rightarrow> io_kind + (host_id \<times> peer_msg)) \<Rightarrow> receive_env \<Rightarrow> nat \<Rightarrow> receive_metrics \<Rightarrow> byte_stream \<Rightarrow>
   (host_id \<times> peer_msg) list \<times> io_kind \<times> receive_metrics" where
  "receive_frames dec V i m s =
     (case read_frame_budgeted_with_metrics (map_option (\<lambda>b. b i) (rv_budget V)) (rv_deadline V) m s of
        (Inl kind, m, s) \<Rightarrow> ([], kind, m)
      | (Inr frame, m, s) \<Rightarrow>
          (case decode_by_policy (rv_policy V) (rv_task_lost V i) dec frame of
             Inl kind \<Rightarrow> ([], kind, m)
           | Inr (from, msg) \<Rightarrow>
               if \<not> rv_authorized V i from then ([], Permission_Denied, m)
               else (case receive_frames dec V (Suc i) m s of (ds, kind, m) \<Rightarrow> ((from, msg) # ds, kind, m))))"
  by pat_completeness auto

termination
proof (relation "measure (\<lambda>(dec, V, i, m, s). length (stream_bytes s))", goal_cases)
  case (2 dec V i m s x r y frame m' s')
  then show ?case by (auto dest!: read_frame_bytes(3) [OF sym])
qed simp

declare receive_frames.simps [simp del]

definition receive_loop_inner ::
  "env \<Rightarrow> peer_envelope prost \<Rightarrow> host_id option \<Rightarrow> receive_env \<Rightarrow> receive_metrics \<Rightarrow> byte_stream \<Rightarrow>
   (host_id \<times> peer_msg) list \<times> io_kind \<times> receive_metrics" where
  "receive_loop_inner E P authenticated V m s = receive_frames (decode_frame E P authenticated) V 0 m s"

definition receive_routed_loop_with_limits_and_metrics ::
  "env \<Rightarrow> peer_envelope prost \<Rightarrow> host_id option \<Rightarrow> host_id \<Rightarrow> decode_policy \<Rightarrow> (nat \<Rightarrow> bool) \<Rightarrow>
   (nat \<Rightarrow> u32 \<Rightarrow> acquisition) \<Rightarrow> (nat \<Rightarrow> host_id \<Rightarrow> bool) \<Rightarrow> receive_metrics \<Rightarrow> byte_stream \<Rightarrow>
   (host_id \<times> peer_msg) list \<times> io_kind \<times> receive_metrics" where
  "receive_routed_loop_with_limits_and_metrics E P authenticated recipient policy lost budget authorized m s =
     receive_frames (decode_routed_frame E P authenticated recipient)
       \<lparr> rv_deadline = True, rv_budget = Some budget, rv_policy = policy, rv_task_lost = lost, rv_authorized = authorized \<rparr> 0 m s"

text \<open>The unrouted entry points, which differ in the limits they set.\<close>

definition receive_loop_while_authorized_with_limits_and_metrics ::
  "env \<Rightarrow> peer_envelope prost \<Rightarrow> host_id option \<Rightarrow> decode_policy \<Rightarrow> (nat \<Rightarrow> bool) \<Rightarrow>
   (nat \<Rightarrow> u32 \<Rightarrow> acquisition) \<Rightarrow> (nat \<Rightarrow> host_id \<Rightarrow> bool) \<Rightarrow> receive_metrics \<Rightarrow> byte_stream \<Rightarrow>
   (host_id \<times> peer_msg) list \<times> io_kind \<times> receive_metrics" where
  "receive_loop_while_authorized_with_limits_and_metrics E P authenticated policy lost budget authorized m s =
     receive_loop_inner E P authenticated
       \<lparr> rv_deadline = True, rv_budget = Some budget, rv_policy = policy, rv_task_lost = lost, rv_authorized = authorized \<rparr> m s"

definition receive_loop_while_authorized_with_limits ::
  "env \<Rightarrow> peer_envelope prost \<Rightarrow> host_id option \<Rightarrow> decode_policy \<Rightarrow> (nat \<Rightarrow> bool) \<Rightarrow>
   (nat \<Rightarrow> u32 \<Rightarrow> acquisition) \<Rightarrow> (nat \<Rightarrow> host_id \<Rightarrow> bool) \<Rightarrow> byte_stream \<Rightarrow>
   (host_id \<times> peer_msg) list \<times> io_kind \<times> receive_metrics" where
  "receive_loop_while_authorized_with_limits E P authenticated policy lost budget authorized s =
     receive_loop_while_authorized_with_limits_and_metrics E P authenticated policy lost budget authorized no_metrics s"

definition receive_loop_while_authorized_with_timeout ::
  "env \<Rightarrow> peer_envelope prost \<Rightarrow> host_id option \<Rightarrow> decode_policy \<Rightarrow> (nat \<Rightarrow> bool) \<Rightarrow> (nat \<Rightarrow> host_id \<Rightarrow> bool) \<Rightarrow>
   byte_stream \<Rightarrow> (host_id \<times> peer_msg) list \<times> io_kind \<times> receive_metrics" where
  "receive_loop_while_authorized_with_timeout E P authenticated policy lost authorized s =
     receive_loop_inner E P authenticated
       \<lparr> rv_deadline = True, rv_budget = None, rv_policy = policy, rv_task_lost = lost, rv_authorized = authorized \<rparr> no_metrics s"

definition receive_loop_while_authorized ::
  "env \<Rightarrow> peer_envelope prost \<Rightarrow> host_id option \<Rightarrow> decode_policy \<Rightarrow> (nat \<Rightarrow> bool) \<Rightarrow> (nat \<Rightarrow> host_id \<Rightarrow> bool) \<Rightarrow>
   byte_stream \<Rightarrow> (host_id \<times> peer_msg) list \<times> io_kind \<times> receive_metrics" where
  "receive_loop_while_authorized E P authenticated policy lost authorized s =
     receive_loop_inner E P authenticated
       \<lparr> rv_deadline = False, rv_budget = None, rv_policy = policy, rv_task_lost = lost, rv_authorized = authorized \<rparr> no_metrics s"

definition receive_loop_with_timeout ::
  "env \<Rightarrow> peer_envelope prost \<Rightarrow> host_id option \<Rightarrow> decode_policy \<Rightarrow> (nat \<Rightarrow> bool) \<Rightarrow>
   byte_stream \<Rightarrow> (host_id \<times> peer_msg) list \<times> io_kind \<times> receive_metrics" where
  "receive_loop_with_timeout E P authenticated policy lost s =
     receive_loop_while_authorized_with_timeout E P authenticated policy lost (\<lambda>_ _. True) s"

definition receive_loop ::
  "env \<Rightarrow> peer_envelope prost \<Rightarrow> host_id option \<Rightarrow> decode_policy \<Rightarrow> (nat \<Rightarrow> bool) \<Rightarrow>
   byte_stream \<Rightarrow> (host_id \<times> peer_msg) list \<times> io_kind \<times> receive_metrics" where
  "receive_loop E P authenticated policy lost s = receive_loop_while_authorized E P authenticated policy lost (\<lambda>_ _. True) s"

section \<open>Reading under any chunking\<close>

text \<open>A calm stream fails no read: every chunk carries data, and a wait outlasts no deadline.\<close>

fun calm :: "bool \<Rightarrow> byte_stream \<Rightarrow> bool" where
  "calm deadline [] \<longleftrightarrow> True"
| "calm deadline (Data bs # s) \<longleftrightarrow> bs \<noteq> [] \<and> calm deadline s"
| "calm deadline (Pause # s) \<longleftrightarrow> \<not> deadline \<and> calm deadline s"
| "calm deadline (Read_Failed _ # s) \<longleftrightarrow> False"

lemma read_exact_calm:
  assumes "calm deadline s" "n \<le> length (stream_bytes s)"
  shows "\<exists>s'. read_exact_with_deadline deadline acc n s = (Inr (acc @ take n (stream_bytes s)), s') \<and> calm deadline s' \<and>
    stream_bytes s' = drop n (stream_bytes s)"
  using assms
proof (induction deadline acc n s rule: read_exact_with_deadline.induct)
  case (2 deadline acc n ev s)
  show ?case
  proof (cases "n = 0")
    case False
    then show ?thesis using 2 by (cases ev) auto
  qed (use 2 in simp)
qed simp

lemma read_exact_short:
  assumes "calm deadline s" "length (stream_bytes s) < n"
  shows "\<exists>p s'. read_exact_with_deadline deadline acc n s = (Inl (Unexpected_Eof, p), s')"
  using assms
proof (induction deadline acc n s rule: read_exact_with_deadline.induct)
  case (2 deadline acc n ev s)
  then show ?case by (cases ev) auto
qed simp

definition budget_open :: "(nat \<Rightarrow> u32 \<Rightarrow> acquisition) option \<Rightarrow> bool" where
  "budget_open budget \<longleftrightarrow> (\<forall>b i n. budget = Some b \<longrightarrow> b i n \<in> {Acquired, Acquired_Late})"

lemma acquire_open:
  "budget_open b \<Longrightarrow> \<exists>m'. acquire_budget (map_option (\<lambda>b. b i) b) len m = (Inr (), m')"
proof (cases b)
  case (Some a)
  assume "budget_open b"
  then have "a i (max len 1) \<in> {Acquired, Acquired_Late}" by (simp add: budget_open_def Some)
  then show ?thesis by (auto simp: acquire_budget_def Let_def Some)
qed (simp add: acquire_budget_def)

text \<open>A well-headed frame: what the reader needs to know of a frame's first bytes.\<close>

definition headed :: "bytes \<Rightarrow> bool" where
  "headed f \<longleftrightarrow> (\<exists>len rest. f = enc_u32 MAGIC_PEER @ enc_u32 len @ rest \<and> len \<le> MAX_PEER_PAYLOAD \<and> length f = FRAME_HEADER + unat len)"

lemma headed_header:
  assumes "headed f" "FRAME_HEADER \<le> length t" "prefix t f"
  shows "\<exists>len. do { (mg, d) \<leftarrow> dec_u32 (take FRAME_HEADER t); (payload_len, d) \<leftarrow> dec_u32 d; Some (mg, payload_len) } = Some (MAGIC_PEER, len) \<and>
    len \<le> MAX_PEER_PAYLOAD \<and> length f = FRAME_HEADER + unat len"
proof -
  from assms(1) obtain len rest where f: "f = enc_u32 MAGIC_PEER @ enc_u32 len @ rest" "len \<le> MAX_PEER_PAYLOAD"
    "length f = FRAME_HEADER + unat len" unfolding headed_def by blast
  have "take FRAME_HEADER t = take FRAME_HEADER f" using assms(2,3) by (auto simp: prefix_def)
  also have "\<dots> = enc_u32 MAGIC_PEER @ enc_u32 len @ take (FRAME_HEADER - 8) rest" by (simp add: f(1) FRAME_HEADER_def)
  finally show ?thesis using f(2,3) by simp
qed

lemma read_frame_calm:
  assumes "calm deadline s" "budget_open b" "headed f" "stream_bytes s = f @ rest"
  shows "\<exists>m' s'. read_frame_budgeted_with_metrics (map_option (\<lambda>b. b i) b) deadline m s = (Inr f, m', s') \<and>
    calm deadline s' \<and> stream_bytes s' = rest"
proof -
  have len12: "FRAME_HEADER \<le> length f" using assms(3) by (auto simp: headed_def)
  from headed_header [OF assms(3) len12 prefix_order.refl] obtain len where h:
    "do { (mg, d) \<leftarrow> dec_u32 (take FRAME_HEADER f); (payload_len, d) \<leftarrow> dec_u32 d; Some (mg, payload_len) } = Some (MAGIC_PEER, len)"
    "len \<le> MAX_PEER_PAYLOAD" "length f = FRAME_HEADER + unat len" by blast
  from read_exact_calm [OF assms(1), of FRAME_HEADER "[]"] len12 obtain t where t:
    "read_exact_with_deadline deadline [] FRAME_HEADER s = (Inr (take FRAME_HEADER f), t)" "calm deadline t"
    "stream_bytes t = drop FRAME_HEADER f @ rest" by (auto simp: assms(4))
  from acquire_open [OF assms(2), of i len m] obtain m' where m': "acquire_budget (map_option (\<lambda>b. b i) b) len m = (Inr (), m')" by blast
  from read_exact_calm [OF t(2), of "unat len" "[]"] h(3) obtain s' where s':
    "read_exact_with_deadline deadline [] (unat len) t = (Inr (drop FRAME_HEADER f), s')" "calm deadline s'" "stream_bytes s' = rest"
    by (auto simp: t(3))
  show ?thesis using t(1) h(1,2) m' s' by (simp add: read_frame_budgeted_with_metrics_def)
qed

lemma read_frame_cut:
  assumes "calm deadline s" "budget_open b" "headed f" "strict_prefix (stream_bytes s) f"
  shows "\<exists>m' s'. read_frame_budgeted_with_metrics (map_option (\<lambda>b. b i) b) deadline m s = (Inl Unexpected_Eof, m', s')"
proof (cases "length (stream_bytes s) < FRAME_HEADER")
  case True
  from read_exact_short [OF assms(1) this, of "[]"] show ?thesis by (auto simp: read_frame_budgeted_with_metrics_def)
next
  case False
  then have le: "FRAME_HEADER \<le> length (stream_bytes s)" by simp
  from headed_header [OF assms(3) le] assms(4) obtain len where h:
    "do { (mg, d) \<leftarrow> dec_u32 (take FRAME_HEADER (stream_bytes s)); (payload_len, d) \<leftarrow> dec_u32 d; Some (mg, payload_len) } = Some (MAGIC_PEER, len)"
    "len \<le> MAX_PEER_PAYLOAD" "length f = FRAME_HEADER + unat len" unfolding strict_prefix_def by blast
  from read_exact_calm [OF assms(1) le, of "[]"] obtain t where t:
    "read_exact_with_deadline deadline [] FRAME_HEADER s = (Inr (take FRAME_HEADER (stream_bytes s)), t)" "calm deadline t"
    "stream_bytes t = drop FRAME_HEADER (stream_bytes s)" by auto
  from acquire_open [OF assms(2), of i len m] obtain m' where m': "acquire_budget (map_option (\<lambda>b. b i) b) len m = (Inr (), m')" by blast
  have "length (stream_bytes t) < unat len" using prefix_length_less [OF assms(4)] h(3) le by (simp add: t(3))
  from read_exact_short [OF t(2) this, of "[]"] show ?thesis
    using t(1) h(1,2) m' by (auto simp: read_frame_budgeted_with_metrics_def)
qed

section \<open>The loop over any frame decoder\<close>

text \<open>What a frame decoder owes the loop: it accepts exactly the bytes that carry a message, and those bytes
  are well headed.\<close>

locale frame_decoder =
  fixes dec :: "bytes \<Rightarrow> io_kind + (host_id \<times> peer_msg)"
    and carries :: "host_id \<times> peer_msg \<Rightarrow> bytes \<Rightarrow> bool"
  assumes dec_iff: "dec f = Inr d \<longleftrightarrow> carries d f"
    and carries_headed: "carries d f \<Longrightarrow> headed f"
begin

lemma loop_sound:
  assumes "receive_frames dec V i m s = (ds, kind, m')"
  shows "\<exists>frames rest. stream_bytes s = concat frames @ rest \<and> list_all2 carries ds frames \<and>
    (\<forall>j < length ds. rv_authorized V (i + j) (fst (ds ! j)))"
  using assms
proof (induction "length (stream_bytes s)" arbitrary: i m s ds kind m' rule: less_induct)
  case less
  show ?case
  proof (cases "ds = []")
    case True
    then show ?thesis by (intro exI [of _ "[]"] exI [of _ "stream_bytes s"]) simp
  next
    case False
    with less.prems obtain frame m1 s1 d ds' where
      rf: "read_frame_budgeted_with_metrics (map_option (\<lambda>b. b i) (rv_budget V)) (rv_deadline V) m s = (Inr frame, m1, s1)"
      and dec: "decode_by_policy (rv_policy V) (rv_task_lost V i) dec frame = Inr d"
      and auth: "rv_authorized V i (fst d)" and ds: "ds = d # ds'" and rest: "receive_frames dec V (Suc i) m1 s1 = (ds', kind, m')"
      by (subst (asm) receive_frames.simps) (auto split: prod.splits sum.splits if_splits)
    have bytes: "stream_bytes s = frame @ stream_bytes s1" using read_frame_bytes(1) [OF rf] by simp
    from less.hyps [OF read_frame_bytes(3) [OF rf] rest] obtain frames tail where ih:
      "stream_bytes s1 = concat frames @ tail" "list_all2 carries ds' frames" "\<forall>j < length ds'. rv_authorized V (Suc i + j) (fst (ds' ! j))"
      by blast
    have "carries d frame" using dec by (auto simp: decode_by_policy_def dec_iff split: decode_policy.splits if_splits)
    then have "list_all2 carries ds (frame # frames)" using ih(2) by (simp add: ds)
    moreover have "\<forall>j < length ds. rv_authorized V (i + j) (fst (ds ! j))"
      using ih(3) auth by (auto simp: ds nth_Cons split: nat.splits)
    ultimately show ?thesis
      by (intro exI [of _ "frame # frames"] exI [of _ tail]) (simp add: bytes ih(1))
  qed
qed

lemma loop_complete:
  assumes "list_all2 carries ds frames" "stream_bytes s = concat frames @ torn" "calm (rv_deadline V) s"
    "budget_open (rv_budget V)" "\<forall>j. \<not> rv_task_lost V j" "\<forall>j < length ds. rv_authorized V (i + j) (fst (ds ! j))"
    "headed f" "strict_prefix torn f"
  shows "\<exists>m'. receive_frames dec V i m s = (ds, Unexpected_Eof, m')"
  using assms(1-3,6)
proof (induction ds frames arbitrary: i m s rule: list_all2_induct)
  case Nil
  then have "strict_prefix (stream_bytes s) f" using assms(8) by simp
  from read_frame_cut [OF Nil.prems(2) assms(4,7) this, of i m] show ?case
    by (subst receive_frames.simps) auto
next
  case (Cons d ds f fs)
  have "stream_bytes s = f @ concat fs @ torn" using Cons.prems(1) by simp
  from read_frame_calm [OF Cons.prems(2) assms(4) carries_headed [OF Cons.hyps(1)] this, of i m] obtain m1 s1 where
    rf: "read_frame_budgeted_with_metrics (map_option (\<lambda>b. b i) (rv_budget V)) (rv_deadline V) m s = (Inr f, m1, s1)"
    and calm: "calm (rv_deadline V) s1" and bytes: "stream_bytes s1 = concat fs @ torn" by blast
  have dec: "decode_by_policy (rv_policy V) (rv_task_lost V i) dec f = Inr d"
    using Cons.hyps(1) assms(5) by (simp add: decode_by_policy_def dec_iff split: decode_policy.splits)
  have "rv_authorized V (i + 0) (fst ((d # ds) ! 0))" "\<forall>j < length ds. rv_authorized V (i + Suc j) (fst ((d # ds) ! Suc j))"
    using Cons.prems(3) by (blast, fastforce)
  then have auth: "rv_authorized V i (fst d)" "\<forall>j < length ds. rv_authorized V (Suc i + j) (fst (ds ! j))" by simp_all
  from Cons.IH [OF bytes calm auth(2), of m1] obtain m' where "receive_frames dec V (Suc i) m1 s1 = (ds, Unexpected_Eof, m')" by blast
  then show ?case using rf dec auth(1) by (subst receive_frames.simps) (auto split: prod.splits)
qed

end

text \<open>Both of the transport's decoders meet the contract.\<close>

definition identity_ok :: "host_id option \<Rightarrow> host_id \<Rightarrow> bool" where
  "identity_ok authenticated from \<longleftrightarrow> (\<forall>identity. authenticated = Some identity \<longrightarrow> identity = from)"

lemma encoded_headed: "encode_peer_routed E P from to msg = Some f \<Longrightarrow> headed f"
  unfolding headed_def by (erule encoded_shape) blast

lemma peer_carries_headed: "peer_carries E P from to msg f \<Longrightarrow> headed f"
  by (auto simp: peer_carries_def dest: encoded_headed)

interpretation plain: frame_decoder "decode_frame E P authenticated"
  "\<lambda>d f. identity_ok authenticated (fst d) \<and> (\<exists>to. peer_carries E P (fst d) to (snd d) f)" for E P authenticated
proof unfold_locales
  show "decode_frame E P authenticated f = Inr d \<longleftrightarrow> identity_ok authenticated (fst d) \<and> (\<exists>to. peer_carries E P (fst d) to (snd d) f)" for f d
    unfolding decode_peer_iff [symmetric]
    by (cases d) (auto simp: decode_frame_def identity_ok_def split: option.splits if_splits)
qed (auto intro: peer_carries_headed)

interpretation routed: frame_decoder "decode_routed_frame E P authenticated recipient"
  "\<lambda>d f. identity_ok authenticated (fst d) \<and> peer_carries E P (fst d) recipient (snd d) f" for E P authenticated recipient
proof unfold_locales
  show "decode_routed_frame E P authenticated recipient f = Inr d \<longleftrightarrow>
    identity_ok authenticated (fst d) \<and> peer_carries E P (fst d) recipient (snd d) f" for f d
    unfolding decode_peer_routed_iff [symmetric]
    by (cases d) (auto simp: decode_routed_frame_def identity_ok_def split: option.splits if_splits)
qed (auto intro: peer_carries_headed)

lemma routed_loop_delivers:
  assumes "prost_roundtrips P" "length frames = length ds"
    and "\<And>j. j < length ds \<Longrightarrow> encode_peer_routed E P (fst (ds ! j)) recipient (snd (ds ! j)) = Some (frames ! j)"
    and "\<And>j. j < length ds \<Longrightarrow> peer_msg_ok (snd (ds ! j)) \<and> authorized j (fst (ds ! j)) \<and> identity_ok authenticated (fst (ds ! j))"
    and "encode_peer_routed E P next_sender next_recipient next_msg = Some f" "strict_prefix torn f"
    and "stream_bytes s = concat frames @ torn" "calm True s"
    and "\<And>i n. budget i n \<in> {Acquired, Acquired_Late}" "\<And>j. \<not> lost j"
  shows "\<exists>m'. receive_routed_loop_with_limits_and_metrics E P authenticated recipient policy lost budget authorized m s =
    (ds, Unexpected_Eof, m')"
proof -
  define V where "V = \<lparr> rv_deadline = True, rv_budget = Some budget, rv_policy = policy, rv_task_lost = lost, rv_authorized = authorized \<rparr>"
  have "list_all2 (\<lambda>d f. identity_ok authenticated (fst d) \<and> peer_carries E P (fst d) recipient (snd d) f) ds frames"
    using assms(2-4) by (simp add: list_all2_conv_all_nth prost_peer_carries [OF assms(1)])
  moreover have "headed f" by (rule encoded_headed [OF assms(5)])
  moreover have "budget_open (rv_budget V)" using assms(9) by (simp add: budget_open_def V_def)
  ultimately have "\<exists>m'. receive_frames (decode_routed_frame E P authenticated recipient) V 0 m s = (ds, Unexpected_Eof, m')"
    using assms(4,6-8,10) by (intro routed.loop_complete [where frames = frames and torn = torn and f = f]) (auto simp: V_def)
  then show ?thesis by (simp add: receive_routed_loop_with_limits_and_metrics_def V_def)
qed

definition demo_reads :: "bytes \<Rightarrow> byte_stream" where
  "demo_reads f = [Data (take 3 f), Data (drop 3 f @ take 5 f)]"

lemma demo_frame:
  obtains f where "encode_peer_routed demo_env demo_peer_prost 1 2 (Released 7 3) = Some f" "strict_prefix (take 5 f) f"
    "calm True (demo_reads f)" "stream_bytes (demo_reads f) = concat [f] @ take 5 f"
proof -
  have "\<exists>f. encode_peer_routed demo_env demo_peer_prost 1 2 (Released 7 3) = Some f"
    by (simp add: encode_peer_routed_def demo_peer_prost_def envelope_nums_def frame_shape fits_u32_def MAX_PEER_PAYLOAD_def)
  then obtain f where f: "encode_peer_routed demo_env demo_peer_prost 1 2 (Released 7 3) = Some f" by blast
  then have "headed f" by (rule encoded_headed)
  then have len: "12 \<le> length f" by (auto simp: headed_def FRAME_HEADER_def)
  have "strict_prefix (take 5 f) f" using len by (auto simp: strict_prefix_def take_is_prefix dest: arg_cong [of _ _ length])
  moreover have "calm True (demo_reads f)" "stream_bytes (demo_reads f) = concat [f] @ take 5 f" using len by (auto simp: demo_reads_def)
  ultimately show ?thesis using f that by blast
qed

section \<open>Properties\<close>

text \<open>
  C6: Whatever arrives on a connection, the routed receive loop delivers only genuine messages.  What it
  delivers, in order, is exactly what the first bytes of the stream encode, frame by frame: each delivered message's
  canonical frame, addressed to this recipient, stands at its place in the stream.  Each sender is the identity the
  transport established, where it established one, and was authorized when its frame was received.
\<close>

theorem routed_loop_sound:
  assumes "receive_routed_loop_with_limits_and_metrics E P authenticated recipient policy lost budget authorized m s = (ds, kind, m')"
  shows "\<exists>frames rest. stream_bytes s = concat frames @ rest \<and> length frames = length ds \<and>
    (\<forall>j < length ds. encode_peer_routed E P (fst (ds ! j)) recipient (snd (ds ! j)) = Some (frames ! j) \<and>
       authorized j (fst (ds ! j)) \<and> (\<forall>identity. authenticated = Some identity \<longrightarrow> fst (ds ! j) = identity))"
proof -
  from routed.loop_sound [OF assms [unfolded receive_routed_loop_with_limits_and_metrics_def]] obtain frames rest where
    f: "stream_bytes s = concat frames @ rest"
      "list_all2 (\<lambda>d f. identity_ok authenticated (fst d) \<and> peer_carries E P (fst d) recipient (snd d) f) ds frames"
      "\<forall>j < length ds. authorized j (fst (ds ! j))" by auto
  then show ?thesis
    by (intro exI [of _ frames] exI [of _ rest]) (auto simp: list_all2_conv_all_nth identity_ok_def peer_carries_def)
qed

theorem routed_loop_sound_witness:
  "\<exists>f m'. receive_routed_loop_with_limits_and_metrics demo_env demo_peer_prost (Some 1) 2 (Blocking_Above 20) (\<lambda>_. False)
      (\<lambda>_ _. Acquired_Late) (\<lambda>_ _. True) no_metrics (demo_reads f) = ([(1, Released 7 3)], Unexpected_Eof, m') \<and>
    (\<exists>frames rest. stream_bytes (demo_reads f) = concat frames @ rest \<and> length frames = 1 \<and>
       encode_peer_routed demo_env demo_peer_prost 1 2 (Released 7 3) = Some (frames ! 0))"
proof -
  from demo_frame obtain f where f: "encode_peer_routed demo_env demo_peer_prost 1 2 (Released 7 3) = Some f"
    "strict_prefix (take 5 f) f" "calm True (demo_reads f)" "stream_bytes (demo_reads f) = concat [f] @ take 5 f" .
  have "\<exists>m'. receive_routed_loop_with_limits_and_metrics demo_env demo_peer_prost (Some 1) 2 (Blocking_Above 20) (\<lambda>_. False)
      (\<lambda>_ _. Acquired_Late) (\<lambda>_ _. True) no_metrics (demo_reads f) = ([(1, Released 7 3)], Unexpected_Eof, m')"
    using routed_loop_delivers [OF demo_peer_prost_ok, of "[f]" "[(1, Released 7 3)]" demo_env 2 "\<lambda>_ _. True" "Some 1" 1 2 "Released 7 3" f
      "take 5 f" "demo_reads f" "\<lambda>_ _. Acquired_Late" "\<lambda>_. False" "Blocking_Above 20" no_metrics] f by (auto simp: identity_ok_def)
  then obtain m' where loop: "receive_routed_loop_with_limits_and_metrics demo_env demo_peer_prost (Some 1) 2 (Blocking_Above 20) (\<lambda>_. False)
      (\<lambda>_ _. Acquired_Late) (\<lambda>_ _. True) no_metrics (demo_reads f) = ([(1, Released 7 3)], Unexpected_Eof, m')" ..
  from routed_loop_sound [OF loop] loop show ?thesis by auto
qed

text \<open>
  C16: Messages survive any chunking.  If the frames of a sequence of messages arrive on a connection, cut into
  reads in any way, and the connection then ends anywhere inside a further frame, the routed receive loop delivers
  exactly those messages, in order, and reports the end of the stream; nothing of the torn frame is delivered.
  This needs a payload budget that stays open, decode tasks that are not lost and senders that stay authorized.
\<close>

theorem routed_loop_complete:
  assumes "prost_roundtrips P" "length frames = length ds"
    and "\<And>j. j < length ds \<Longrightarrow> encode_peer_routed E P (fst (ds ! j)) recipient (snd (ds ! j)) = Some (frames ! j)"
    and "\<And>j. j < length ds \<Longrightarrow> peer_msg_ok (snd (ds ! j)) \<and> authorized j (fst (ds ! j)) \<and> identity_ok authenticated (fst (ds ! j))"
    and "encode_peer_routed E P next_sender next_recipient next_msg = Some f" "strict_prefix torn f"
    and "stream_bytes s = concat frames @ torn" "calm True s"
    and "\<And>i n. budget i n \<in> {Acquired, Acquired_Late}" "\<And>j. \<not> lost j"
  shows "\<exists>m'. receive_routed_loop_with_limits_and_metrics E P authenticated recipient policy lost budget authorized m s =
    (ds, Unexpected_Eof, m')"
  using assms by (rule routed_loop_delivers)

theorem routed_loop_complete_witness:
  "\<exists>f m'. receive_routed_loop_with_limits_and_metrics demo_env demo_peer_prost (Some 1) 2 (Blocking_Above 20) (\<lambda>_. False)
      (\<lambda>_ _. Acquired_Late) (\<lambda>_ _. True) no_metrics (demo_reads f) = ([(1, Released 7 3)], Unexpected_Eof, m')"
proof -
  from demo_frame obtain f where f: "encode_peer_routed demo_env demo_peer_prost 1 2 (Released 7 3) = Some f"
    "strict_prefix (take 5 f) f" "calm True (demo_reads f)" "stream_bytes (demo_reads f) = concat [f] @ take 5 f" .
  have "\<exists>m'. receive_routed_loop_with_limits_and_metrics demo_env demo_peer_prost (Some 1) 2 (Blocking_Above 20) (\<lambda>_. False)
      (\<lambda>_ _. Acquired_Late) (\<lambda>_ _. True) no_metrics (demo_reads f) = ([(1, Released 7 3)], Unexpected_Eof, m')"
    using routed_loop_complete [OF demo_peer_prost_ok, of "[f]" "[(1, Released 7 3)]" demo_env 2 "\<lambda>_ _. True" "Some 1" 1 2 "Released 7 3" f
      "take 5 f" "demo_reads f" "\<lambda>_ _. Acquired_Late" "\<lambda>_. False" "Blocking_Above 20" no_metrics] f by (auto simp: identity_ok_def)
  then show ?thesis by blast
qed

end
