(* ===== verification/Store_Retry.thy ===== *)
theory Store_Retry
  imports Object_Store
begin

text \<open>
  The engine's retrying store calls, \<^verbatim>\<open>crates/core/src/engine/store_retry.rs\<close>.  Each loop repeats a call
  while the store is unavailable; \<open>pause n\<close> is what the rest of the system does to the world during the
  delay after attempt \<open>n\<close>, and \<open>gap\<close> what it does between a conflict and the read that looks into it.  A result
  carries the number of retries, which the code adds to its counter.  The loops may run as long as the store is
  down, so they are partial functions; that they return once the outage ends is part of the theorem.
\<close>

partial_function (option) retry_loop ::
  "(nat \<Rightarrow> 'w \<Rightarrow> 'w) \<Rightarrow> ('w \<Rightarrow> 'w \<times> 'a store_result) \<Rightarrow> nat \<Rightarrow> 'w \<Rightarrow> ('w \<times> nat \<times> 'a store_result) option" where
  "retry_loop pause call n w =
     (case call w of (w, r) \<Rightarrow>
        if r = Inl (Fault Unavailable) then retry_loop pause call (n + 1) (pause n w) else Some (w, n, r))"

definition retry_get ::
  "'w store_ops \<Rightarrow> (nat \<Rightarrow> 'w \<Rightarrow> 'w) \<Rightarrow> string \<Rightarrow> nat \<Rightarrow> 'w \<Rightarrow> ('w \<times> nat \<times> (u64 \<times> bytes) option store_result) option" where
  "retry_get ops pause key = retry_loop pause (so_get ops key)"

definition retry_get_range ::
  "'w store_ops \<Rightarrow> (nat \<Rightarrow> 'w \<Rightarrow> 'w) \<Rightarrow> string \<Rightarrow> u64 \<Rightarrow> u64 \<Rightarrow> nat \<Rightarrow> 'w \<Rightarrow> ('w \<times> nat \<times> (u64 \<times> bytes) option store_result) option" where
  "retry_get_range ops pause key offset len = retry_loop pause (so_get_range ops key offset len)"

definition retry_put ::
  "'w store_ops \<Rightarrow> (nat \<Rightarrow> 'w \<Rightarrow> 'w) \<Rightarrow> string \<Rightarrow> bytes \<Rightarrow> nat \<Rightarrow> 'w \<Rightarrow> ('w \<times> nat \<times> u64 store_result) option" where
  "retry_put ops pause key bs = retry_loop pause (so_put ops key bs)"

partial_function (option) put_immutable ::
  "'w store_ops \<Rightarrow> (nat \<Rightarrow> 'w \<Rightarrow> 'w) \<Rightarrow> ('w \<Rightarrow> 'w) \<Rightarrow> string \<Rightarrow> bytes \<Rightarrow> nat \<Rightarrow> 'w \<Rightarrow> ('w \<times> nat \<times> u64 store_result) option" where
  "put_immutable ops pause gap key bs n w =
     (case so_put_cas ops key None bs w of (w, r) \<Rightarrow>
        (case r of
           Inr version \<Rightarrow> Some (w, n, Inr version)
         | Inl (Fault Unavailable) \<Rightarrow> put_immutable ops pause gap key bs (n + 1) (pause n w)
         | Inl (Fault (Cas_Conflict actual)) \<Rightarrow>
             do { (w, n, r) \<leftarrow> retry_get ops pause key n (gap w);
                  Some (w, n, case r of
                    Inl e \<Rightarrow> Inl e
                  | Inr None \<Rightarrow> Inl (Fault (Cas_Conflict actual))
                  | Inr (Some (version, found)) \<Rightarrow> if found = bs then Inr version else Inl (Fault (Cas_Conflict actual))) }
         | Inl Too_Large \<Rightarrow> Some (w, n, Inl Too_Large)))"

section \<open>What a returned result means\<close>

text \<open>Immutable objects stay: what others do never changes the value of a bound key.\<close>

definition keeps :: "('w \<Rightarrow> string \<Rightarrow> (u64 \<times> bytes) option) \<Rightarrow> string \<Rightarrow> ('w \<Rightarrow> 'w) \<Rightarrow> bool" where
  "keeps objects key f \<longleftrightarrow> (\<forall>w x. objects w key = Some x \<longrightarrow> objects (f w) key = Some x)"

text \<open>The verdicts of the immutable write, each with what it says about the store: success means that the key
  holds these bytes at the returned version, a conflict that it does not hold them, and a bound key
  keeps its value in any case.\<close>

definition immutable_outcome ::
  "('w \<Rightarrow> string \<Rightarrow> (u64 \<times> bytes) option) \<Rightarrow> string \<Rightarrow> bytes \<Rightarrow> (u64 \<times> bytes) option \<Rightarrow> 'w \<Rightarrow> u64 store_result \<Rightarrow> bool" where
  "immutable_outcome objects key bs before w r \<longleftrightarrow>
     (\<forall>v. r = Inr v \<longrightarrow> objects w key = Some (v, bs)) \<and> r \<noteq> Inl (Fault Unavailable) \<and>
     (\<forall>actual v. r = Inl (Fault (Cas_Conflict actual)) \<longrightarrow> objects w key \<noteq> Some (v, bs)) \<and>
     (\<forall>x. before = Some x \<longrightarrow> objects w key = Some x)"

lemma immutable_outcome_before:
  "immutable_outcome objects key bs b w r \<Longrightarrow> (\<And>x. a = Some x \<Longrightarrow> b = Some x) \<Longrightarrow> immutable_outcome objects key bs a w r"
  unfolding immutable_outcome_def by blast

lemmas retry_loop_induct = retry_loop.raw_induct [rotated, consumes 1, case_names step]

lemma retry_loop_result:
  assumes "retry_loop pause call n w = Some y"
    and "\<forall>w. Inv w \<longrightarrow> Inv (fst (call w))" "\<forall>n w. Inv w \<longrightarrow> Inv (pause n w)" "Inv w"
  shows "snd (snd y) \<noteq> Inl (Fault Unavailable) \<and> (\<exists>w1. Inv w1 \<and> call w1 = (fst y, snd (snd y)))"
  using assms
proof (induction pause call n w y rule: retry_loop_induct)
  case (step self pause call n w y)
  obtain w1 r where c: "call w = (w1, r)" by fastforce
  have inv: "Inv w1" using step.prems(1,3) c by (metis fst_conv)
  show ?case
  proof (cases "r = Inl (Fault Unavailable)")
    case True
    with step.hyps c have "self pause call (n + 1) (pause n w1) = Some y" by simp
    from step.IH [OF this step.prems(1,2)] inv step.prems(2) show ?thesis by blast
  next
    case False
    with step.hyps c have "y = (w1, n, r)" by simp
    with False c step.prems(3) show ?thesis by auto
  qed
qed

context versioned_store
begin

lemma retry_get_result:
  assumes "retry_get ops pause key n w = Some (w', m, r)" "\<forall>n. keeps objects key (pause n)"
  shows "r \<noteq> Inl (Fault Unavailable)" "r = Inr found \<Longrightarrow> found = objects w' key"
    "objects w key = Some x \<Longrightarrow> objects w' key = Some x"
proof -
  have get: "objects (fst (so_get ops key w)) = objects w" for w
    using get_objects [of key w] by (cases "so_get ops key w") auto
  define Inv where "Inv = (\<lambda>v. \<forall>x. objects w key = Some x \<longrightarrow> objects v key = Some x)"
  have "\<forall>v. Inv v \<longrightarrow> Inv (fst (so_get ops key v))" "\<forall>n v. Inv v \<longrightarrow> Inv (pause n v)" "Inv w"
    using get assms(2) by (auto simp: Inv_def keeps_def)
  from retry_loop_result [OF assms(1) [unfolded retry_get_def] this] obtain v where
    v: "r \<noteq> Inl (Fault Unavailable)" "Inv v" "so_get ops key v = (w', r)" by auto
  have same: "objects w' = objects v" using get_objects [OF v(3)] by simp
  show "r \<noteq> Inl (Fault Unavailable)" by (rule v(1))
  show "found = objects w' key" if "r = Inr found" using get_value v(3) that same by metis
  show "objects w' key = Some x" if "objects w key = Some x" using v(2) that by (simp add: Inv_def same)
qed

end

text \<open>A store whose reads fail only while it is unavailable.\<close>

locale retry_store = versioned_store +
  assumes get_fault: "so_get ops key w = (w', Inl e) \<Longrightarrow> e = Fault Unavailable"
begin

lemma looked_into:
  assumes "retry_get ops pause key n w = Some (w', m, r)" "\<forall>n. keeps objects key (pause n)"
  shows "\<exists>found. r = Inr found"
proof -
  from retry_loop_result [OF assms(1) [unfolded retry_get_def], of "\<lambda>_. True"] obtain v where
    "r \<noteq> Inl (Fault Unavailable)" "so_get ops key v = (w', r)" by auto
  then show ?thesis using get_fault by (cases r) auto
qed

lemma put_immutable_result:
  assumes "put_immutable ops pause gap key bs n w = Some y" "\<forall>n. keeps objects key (pause n)" "keeps objects key gap"
  shows "immutable_outcome objects key bs (objects w key) (fst y) (snd (snd y))"
proof -
  have "ops' = ops \<Longrightarrow> \<forall>n. keeps objects key (pause n) \<Longrightarrow> keeps objects key gap \<Longrightarrow>
      immutable_outcome objects key bs (objects w key) (fst y) (snd (snd y))"
    if "put_immutable ops' pause gap key bs n w = Some y" for ops'
    using that
  proof (induction ops' pause gap key bs n w y rule: put_immutable.raw_induct [rotated, consumes 1, case_names step])
    case (step self ops' pause gap key bs n w y)
    obtain w1 r where c: "so_put_cas ops key None bs w = (w1, r)" by fastforce
    have bound: "objects w1 key = Some x" if "objects w key = Some x" for x
      using cas_effect [OF c] that by auto
    show ?case
    proof (cases r)
      case (Inr v)
      then have "y = (w1, n, Inr v)" using step.hyps c step.prems(1) by simp
      then show ?thesis using cas_value [OF c [unfolded Inr]] bound by (auto simp: immutable_outcome_def)
    next
      case (Inl e)
      show ?thesis
      proof (cases e)
        case Too_Large
        then have "y = (w1, n, Inl Too_Large)" using step.hyps c step.prems(1) Inl by simp
        then show ?thesis using bound by (simp add: immutable_outcome_def)
      next
        case (Fault f)
        show ?thesis
        proof (cases f)
          case Unavailable
          then have "self ops' pause gap key bs (n + 1) (pause n w1) = Some y"
            using step.hyps c step.prems(1) Inl Fault by simp
          from step.IH [OF this step.prems(1-3)] show ?thesis
            by (rule immutable_outcome_before) (use bound step.prems(2) in \<open>auto simp: keeps_def\<close>)
        next
          case (Cas_Conflict actual)
          then obtain w2 m g where g: "retry_get ops pause key n (gap w1) = Some (w2, m, g)"
            "y = (w2, m, case g of Inl e \<Rightarrow> Inl e | Inr None \<Rightarrow> Inl (Fault (Cas_Conflict actual))
              | Inr (Some (version, found)) \<Rightarrow> if found = bs then Inr version else Inl (Fault (Cas_Conflict actual)))"
            using step.hyps c step.prems(1) Inl Fault by (auto simp: bind_eq_Some_conv)
          from looked_into [OF g(1) step.prems(2)] obtain found where found: "g = Inr found" by blast
          have now: "found = objects w2 key" by (rule retry_get_result(2) [OF g(1) step.prems(2) found])
          have keep: "objects w2 key = Some x" if "objects w key = Some x" for x
            using retry_get_result(3) [OF g(1) step.prems(2)] bound [OF that] step.prems(3) unfolding keeps_def by blast
          show ?thesis using g(2) found now keep by (auto simp: immutable_outcome_def split: option.splits if_splits)
        qed
      qed
    qed
  qed
  then show ?thesis using assms by blast
qed

end

interpretation sim_retry: retry_store "sim_ops E" sim_objects sim_used sim_room sim_wf for E
  by unfold_locales (auto simp: sim_ops_def sim_get_def Let_def split: if_splits)

section \<open>The loops return once the outage ends\<close>

lemma sim_get_up:
  "\<not> sv_outage (sw_store w) \<Longrightarrow> so_get (sim_ops E) key w = (w', r) \<Longrightarrow> \<exists>found. r = Inr found"
  by (auto simp: sim_ops_def sim_get_def Let_def split: if_splits)

lemma sim_cas_up:
  assumes "\<not> sv_outage (sw_store w)" "so_put_cas (sim_ops E) key expected bs w = (w', r)"
  shows "r \<noteq> Inl (Fault Unavailable)"
proof -
  obtain st kind where a: "write_attempt E key bs True (sw_store w) = (st, kind)" by fastforce
  then have "\<not> sv_outage st" using assms(1) by (auto simp: write_attempt_def Let_def)
  then show ?thesis
    using assms(2) by (auto simp: sim_ops_def sim_put_cas_def a Let_def split: if_splits)
qed

definition outage_ends :: "(nat \<Rightarrow> sim_world \<Rightarrow> sim_world) \<Rightarrow> nat \<Rightarrow> bool" where
  "outage_ends pause N \<longleftrightarrow> (\<forall>n w. N \<le> n \<longrightarrow> \<not> sv_outage (sw_store (pause n w)))"

lemma retry_get_up: "\<not> sv_outage (sw_store w) \<Longrightarrow> \<exists>y. retry_get (sim_ops E) pause key n w = Some y"
  using sim_get_up [of w E key] by (cases "so_get (sim_ops E) key w") (auto simp: retry_get_def retry_loop.simps [of pause _ n w])

lemma retry_get_returns:
  assumes "outage_ends pause N"
  shows "\<exists>y. retry_get (sim_ops E) pause key n w = Some y"
proof (induction "N - n" arbitrary: n w)
  case 0
  obtain w1 r where c: "so_get (sim_ops E) key w = (w1, r)" by fastforce
  from 0 have "\<not> sv_outage (sw_store (pause n w1))" using assms by (simp add: outage_ends_def)
  from retry_get_up [OF this, of E pause key "n + 1"] show ?case
    by (auto simp: retry_get_def retry_loop.simps [of pause _ n w] c)
next
  case (Suc d)
  obtain w1 r where c: "so_get (sim_ops E) key w = (w1, r)" by fastforce
  from Suc(1) [of "n + 1" "pause n w1"] Suc(2) show ?case
    by (auto simp: retry_get_def retry_loop.simps [of pause _ n w] c)
qed

lemma put_immutable_step:
  assumes "outage_ends pause N" "so_put_cas (sim_ops E) key None bs w = (w1, r)"
    and "r = Inl (Fault Unavailable) \<Longrightarrow> \<exists>y. put_immutable (sim_ops E) pause gap key bs (n + 1) (pause n w1) = Some y"
  shows "\<exists>y. put_immutable (sim_ops E) pause gap key bs n w = Some y"
proof -
  obtain w2 m g where "retry_get (sim_ops E) pause key n (gap w1) = Some (w2, m, g)"
    using retry_get_returns [OF assms(1), of E key n "gap w1"] by auto
  with assms(2,3) show ?thesis
    unfolding put_immutable.simps [of "sim_ops E" pause gap key bs n w]
    by (auto split: sum.splits store_error.splits store_fault.splits)
qed

lemma put_immutable_returns:
  assumes "outage_ends pause N"
  shows "\<exists>y. put_immutable (sim_ops E) pause gap key bs n w = Some y"
proof (induction "N - n" arbitrary: n w)
  case 0
  obtain w1 r where c: "so_put_cas (sim_ops E) key None bs w = (w1, r)" by fastforce
  from 0 have up: "\<not> sv_outage (sw_store (pause n w1))" using assms by (simp add: outage_ends_def)
  obtain w2 r2 where c2: "so_put_cas (sim_ops E) key None bs (pause n w1) = (w2, r2)" by fastforce
  from put_immutable_step [OF assms c2] sim_cas_up [OF up c2]
  have "\<exists>y. put_immutable (sim_ops E) pause gap key bs (n + 1) (pause n w1) = Some y" by blast
  from put_immutable_step [OF assms c this] show ?case .
next
  case (Suc d)
  obtain w1 r where c: "so_put_cas (sim_ops E) key None bs w = (w1, r)" by fastforce
  have "\<exists>y. put_immutable (sim_ops E) pause gap key bs (n + 1) (pause n w1) = Some y"
    by (rule Suc(1)) (use Suc(2) in simp)
  from put_immutable_step [OF assms c this] show ?case .
qed

section \<open>Property\<close>

text \<open>
  C10: Publishing an immutable object is exact in spite of outages and lost replies.  If others never change the
  value of the key once it is bound, and the outage ends, the retrying write returns.  When it reports success, the
  key holds exactly these bytes at the reported version, also when an earlier attempt had landed unnoticed; when
  it reports a conflict, the key does not hold these bytes; it never reports the store as unavailable.  In
  every case an object that was already there is left as it was.
\<close>

theorem put_immutable_exact:
  assumes "\<And>n. keeps sim_objects key (pause n)" "keeps sim_objects key gap" "outage_ends pause N"
  shows "\<exists>w' n r. put_immutable (sim_ops E) pause gap key bs 0 w = Some (w', n, r) \<and>
    (\<forall>v. r = Inr v \<longrightarrow> sim_objects w' key = Some (v, bs)) \<and> r \<noteq> Inl (Fault Unavailable) \<and>
    (\<forall>actual v. r = Inl (Fault (Cas_Conflict actual)) \<longrightarrow> sim_objects w' key \<noteq> Some (v, bs)) \<and>
    (\<forall>x. sim_objects w key = Some x \<longrightarrow> sim_objects w' key = Some x)"
proof -
  obtain w' n r where y: "put_immutable (sim_ops E) pause gap key bs 0 w = Some (w', n, r)"
    using put_immutable_returns [OF assms(3), of E gap key bs 0 w] by auto
  from sim_retry.put_immutable_result [OF y] assms(1,2) have "immutable_outcome sim_objects key bs (sim_objects w key) w' r" by simp
  with y show ?thesis unfolding immutable_outcome_def by blast
qed

text \<open>An outage that the first delay outlasts.\<close>

definition repair :: "nat \<Rightarrow> sim_world \<Rightarrow> sim_world" where
  "repair n w = w\<lparr> sw_store := (sw_store w)\<lparr> sv_outage := False \<rparr> \<rparr>"

theorem put_immutable_exact_witness:
  "\<forall>w. \<exists>w' n r. put_immutable (sim_ops demo_env) repair (\<lambda>w. w) ''k'' [1, 2] 0 w = Some (w', n, r) \<and>
     (\<forall>v. r = Inr v \<longrightarrow> sim_objects w' ''k'' = Some (v, [1, 2]))"
proof
  fix w
  have "keeps sim_objects ''k'' (repair n)" for n by (simp add: keeps_def repair_def sim_objects_def)
  moreover have "keeps sim_objects ''k'' (\<lambda>w. w)" by (simp add: keeps_def)
  moreover have "outage_ends repair 0" by (simp add: outage_ends_def repair_def)
  ultimately show "\<exists>w' n r. put_immutable (sim_ops demo_env) repair (\<lambda>w. w) ''k'' [1, 2] 0 w = Some (w', n, r) \<and>
     (\<forall>v. r = Inr v \<longrightarrow> sim_objects w' ''k'' = Some (v, [1, 2]))"
    using put_immutable_exact [of "''k''" repair "\<lambda>w. w" 0 demo_env "[1, 2]" w] by blast
qed

end
