(* ===== verification/Spec2Isabelle.thy ===== *)
theory Spec2Isabelle
  imports Replica_Publication Collector Authority Keyed_Queue Page_Cache Peer_Transport Store_Retry
begin

text \<open>
  \<^bold>\<open>A verification development for blockd.\<close>

  blockd serves the memory and disks of virtual machines from a page cache on each host, journals and
  captures what the guests write, replicates it to a passive peer, archives it in an object store, and moves
  volumes between hosts.  The code under \<^verbatim>\<open>crates/\<close> falls into the durable formats and pure decision
  procedures of \<^verbatim>\<open>crates/core\<close>, the async actors of \<^verbatim>\<open>crates/core/src/engine\<close> that use them, a
  production world (\<^verbatim>\<open>crates/runtime\<close>, \<^verbatim>\<open>crates/hostmem\<close>, \<^verbatim>\<open>crates/transport\<close>) and a simulated one
  (\<^verbatim>\<open>crates/sim\<close>).  The development models the formats, the decision procedures, the bookkeeping structures
  the actors share, the simulated object store, the collector and the peer receive path.  Definitions carry the
  names of the functions they translate where the logic allows it.

  \<^bold>\<open>Conventions.\<close>  Machine integers are words, \<open>usize\<close> values are naturals, and bytes are lists of 8-bit
  words.  A decoder returns an option, \<open>None\<close> being \<^verbatim>\<open>DecodeError\<close>; a function that can fail and can also
  panic returns an \<open>outcome\<close>; elsewhere \<open>None\<close> stands for a failed assertion, as each theory says.  A
  \<^verbatim>\<open>BTreeMap\<close> or \<^verbatim>\<open>BTreeSet\<close> is the list of its elements in key order.  Code outside the repository is a
  parameter: the CRC, LZ4 and the process page size are fields of \<open>env\<close>, the derived protobuf codec of a
  message is a record \<open>prost\<close>, a store backend is a record of operations, and sockets, semaphores and the blocking
  pool are the environment of the receive loop.  What a theorem needs of them is a named hypothesis
  (\<open>lz4_roundtrips\<close>, \<open>crc_detects_bit_flips\<close>, \<open>prost_roundtrips\<close>), and \<open>demo_env\<close> and the \<open>demo_\<close> codecs
  are concrete instances that meet it.

  \<^bold>\<open>Theories and what they show.\<close>

  \<^item> \<open>Prelude\<close>, \<open>Ord_Map\<close>: shared types, checked and saturating arithmetic, outcomes, little-endian bytes; ordered
    maps and sets with the locale \<open>key_order\<close>, interpreted for every linear order, for block keys, for object
    identities and for placement candidates.
  \<^item> \<open>Format\<close> (\<^verbatim>\<open>format.rs\<close>): encoder and decoder primitives under the locale \<open>codec\<close>, frames and checksums.
    Opening inverts sealing exactly, torn and padded frames are refused, single-bit damage is detected.
  \<^item> \<open>Layout\<close> (\<^verbatim>\<open>layout.rs\<close>): names of blobs and store keys; archive keys and blob names parse
    back, and the keys of the cluster are apart from them.
  \<^item> \<open>Blx_Key\<close>, \<open>Blx_Format\<close>, \<open>Blx_Batch\<close> (\<^verbatim>\<open>blx.rs\<close>): block keys and their order, the byte format of one
    object, batches, splitting, compaction and the incremental state checksum.  An encoded object reopens, an
    indexed read returns the stored entry, a successful scan vouches for arbitrary bytes down to the place of every
    entry, the builder and the compactor implement newest-generation selection, the checksum stays that of the whole state.
  \<^item> \<open>Object_Refs\<close>, \<open>Manifest\<close> (\<^verbatim>\<open>manifest.rs\<close>): references and their one-pass validation, the overlap sweep,
    manifests, complete lists, base roots, the state chain, current files and closures.  Both validations decide
    their specifications, every outcome of computing the current files and of bounding a manifest is characterised, errors
    included, and an oversized manifest always rolls into a list that holds the same files.
  \<^item> \<open>Page_File\<close> (\<^verbatim>\<open>page_file.rs\<close>): captures; what a finished capture reports reads back as captured.
  \<^item> \<open>Journal\<close>, \<open>Head\<close> (\<^verbatim>\<open>journal.rs\<close>, \<^verbatim>\<open>head.rs\<close>): the durable records; bytes decode exactly when the
    encoder produces them for a valid record.
  \<^item> \<open>Replica_Spool\<close>, \<open>Replica_Recovery\<close>, \<open>Replica_Publication\<close> (\<^verbatim>\<open>replica_spool.rs\<close>, \<^verbatim>\<open>replica_wire.rs\<close>,
    \<^verbatim>\<open>replica_recovery.rs\<close>, \<^verbatim>\<open>engine/recovery_policy.rs\<close>): the passive copy.  A restart scan is sound and
    replays the recorded log, an export is authorised and newest, no step panics on any bytes, and what is
    published reads back.
  \<^item> \<open>Gc\<close>, \<open>Object_Store\<close>, \<open>Collector\<close> (\<^verbatim>\<open>gc.rs\<close>, the \<^verbatim>\<open>Store\<close> trait of \<^verbatim>\<open>world.rs\<close>, the simulated store of
    \<^verbatim>\<open>crates/sim\<close>, \<^verbatim>\<open>crates/runtime/src/collector.rs\<close>): the plan deletes exactly what no readable root reaches,
    and a pass issues only such deletes, at watched generations past the grace.  The store contract that
    conditional writers rely on is the locale \<open>versioned_store\<close>, interpreted on the simulated store.
  \<^item> \<open>Store_Retry\<close> (\<^verbatim>\<open>engine/store_retry.rs\<close>): the retrying store calls over the contract, extended by the locale
    \<open>retry_store\<close>; publishing an immutable object is exact in spite of outages and lost replies, and returns
    once the outage ends.
  \<^item> \<open>Prost_Wire\<close>, \<open>Placement\<close>, \<open>Authority\<close> (\<^verbatim>\<open>placement.rs\<close>, \<^verbatim>\<open>authority.rs\<close>, \<^verbatim>\<open>engine/authority.rs\<close>): the
    membership snapshot and rendezvous ranking, host sessions and their compare-and-swap operations.  In every run
    over the store contract at most one session holds an epoch, and what is stored is well formed.
  \<^item> \<open>Keyed_Queue\<close> (\<^verbatim>\<open>engine/keyed_queue.rs\<close>): every schedule is safe, keeps a key's order, loses nothing and
    respects the concurrency; waiting is bounded.
  \<^item> \<open>Page_Cache\<close> (\<^verbatim>\<open>cache.rs\<close>): every schedule within the contract keeps capacity, generation span and exact
    indices; making room evicts the right page; the loop over emptied generations ends.
  \<^item> \<open>Peer_Wire\<close>, \<open>Peer_Transport\<close> (\<^verbatim>\<open>peer.rs\<close>, \<^verbatim>\<open>protocol.rs\<close>, \<^verbatim>\<open>crates/transport\<close>): peer messages and the
    receive loops over byte streams, proved once in the locale \<open>frame_decoder\<close> and interpreted for the plain
    and the routed decoder.  The loop delivers exactly the messages whose frames lead the stream, under any
    chunking and any cut.

  \<^bold>\<open>Loops and bounds.\<close>  No definition uses fuel.  Loops are structural recursions, or functions with a termination
  proof on the bytes that remain (\<open>scan_spool_loop\<close>, \<open>receive_frames\<close>, \<open>vmm_chunks\<close>) or on an interval
  (\<open>binary_search\<close>); \<open>advance_loop\<close> of the cache and the retry loops are partial functions, and
  that they return is part of their theorems.  The bounds
  in statements are those of the code (object and payload caps, counts in \<open>u32\<close> fields, one million
  required artifacts) or of its counters: the theorem about cache schedules is for fewer than \<open>2 ^ 64\<close> calls, and the
  engine's obligation of at most 255 concurrent flushes of a page is part of the cache's contract.

  \<^bold>\<open>Not modelled.\<close>  The engine actors (capture, fault handling, backup, migration, replication, recovery,
  restore, leases and lineage) are async tasks that interleave over a shared host state with cancellation and
  an injected world; a faithful model needs a semantics of the executor first, which is a thin layer over
  Tokio.  The operating-system boundary (userfaultfd, memfd, Firecracker, sockets, TLS, HTTP store clients, directory
  scans) is pure I/O.  The simulated disks, guests and network, the scenario harness, the workload generator,
  metrics, telemetry, the demonstration daemon and the command-line tools carry no durable protocol state of their own.
  \<^verbatim>\<open>hostmeta.rs\<close> and the administrative calls of \<^verbatim>\<open>protocol.rs\<close> are plain data for the actors.
\<close>

end
